(* ===== verification/Prelude.thy ===== *)
theory Prelude
  imports Main "HOL-Library.Word" "HOL-Library.Multiset"
begin

text \<open>
  Shared vocabulary of the development: machine integers, the outcome of running a piece of
  Rust code (a value, an unwinding panic, a process abort, or a fault, which stands for undefined
  behaviour and for a failed borrow check), the computations over a state with such an outcome,
  the combinators that model \<open>Drop\<close> guards and \<open>catch_unwind\<close>, and a weakest precondition
  calculus for them. The theorems of the other theories are stated and proved over \<open>wp\<close>.
\<close>

section \<open>Machine integers\<close>

type_synonym usize = "64 word"
type_synonym u64 = "64 word"

named_theorems word_nat \<open>facts that move word arithmetic to natural numbers\<close>

lemma unat_add_nowrap [word_nat]:
  "unat (a :: 64 word) + unat b < 2 ^ 64 \<Longrightarrow> unat (a + b) = unat a + unat b"
  by (simp add: unat_word_ariths)

lemma unat_suc_nowrap [word_nat]:
  "Suc (unat (a :: 64 word)) < 2 ^ 64 \<Longrightarrow> unat (a + 1) = Suc (unat a)"
  by (simp add: unat_word_ariths)

lemma unat_pred [word_nat]: "(a :: 64 word) \<noteq> 0 \<Longrightarrow> unat (a - 1) = unat a - 1"
  by (rule unat_minus_one)

lemma unat_lt64 [simp]: "unat (a :: 64 word) < 18446744073709551616"
  using unsigned_less [of a] by simp

lemma unat_suc_less: "unat (a :: 64 word) < unat (b :: 64 word) \<Longrightarrow> unat (a + 1) = Suc (unat a)"
proof (rule unat_suc_nowrap)
  assume "unat a < unat b"
  then have "Suc (unat a) \<le> unat b" by simp
  also have "unat b < 2 ^ 64" by simp
  finally show "Suc (unat a) < 2 ^ 64" .
qed

lemma word_eq_unat: "(a :: 64 word) = b \<longleftrightarrow> unat a = unat b"
  by (rule word_unat_eq_iff)

lemma unat_zero_iff [simp]: "unat (a :: 64 word) = 0 \<longleftrightarrow> a = 0"
  by (simp add: word_eq_unat)

lemma word_gt_one:
  assumes "(a :: 64 word) \<noteq> 0" and "a \<noteq> 1"
  shows "1 < a"
proof -
  have "unat a \<noteq> 0" using assms(1) by simp
  moreover have "unat a \<noteq> unat (1 :: 64 word)" using assms(2) word_eq_unat by blast
  ultimately have "unat (1 :: 64 word) < unat a" by (simp only: unat_1)
  then show ?thesis by (simp only: word_less_nat_alt)
qed

section \<open>Outcomes and computations\<close>

datatype payload = PanicMsg string | UserPanic nat

text \<open>
  Besides aborting the process, a computation may fail to return at all: \<open>Diverges\<close> is the outcome of
  a loop that is still running when its fuel is used up. \<open>RcOverflow\<close> is the abort of \<open>Rc::clone\<close>.
\<close>

datatype abort_reason = DoublePanic | OutOfMemory | Diverges | RcOverflow

datatype fault = UninitRead | DanglingPtr | DoubleBorrow | OutOfFuel

datatype 'a outcome = Ret 'a | Panic payload | Abort abort_reason | Fault fault

type_synonym ('s, 'a) comp = "'s \<Rightarrow> 'a outcome \<times> 's"

definition ret :: "'a \<Rightarrow> ('s, 'a) comp" where
  "ret x = (\<lambda>s. (Ret x, s))"

definition bindM :: "('s, 'a) comp \<Rightarrow> ('a \<Rightarrow> ('s, 'b) comp) \<Rightarrow> ('s, 'b) comp" where
  "bindM m f = (\<lambda>s. case m s of
      (Ret x, s') \<Rightarrow> f x s'
    | (Panic p, s') \<Rightarrow> (Panic p, s')
    | (Abort a, s') \<Rightarrow> (Abort a, s')
    | (Fault e, s') \<Rightarrow> (Fault e, s'))"

definition thenM :: "('s, 'a) comp \<Rightarrow> ('s, 'b) comp \<Rightarrow> ('s, 'b) comp" where
  "thenM m k = bindM m (\<lambda>_. k)"

definition gets :: "('s \<Rightarrow> 'a) \<Rightarrow> ('s, 'a) comp" where
  "gets f = (\<lambda>s. (Ret (f s), s))"

definition modify :: "('s \<Rightarrow> 's) \<Rightarrow> ('s, unit) comp" where
  "modify f = (\<lambda>s. (Ret (), f s))"

definition panic :: "payload \<Rightarrow> ('s, 'a) comp" where
  "panic p = (\<lambda>s. (Panic p, s))"

definition abort :: "abort_reason \<Rightarrow> ('s, 'a) comp" where
  "abort a = (\<lambda>s. (Abort a, s))"

definition fault :: "fault \<Rightarrow> ('s, 'a) comp" where
  "fault e = (\<lambda>s. (Fault e, s))"

text \<open>
  \<open>catch_unwind\<close> of \<open>std::panic\<close>: a panic becomes the value \<open>Inl p\<close>. An abort is not caught.
\<close>

definition catch_unwind :: "('s, 'a) comp \<Rightarrow> ('s, payload + 'a) comp" where
  "catch_unwind m = (\<lambda>s. case m s of
      (Ret x, s') \<Rightarrow> (Ret (Inr x), s')
    | (Panic p, s') \<Rightarrow> (Ret (Inl p), s')
    | (Abort a, s') \<Rightarrow> (Abort a, s')
    | (Fault e, s') \<Rightarrow> (Fault e, s'))"

text \<open>
  Code that runs only while \<open>m\<close> unwinds: the destructor of a local, or of a guard that is
  forgotten (\<open>core::mem::forget\<close>) on the normal path. A panic that leaves a destructor during
  unwinding aborts the process.
\<close>

definition on_unwind :: "('s, unit) comp \<Rightarrow> ('s, 'a) comp \<Rightarrow> ('s, 'a) comp" where
  "on_unwind g m = (\<lambda>s. case m s of
      (Ret x, s') \<Rightarrow> (Ret x, s')
    | (Panic p, s') \<Rightarrow> (case g s' of
          (Ret _, s'') \<Rightarrow> (Panic p, s'')
        | (Panic _, s'') \<Rightarrow> (Abort DoublePanic, s'')
        | (Abort a, s'') \<Rightarrow> (Abort a, s'')
        | (Fault e, s'') \<Rightarrow> (Fault e, s''))
    | (Abort a, s') \<Rightarrow> (Abort a, s')
    | (Fault e, s') \<Rightarrow> (Fault e, s'))"

text \<open>A guard whose destructor \<open>g\<close> runs when its scope \<open>m\<close> ends, normally or by unwinding.\<close>

definition with_guard :: "('s, unit) comp \<Rightarrow> ('s, 'a) comp \<Rightarrow> ('s, 'a) comp" where
  "with_guard g m = bindM (on_unwind g m) (\<lambda>x. thenM g (ret x))"

text \<open>
  A computation on the shared state run beside a local object (a future or a handle) that only
  the running code can reach, because it is borrowed mutably.
\<close>

definition on_fst :: "('s, 'a) comp \<Rightarrow> ('s \<times> 'f, 'a) comp" where
  "on_fst m = (\<lambda>(s, f). case m s of (r, s') \<Rightarrow> (r, (s', f)))"

definition on_snd :: "('f, 'a) comp \<Rightarrow> ('s \<times> 'f, 'a) comp" where
  "on_snd m = (\<lambda>(s, f). case m f of (r, f') \<Rightarrow> (r, (s, f')))"

text \<open>A computation on one field of the state.\<close>

definition zoom :: "('s \<Rightarrow> 'q) \<Rightarrow> (('q \<Rightarrow> 'q) \<Rightarrow> 's \<Rightarrow> 's) \<Rightarrow> ('q, 'a) comp \<Rightarrow> ('s, 'a) comp" where
  "zoom get upd m = (\<lambda>s. case m (get s) of (r, q) \<Rightarrow> (r, upd (\<lambda>_. q) s))"

text \<open>A \<open>for\<close> loop over a list.\<close>

fun for_each :: "('a \<Rightarrow> ('s, unit) comp) \<Rightarrow> 'a list \<Rightarrow> ('s, unit) comp" where
  "for_each f [] = ret ()"
| "for_each f (x # xs) = thenM (f x) (for_each f xs)"

text \<open>\<open>Option::expect\<close>: the value, or a panic with the message.\<close>

definition expect :: "string \<Rightarrow> 'a option \<Rightarrow> ('s, 'a) comp" where
  "expect msg x = (case x of Some v \<Rightarrow> ret v | None \<Rightarrow> panic (PanicMsg msg))"

section \<open>Weakest preconditions\<close>

text \<open>
  \<open>wp A m Q E s\<close>: run from \<open>s\<close>, \<open>m\<close> never faults, aborts only for a reason in \<open>A\<close>, ends in
  \<open>Q\<close> when it returns and in \<open>E\<close> when it unwinds.
\<close>

definition wp :: "abort_reason set \<Rightarrow> ('s, 'a) comp \<Rightarrow> ('a \<Rightarrow> 's \<Rightarrow> bool)
    \<Rightarrow> (payload \<Rightarrow> 's \<Rightarrow> bool) \<Rightarrow> 's \<Rightarrow> bool" where
  "wp A m Q E s = (case m s of
      (Ret x, s') \<Rightarrow> Q x s'
    | (Panic p, s') \<Rightarrow> E p s'
    | (Abort a, s') \<Rightarrow> a \<in> A
    | (Fault e, s') \<Rightarrow> False)"

named_theorems wp_simps \<open>weakest preconditions of the basic computations\<close>

lemma wp_ret [wp_simps]: "wp A (ret x) Q E = Q x"
  by (simp add: wp_def ret_def fun_eq_iff)

lemma wp_panic [wp_simps]: "wp A (panic p) Q E = E p"
  by (simp add: wp_def panic_def fun_eq_iff)

lemma wp_abort [wp_simps]: "wp A (abort a) Q E = (\<lambda>s. a \<in> A)"
  by (simp add: wp_def abort_def fun_eq_iff)

lemma wp_fault [wp_simps]: "wp A (fault e) Q E = (\<lambda>s. False)"
  by (simp add: wp_def fault_def fun_eq_iff)

lemma wp_gets [wp_simps]: "wp A (gets f) Q E = (\<lambda>s. Q (f s) s)"
  by (simp add: wp_def gets_def fun_eq_iff)

lemma wp_modify [wp_simps]: "wp A (modify f) Q E = (\<lambda>s. Q () (f s))"
  by (simp add: wp_def modify_def fun_eq_iff)

lemma wp_bindM [wp_simps]: "wp A (bindM m f) Q E = wp A m (\<lambda>x. wp A (f x) Q E) E"
  by (auto simp: wp_def bindM_def fun_eq_iff split: prod.splits outcome.splits)

lemma wp_thenM [wp_simps]: "wp A (thenM m k) Q E = wp A m (\<lambda>_. wp A k Q E) E"
  by (simp add: thenM_def wp_bindM)

lemma wp_catch_unwind [wp_simps]:
  "wp A (catch_unwind m) Q E = wp A m (\<lambda>x. Q (Inr x)) (\<lambda>p. Q (Inl p))"
  by (auto simp: wp_def catch_unwind_def fun_eq_iff split: prod.splits outcome.splits)

lemma wp_on_unwind [wp_simps]:
  "wp A (on_unwind g m) Q E =
     wp A m Q (\<lambda>p. wp A g (\<lambda>_. E p) (\<lambda>_ _. DoublePanic \<in> A))"
  by (auto simp: wp_def on_unwind_def fun_eq_iff split: prod.splits outcome.splits)

lemma wp_with_guard [wp_simps]:
  "wp A (with_guard g m) Q E =
     wp A m (\<lambda>x. wp A g (\<lambda>_. Q x) E) (\<lambda>p. wp A g (\<lambda>_. E p) (\<lambda>_ _. DoublePanic \<in> A))"
  by (simp add: with_guard_def wp_simps)

lemma wp_on_fst [wp_simps]:
  "wp A (on_fst m) Q E = (\<lambda>(s, f). wp A m (\<lambda>x s'. Q x (s', f)) (\<lambda>p s'. E p (s', f)) s)"
  by (auto simp: wp_def on_fst_def fun_eq_iff split: prod.splits outcome.splits)

lemma wp_on_snd [wp_simps]:
  "wp A (on_snd m) Q E = (\<lambda>(s, f). wp A m (\<lambda>x f'. Q x (s, f')) (\<lambda>p f'. E p (s, f')) f)"
  by (auto simp: wp_def on_snd_def fun_eq_iff split: prod.splits outcome.splits)

lemma wp_expect [wp_simps]:
  "wp A (expect msg x) Q E = (case x of Some v \<Rightarrow> Q v | None \<Rightarrow> E (PanicMsg msg))"
  by (simp add: expect_def wp_simps split: option.splits)

lemma wp_conseq:
  assumes "wp A m Q E s"
    and "\<And>x s'. Q x s' \<Longrightarrow> Q' x s'" and "\<And>p s'. E p s' \<Longrightarrow> E' p s'"
  shows "wp A m Q' E' s"
  using assms by (auto simp: wp_def split: prod.splits outcome.splits)

lemma wp_conj:
  assumes "wp A m Q E s" and "wp A m Q' E' s"
  shows "wp A m (\<lambda>x s'. Q x s' \<and> Q' x s') (\<lambda>p s'. E p s' \<and> E' p s') s"
  using assms by (auto simp: wp_def split: prod.splits outcome.splits)

lemma wp_all: "(\<And>i. wp A m (Q i) (E i) s) \<Longrightarrow> wp A m (\<lambda>x s'. \<forall>i. Q i x s') (\<lambda>p s'. \<forall>i. E i p s') s"
  by (auto simp: wp_def split: prod.splits outcome.splits)

lemma wp_abort_mono: "wp A m Q E s \<Longrightarrow> A \<subseteq> B \<Longrightarrow> wp B m Q E s"
  by (auto simp: wp_def split: prod.splits outcome.splits)

lemma wp_if [wp_simps]:
  "wp A (if b then m else k) Q E = (if b then wp A m Q E else wp A k Q E)"
  by simp

lemma wp_case_option [wp_simps]:
  "wp A (case x of None \<Rightarrow> m | Some v \<Rightarrow> k v) Q E =
     (case x of None \<Rightarrow> wp A m Q E | Some v \<Rightarrow> wp A (k v) Q E)"
  by (simp split: option.splits)

lemma wp_case_sum [wp_simps]:
  "wp A (case x of Inl v \<Rightarrow> m v | Inr v \<Rightarrow> k v) Q E =
     (case x of Inl v \<Rightarrow> wp A (m v) Q E | Inr v \<Rightarrow> wp A (k v) Q E)"
  by (simp split: sum.splits)

lemma wp_case_prod [wp_simps]:
  "wp A (case x of (a, b) \<Rightarrow> m a b) Q E = (case x of (a, b) \<Rightarrow> wp A (m a b) Q E)"
  by (simp split: prod.splits)

lemma wp_Ret_eq: "m s = (Ret x, s') \<Longrightarrow> wp A m Q E s = Q x s'"
  by (simp add: wp_def)

lemma wp_RetD: "wp A m Q E s \<Longrightarrow> m s = (Ret x, s') \<Longrightarrow> Q x s'"
  by (simp add: wp_def)

lemma wp_PanicD: "wp A m Q E s \<Longrightarrow> m s = (Panic p, s') \<Longrightarrow> E p s'"
  by (simp add: wp_def)

text \<open>A call that came back, with a value or by unwinding.\<close>

fun finished :: "'a outcome \<Rightarrow> bool" where
  "finished (Ret x) = True"
| "finished (Panic p) = True"
| "finished _ = False"

lemma wp_finished:
  assumes "wp A m (\<lambda>_. P) (\<lambda>_. P) s" and "m s = (r, s')" and "finished r"
  shows "P s'"
  using assms by (cases r) (simp_all add: wp_def)

lemma wp_no_fault: "wp A m Q E s \<Longrightarrow> fst (m s) \<noteq> Fault e"
  by (auto simp: wp_def split: prod.splits)

lemma wp_no_abort: "wp A m Q E s \<Longrightarrow> a \<notin> A \<Longrightarrow> fst (m s) \<noteq> Abort a"
  by (auto simp: wp_def split: prod.splits)

text \<open>Evaluation rules for concrete runs.\<close>

lemmas comp_eval = ret_def bindM_def thenM_def gets_def modify_def panic_def abort_def fault_def
  catch_unwind_def on_unwind_def with_guard_def on_fst_def on_snd_def expect_def

lemma for_each_append: "for_each f (xs @ ys) = thenM (for_each f xs) (for_each f ys)"
  by (induction xs) (auto simp: comp_eval fun_eq_iff split: prod.splits outcome.splits)

lemma for_each_map: "for_each f (map g xs) = for_each (\<lambda>x. f (g x)) xs"
  by (induction xs) auto

lemma for_each_cong: "(\<And>x. x \<in> set xs \<Longrightarrow> f x = g x) \<Longrightarrow> for_each f xs = for_each g xs"
  by (induction xs) auto

section \<open>Rely and guarantee\<close>

text \<open>
  User code (waker callbacks, payload destructors) runs inside the channel's operations and may
  re-enter the channel. A relation \<open>R\<close> of atomic channel steps describes all it can do. A
  computation is \<open>guar\<close> when everything it does, user code included, is again a sequence of
  \<open>R\<close> steps, whether it returns or unwinds; so operations may be nested in callbacks to any depth.
\<close>

definition guar :: "abort_reason set \<Rightarrow> ('s \<Rightarrow> bool) \<Rightarrow> ('s \<Rightarrow> 's \<Rightarrow> bool) \<Rightarrow> ('s, 'a) comp \<Rightarrow> bool" where
  "guar A I R m \<longleftrightarrow> (\<forall>s. I s \<longrightarrow> wp A m (\<lambda>_ s'. R\<^sup>*\<^sup>* s s') (\<lambda>_ s'. R\<^sup>*\<^sup>* s s') s)"

lemma guarI:
  assumes "\<And>s. I s \<Longrightarrow> wp A m (\<lambda>_. R\<^sup>*\<^sup>* s) (\<lambda>_. R\<^sup>*\<^sup>* s) s"
  shows "guar A I R m"
  using assms by (simp add: guar_def)

lemma guar_mono:
  assumes "guar A I R m" and "\<And>s s'. R s s' \<Longrightarrow> R' s s'"
  shows "guar A I R' m"
proof (rule guarI)
  fix s assume "I s"
  with assms(1) have "wp A m (\<lambda>_. R\<^sup>*\<^sup>* s) (\<lambda>_. R\<^sup>*\<^sup>* s) s" by (simp add: guar_def)
  then show "wp A m (\<lambda>_. R'\<^sup>*\<^sup>* s) (\<lambda>_. R'\<^sup>*\<^sup>* s) s"
    by (rule wp_conseq) (use assms(2) in \<open>auto elim: rtranclp_mono [THEN predicate2D, rotated]\<close>)
qed

lemma guar_run: "guar A I R m \<Longrightarrow> I s \<Longrightarrow> m s = (Ret x, s') \<Longrightarrow> R\<^sup>*\<^sup>* s s'"
  unfolding guar_def using wp_RetD by fastforce

lemma guar_finished: "guar A I R m \<Longrightarrow> I s \<Longrightarrow> m s = (r, s') \<Longrightarrow> finished r \<Longrightarrow> R\<^sup>*\<^sup>* s s'"
  unfolding guar_def by (blast intro: wp_finished)

locale step_system =
  fixes inv :: "'s \<Rightarrow> bool"
    and step :: "'s \<Rightarrow> 's \<Rightarrow> bool"
  assumes inv_step: "inv s \<Longrightarrow> step s s' \<Longrightarrow> inv s'"
begin

lemma inv_steps: "step\<^sup>*\<^sup>* s s' \<Longrightarrow> inv s \<Longrightarrow> inv s'"
  by (induction rule: rtranclp_induct) (auto intro: inv_step)

lemma guar_wp:
  assumes "guar A inv step m" and "inv s"
    and "\<And>x s'. step\<^sup>*\<^sup>* s s' \<Longrightarrow> inv s' \<Longrightarrow> Q x s'"
    and "\<And>p s'. step\<^sup>*\<^sup>* s s' \<Longrightarrow> inv s' \<Longrightarrow> E p s'"
  shows "wp A m Q E s"
proof -
  have "wp A m (\<lambda>_ s'. step\<^sup>*\<^sup>* s s') (\<lambda>_ s'. step\<^sup>*\<^sup>* s s') s"
    using assms(1,2) by (simp add: guar_def)
  then show ?thesis
    by (rule wp_conseq) (use assms(2-) inv_steps in blast)+
qed

text \<open>The same for the state a computation reaches on its way, seen from where it started.\<close>

lemma guar_from:
  assumes "guar A inv step m" and "step\<^sup>*\<^sup>* s t" and "inv s"
  shows "wp A m (\<lambda>_. step\<^sup>*\<^sup>* s) (\<lambda>_. step\<^sup>*\<^sup>* s) t"
  using assms inv_steps by (intro guar_wp [OF assms(1)]) auto

lemma guar_ret: "guar A inv step (ret x)"
  by (simp add: guar_def wp_simps)

lemma guar_bindM:
  assumes "guar A inv step m" and "\<And>x. guar A inv step (f x)"
  shows "guar A inv step (bindM m f)"
  unfolding guar_def
proof (intro allI impI)
  fix s assume s: "inv s"
  show "wp A (bindM m f) (\<lambda>_. step\<^sup>*\<^sup>* s) (\<lambda>_. step\<^sup>*\<^sup>* s) s"
    unfolding wp_bindM
  proof (rule guar_wp [OF assms(1) s])
    fix x s' assume "step\<^sup>*\<^sup>* s s'" and "inv s'"
    then show "wp A (f x) (\<lambda>_. step\<^sup>*\<^sup>* s) (\<lambda>_. step\<^sup>*\<^sup>* s) s'"
      by (intro guar_wp [OF assms(2)]) auto
  qed auto
qed

lemma guar_thenM:
  assumes "guar A inv step m" and "guar A inv step k"
  shows "guar A inv step (thenM m k)"
  unfolding thenM_def by (intro guar_bindM assms)

lemma guar_catch_unwind:
  assumes "guar A inv step m"
  shows "guar A inv step (catch_unwind m)"
  using assms by (simp add: guar_def wp_simps)

lemma guar_on_unwind:
  assumes "guar A inv step m" and "guar A inv step g" and "DoublePanic \<in> A"
  shows "guar A inv step (on_unwind g m)"
  unfolding guar_def
proof (intro allI impI)
  fix s assume s: "inv s"
  show "wp A (on_unwind g m) (\<lambda>_. step\<^sup>*\<^sup>* s) (\<lambda>_. step\<^sup>*\<^sup>* s) s"
    unfolding wp_on_unwind
  proof (rule guar_wp [OF assms(1) s])
    fix s' assume "step\<^sup>*\<^sup>* s s'" and "inv s'"
    then show "wp A g (\<lambda>_. step\<^sup>*\<^sup>* s) (\<lambda>_ _. DoublePanic \<in> A) s'"
      using assms(3) by (intro guar_wp [OF assms(2)]) auto
  qed
qed

lemma guar_with_guard:
  assumes "guar A inv step m" and "guar A inv step g" and "DoublePanic \<in> A"
  shows "guar A inv step (with_guard g m)"
  unfolding with_guard_def by (intro guar_bindM guar_thenM guar_on_unwind guar_ret assms)

lemma guar_panic: "guar A inv step (panic p)"
  by (simp add: guar_def wp_simps)

lemma guar_gets: "guar A inv step (gets f)"
  by (simp add: guar_def wp_simps)

lemmas guar_intros = guar_ret guar_bindM guar_thenM guar_catch_unwind guar_on_unwind
  guar_with_guard guar_panic guar_gets

end

section \<open>Lists\<close>

text \<open>\<open>Vec::swap_remove\<close>: the last element takes the place of the removed one.\<close>

definition swap_remove :: "nat \<Rightarrow> 'a list \<Rightarrow> 'a list" where
  "swap_remove i xs = (if i < length xs then butlast (xs[i := last xs]) else xs)"

text \<open>\<open>Iterator::position\<close>.\<close>

fun position :: "('a \<Rightarrow> bool) \<Rightarrow> 'a list \<Rightarrow> nat option" where
  "position P [] = None"
| "position P (x # xs) = (if P x then Some 0 else map_option Suc (position P xs))"

lemma position_None: "position P xs = None \<longleftrightarrow> (\<forall>x \<in> set xs. \<not> P x)"
  by (induction xs) auto

lemma position_Some:
  "position P xs = Some i \<Longrightarrow> i < length xs \<and> P (xs ! i) \<and> (\<forall>j < i. \<not> P (xs ! j))"
proof (induction xs arbitrary: i)
  case (Cons x xs)
  then show ?case
    by (cases i) (auto split: if_splits simp: less_Suc_eq_0_disj)
qed simp

lemma swap_remove_decomp:
  assumes "i < length xs"
  shows "\<exists>ys zs. xs = ys @ xs ! i # zs \<and> length ys = i
    \<and> swap_remove i xs = ys @ (if zs = [] then [] else last zs # butlast zs)"
proof -
  define ys zs where "ys = take i xs" and "zs = drop (Suc i) xs"
  have xs: "xs = ys @ xs ! i # zs" and i: "length ys = i"
    using assms by (simp_all add: ys_def zs_def id_take_nth_drop)
  have "xs[i := last xs] = ys @ last xs # zs"
    by (subst xs) (simp add: i list_update_append)
  moreover have "last xs = (if zs = [] then xs ! i else last zs)"
    by (subst xs) simp
  ultimately have "swap_remove i xs = ys @ (if zs = [] then [] else last zs # butlast zs)"
    using assms by (simp add: swap_remove_def butlast_append)
  with xs i show ?thesis by blast
qed

lemma mset_swap_remove:
  assumes "i < length xs"
  shows "mset xs = add_mset (xs ! i) (mset (swap_remove i xs))"
proof -
  obtain ys zs where xs: "xs = ys @ xs ! i # zs"
    and r: "swap_remove i xs = ys @ (if zs = [] then [] else last zs # butlast zs)"
    using swap_remove_decomp [OF assms] by blast
  have "mset (if zs = [] then [] else last zs # butlast zs) = mset zs"
    by (cases zs rule: rev_cases) auto
  then show ?thesis
    by (subst xs) (simp add: r)
qed

lemma set_swap_remove:
  assumes "i < length xs" and "distinct xs"
  shows "set (swap_remove i xs) = set xs - {xs ! i}"
proof -
  have "mset (swap_remove i xs) = mset (remove1 (xs ! i) xs)"
    using mset_swap_remove [OF assms(1)] by simp
  then have "set (swap_remove i xs) = set (remove1 (xs ! i) xs)"
    by (rule mset_eq_setD)
  with assms(2) show ?thesis by simp
qed

lemma distinct_swap_remove:
  assumes "distinct (map f xs)"
  shows "distinct (map f (swap_remove i xs))"
proof (cases "i < length xs")
  case True
  have "mset (map f xs) = mset (f (xs ! i) # map f (swap_remove i xs))"
    using mset_swap_remove [OF True] by simp
  then have "distinct (f (xs ! i) # map f (swap_remove i xs))"
    using assms mset_eq_imp_distinct_iff by blast
  then show ?thesis by simp
qed (use assms in \<open>simp add: swap_remove_def\<close>)

lemma set_swap_remove_subset: "set (swap_remove i xs) \<subseteq> set xs"
proof (cases "i < length xs")
  case True
  then have "set_mset (mset (swap_remove i xs)) \<subseteq> set_mset (mset xs)"
    using mset_swap_remove [OF True] by (metis set_mset_add_mset_insert subset_insertI)
  then show ?thesis by simp
qed (simp add: swap_remove_def)

end
