(* ===== verification/Fifo.thy ===== *)
theory Fifo
  imports Prelude
begin

text \<open>
  The contract of the storage behind a channel (\<open>src/queue/mod.rs\<close>): a first-in first-out queue,
  bounded or not, whose \<open>push\<close> hands the item back when it is full. The ring buffer, the block
  list and \<open>Flavor\<close>, which dispatches between them, are interpretations.
\<close>

section \<open>Uninitialised memory\<close>

text \<open>A slot of type \<open>MaybeUninit\<close>, as its owner tracks it.\<close>

datatype 't slot = Uninit | Init 't

fun the_init :: "'t slot \<Rightarrow> 't" where
  "the_init (Init x) = x"

section \<open>The abstract queue\<close>

text \<open>
  The specification: a list, with a capacity or without. A history of operations determines the
  results of all of them and the items left over.
\<close>

datatype 't qop = Push 't | Pop

datatype 't qres = PushRes "'t + unit" | PopRes "'t option"

fun spec_op :: "nat option \<Rightarrow> 't qop \<Rightarrow> 't list \<Rightarrow> 't qres \<times> 't list" where
  "spec_op c (Push x) xs = (if c = Some (length xs) then (PushRes (Inl x), xs) else (PushRes (Inr ()), xs @ [x]))"
| "spec_op c Pop xs = (case xs of [] \<Rightarrow> (PopRes None, []) | x # ys \<Rightarrow> (PopRes (Some x), ys))"

fun spec_queue :: "nat option \<Rightarrow> 't qop list \<Rightarrow> 't list \<Rightarrow> 't qres list \<times> 't list" where
  "spec_queue c [] xs = ([], xs)"
| "spec_queue c (a # ops) xs = (case spec_op c a xs of (r, ys) \<Rightarrow>
     (case spec_queue c ops ys of (rs, zs) \<Rightarrow> (r # rs, zs)))"

text \<open>The same history run on an implementation.\<close>

fun queue_op :: "('t \<Rightarrow> ('q, 't + unit) comp) \<Rightarrow> ('q, 't option) comp \<Rightarrow> 't qop \<Rightarrow> ('q, 't qres) comp" where
  "queue_op push pop (Push x) = bindM (push x) (\<lambda>r. ret (PushRes r))"
| "queue_op push pop Pop = bindM pop (\<lambda>r. ret (PopRes r))"

fun run_queue :: "('t \<Rightarrow> ('q, 't + unit) comp) \<Rightarrow> ('q, 't option) comp \<Rightarrow> 't qop list \<Rightarrow> ('q, 't qres list) comp" where
  "run_queue push pop [] = ret []"
| "run_queue push pop (a # ops) = bindM (queue_op push pop a) (\<lambda>r.
     bindM (run_queue push pop ops) (\<lambda>rs. ret (r # rs)))"

section \<open>The queue interface\<close>

text \<open>The items that \<open>n\<close> pops hand out, and the queue they leave.\<close>

fun pop_n :: "('q, 't option) comp \<Rightarrow> nat \<Rightarrow> 'q \<Rightarrow> 't list \<times> 'q" where
  "pop_n pop 0 q = ([], q)"
| "pop_n pop (Suc n) q = (case pop q of
     (Ret (Some x), q') \<Rightarrow> (case pop_n pop n q' of (xs, q'') \<Rightarrow> (x # xs, q''))
   | _ \<Rightarrow> ([], q))"

text \<open>
  \<open>fifo_inv\<close> is the representation invariant, \<open>fifo_list\<close> the queued items, oldest first, and
  \<open>fifo_cap\<close> the capacity of a bounded queue. \<open>A\<close> holds the reasons for which \<open>push\<close> may abort
  the process: running out of memory, for a queue that allocates.
\<close>

locale fifo =
  fixes fifo_inv :: "'q \<Rightarrow> bool"
    and fifo_list :: "'q \<Rightarrow> 't list"
    and fifo_cap :: "'q \<Rightarrow> nat option"
    and fifo_len :: "'q \<Rightarrow> usize"
    and fifo_push :: "'t \<Rightarrow> ('q, 't + unit) comp"
    and fifo_pop :: "('q, 't option) comp"
    and A :: "abort_reason set"
  assumes push_full: "fifo_inv q \<Longrightarrow> fifo_cap q = Some (length (fifo_list q)) \<Longrightarrow> fifo_push x q = (Ret (Inl x), q)"
    and push_room: "fifo_inv q \<Longrightarrow> fifo_cap q \<noteq> Some (length (fifo_list q)) \<Longrightarrow>
      wp A (fifo_push x) (\<lambda>r q'. r = Inr () \<and> fifo_inv q' \<and> fifo_list q' = fifo_list q @ [x]
        \<and> fifo_cap q' = fifo_cap q) (\<lambda>_ _. False) q"
    and pop_empty: "fifo_inv q \<Longrightarrow> fifo_list q = [] \<Longrightarrow> fifo_pop q = (Ret None, q)"
    and pop_some: "fifo_inv q \<Longrightarrow> fifo_list q = x # xs \<Longrightarrow>
      \<exists>q'. fifo_pop q = (Ret (Some x), q') \<and> fifo_inv q' \<and> fifo_list q' = xs \<and> fifo_cap q' = fifo_cap q"
    and len: "fifo_inv q \<Longrightarrow> unat (fifo_len q) = length (fifo_list q)"
    and within_cap: "fifo_inv q \<Longrightarrow> fifo_cap q = Some c \<Longrightarrow> length (fifo_list q) \<le> c"
begin

lemma pop_cases:
  assumes "fifo_inv q"
  obtains (empty) "fifo_list q = []" and "fifo_pop q = (Ret None, q)"
  | (item) x xs q' where "fifo_list q = x # xs" and "fifo_pop q = (Ret (Some x), q')"
      and "fifo_inv q'" and "fifo_list q' = xs" and "fifo_cap q' = fifo_cap q"
proof (cases "fifo_list q")
  case Nil
  with empty pop_empty [OF assms] show thesis by blast
next
  case (Cons x xs)
  with item pop_some [OF assms Cons] show thesis by blast
qed

lemma pop_inv:
  assumes "fifo_inv q"
  shows "fifo_inv (snd (fifo_pop q))"
  by (rule pop_cases [OF assms]) (use assms in auto)

lemma push_inv:
  assumes "fifo_inv q" and "fifo_push x q = (Ret r, q')"
  shows "fifo_inv q' \<and> fifo_cap q' = fifo_cap q \<and>
    (if fifo_cap q = Some (length (fifo_list q)) then r = Inl x \<and> q' = q
     else r = Inr () \<and> fifo_list q' = fifo_list q @ [x])"
proof (cases "fifo_cap q = Some (length (fifo_list q))")
  case True
  with assms show ?thesis by (simp add: push_full)
next
  case False
  with assms(2) wp_RetD [OF push_room [OF assms(1) False] assms(2)] show ?thesis by simp
qed

lemma push_cases:
  assumes "fifo_inv q"
  obtains (full) "fifo_cap q = Some (length (fifo_list q))" and "fifo_push x q = (Ret (Inl x), q)"
  | (room) q' where "fifo_cap q \<noteq> Some (length (fifo_list q))"
      and "fifo_push x q = (Ret (Inr ()), q')" and "fifo_inv q'"
      and "fifo_list q' = fifo_list q @ [x]" and "fifo_cap q' = fifo_cap q"
  | (aborts) a q' where "fifo_push x q = (Abort a, q')" and "a \<in> A"
proof (cases "fifo_cap q = Some (length (fifo_list q))")
  case True
  with full push_full [OF assms] show thesis by blast
next
  case False
  obtain r q' where eq: "fifo_push x q = (r, q')" by fastforce
  with push_room [OF assms False, of x] show thesis
    by (cases r) (auto simp: wp_def intro: room [OF False] aborts)
qed

lemma pop_total:
  assumes "fifo_inv q"
  shows "\<exists>r q'. fifo_pop q = (Ret r, q')"
  using assms by (cases rule: pop_cases) auto

lemma pop_n_prefix:
  "fifo_inv q \<Longrightarrow> fst (pop_n fifo_pop n q) = take n (fifo_list q)
     \<and> fifo_inv (snd (pop_n fifo_pop n q)) \<and> fifo_list (snd (pop_n fifo_pop n q)) = drop n (fifo_list q)"
proof (induction n arbitrary: q)
  case (Suc n)
  from Suc.prems show ?case
  proof (cases rule: pop_cases)
    case empty
    with Suc.prems show ?thesis by simp
  next
    case (item x xs q')
    with Suc.IH [of q'] show ?thesis by (cases "pop_n fifo_pop n q'") simp
  qed
qed simp

text \<open>Every operation, and so every history, refines the abstract queue.\<close>

lemma op_refines:
  assumes "fifo_inv q"
  shows "wp A (queue_op fifo_push fifo_pop a) (\<lambda>r q'. (r, fifo_list q') = spec_op (fifo_cap q) a (fifo_list q)
    \<and> fifo_inv q' \<and> fifo_cap q' = fifo_cap q) (\<lambda>_ _. False) q"
proof (cases a)
  case (Push x)
  from assms show ?thesis by (cases rule: push_cases [where x = x]) (use Push assms in \<open>auto simp: wp_def comp_eval\<close>)
next
  case Pop
  from assms show ?thesis by (cases rule: pop_cases) (use Pop assms in \<open>auto simp: wp_def comp_eval\<close>)
qed

lemma run_refines:
  "fifo_inv q \<Longrightarrow> wp A (run_queue fifo_push fifo_pop ops)
    (\<lambda>rs q'. (rs, fifo_list q') = spec_queue (fifo_cap q) ops (fifo_list q) \<and> fifo_inv q' \<and> fifo_cap q' = fifo_cap q)
    (\<lambda>_ _. False) q"
proof (induction ops arbitrary: q)
  case Nil
  then show ?case by (simp add: wp_simps)
next
  case (Cons a ops)
  show ?case
    unfolding run_queue.simps wp_simps
  proof (rule wp_conseq [OF op_refines [OF Cons.prems]], goal_cases)
    case (1 r q')
    then have q': "fifo_inv q'" and cap: "fifo_cap q' = fifo_cap q"
      and r: "spec_op (fifo_cap q) a (fifo_list q) = (r, fifo_list q')" by (auto dest: sym)
    show ?case
      by (rule wp_conseq [OF Cons.IH [OF q']]) (auto simp: cap r split: prod.splits)
  qed simp
qed

end

end
