(* ===== verification/Ring.thy ===== *)
theory Ring
  imports Fifo
begin

text \<open>
  The fixed-capacity ring buffer behind a bounded channel (\<open>src/queue/ring/mod.rs\<close>).

  A slot is \<open>Uninit\<close> or holds an item. \<open>assume_init_read\<close> moves the item out, so the slot is
  \<open>Uninit\<close> afterwards; reading an \<open>Uninit\<close> slot is the fault \<open>UninitRead\<close>. Indices and counters
  are 64-bit words and their arithmetic wraps, as in a release build; the lemmas show that under
  the invariant nothing wraps, so a debug build does not panic either.
\<close>

section \<open>State and operations\<close>

record 't ring =
  slots :: "'t slot list"
  r_head :: usize
  r_len :: usize

definition ring_with_capacity :: "usize \<Rightarrow> 't ring" where
  "ring_with_capacity n = \<lparr>slots = replicate (unat n) Uninit, r_head = 0, r_len = 0\<rparr>"

definition ring_cap :: "'t ring \<Rightarrow> usize" where
  "ring_cap r = of_nat (length (slots r))"

definition ring_len :: "'t ring \<Rightarrow> usize" where
  "ring_len r = r_len r"

definition ring_is_empty :: "'t ring \<Rightarrow> bool" where
  "ring_is_empty r \<longleftrightarrow> r_len r = 0"

definition ring_is_full :: "'t ring \<Rightarrow> bool" where
  "ring_is_full r \<longleftrightarrow> r_len r = ring_cap r"

text \<open>The remainder operator of \<open>usize\<close> panics on a zero divisor, indexing out of bounds.\<close>

definition usize_rem :: "usize \<Rightarrow> usize \<Rightarrow> ('s, usize) comp" where
  "usize_rem a b = (if b = 0
     then panic (PanicMsg ''attempt to calculate the remainder with a divisor of zero'')
     else ret (a mod b))"

definition slot_write :: "usize \<Rightarrow> 't \<Rightarrow> ('t ring, unit) comp" where
  "slot_write i x = (\<lambda>r. if unat i < length (slots r)
     then (Ret (), r\<lparr>slots := (slots r)[unat i := Init x]\<rparr>)
     else (Panic (PanicMsg ''index out of bounds''), r))"

definition slot_assume_init_read :: "usize \<Rightarrow> ('t ring, 't) comp" where
  "slot_assume_init_read i = (\<lambda>r. if unat i < length (slots r)
     then (case slots r ! unat i of
         Init x \<Rightarrow> (Ret x, r\<lparr>slots := (slots r)[unat i := Uninit]\<rparr>)
       | Uninit \<Rightarrow> (Fault UninitRead, r))
     else (Panic (PanicMsg ''index out of bounds''), r))"

definition ring_push :: "'t \<Rightarrow> ('t ring, 't + unit) comp" where
  "ring_push x = bindM (gets ring_is_full) (\<lambda>full.
     if full then ret (Inl x)
     else bindM (gets (\<lambda>r. r_head r + r_len r)) (\<lambda>end_pos.
          bindM (gets ring_cap) (\<lambda>n.
          bindM (usize_rem end_pos n) (\<lambda>tail.
          thenM (slot_write tail x)
         (thenM (modify (\<lambda>r. r\<lparr>r_len := r_len r + 1\<rparr>))
                (ret (Inr ())))))))"

definition ring_pop :: "('t ring, 't option) comp" where
  "ring_pop = bindM (gets r_len) (\<lambda>n.
     if n = 0 then ret None
     else bindM (gets r_head) (\<lambda>h.
          bindM (slot_assume_init_read h) (\<lambda>item.
          bindM (gets ring_cap) (\<lambda>c.
          bindM (usize_rem (h + 1) c) (\<lambda>h'.
          thenM (modify (\<lambda>r. r\<lparr>r_head := h', r_len := r_len r - 1\<rparr>))
                (ret (Some item)))))))"

text \<open>
  \<open>clear\<close>, which \<open>Drop for Ring\<close> calls: pop until empty, running the destructor \<open>d\<close> of each item.
  The ring is borrowed mutably meanwhile, so the destructors act on the rest of the state only.
\<close>

lemma ring_pop_shrinks:
  "ring_pop r = (Ret (Some x), r') \<Longrightarrow> unat (r_len r') < unat (r_len r)"
  by (auto simp: ring_pop_def comp_eval slot_assume_init_read_def usize_rem_def word_nat
      unat_gt_0 split: if_splits slot.splits)

function ring_clear :: "('t \<Rightarrow> ('s, unit) comp) \<Rightarrow> ('s \<times> 't ring, unit) comp" where
  "ring_clear d (s, r) = (case ring_pop r of
     (Ret None, r') \<Rightarrow> (Ret (), (s, r'))
   | (Ret (Some x), r') \<Rightarrow> (case d x s of
         (Ret _, s') \<Rightarrow> ring_clear d (s', r')
       | (Panic p, s') \<Rightarrow> (Panic p, (s', r'))
       | (Abort a, s') \<Rightarrow> (Abort a, (s', r'))
       | (Fault e, s') \<Rightarrow> (Fault e, (s', r')))
   | (Panic p, r') \<Rightarrow> (Panic p, (s, r'))
   | (Abort a, r') \<Rightarrow> (Abort a, (s, r'))
   | (Fault e, r') \<Rightarrow> (Fault e, (s, r')))"
  by pat_completeness auto
termination
  by (relation "measure (\<lambda>(d, s, r). unat (r_len r))") (auto dest: ring_pop_shrinks [OF sym])

declare ring_clear.simps [simp del]

section \<open>Invariant and abstraction\<close>

text \<open>The \<open>k\<close>-th queued item lives in slot \<open>(head + k) mod cap\<close>.\<close>

definition ring_pos :: "'t ring \<Rightarrow> nat \<Rightarrow> nat" where
  "ring_pos r k = (unat (r_head r) + k) mod length (slots r)"

definition ring_list :: "'t ring \<Rightarrow> 't list" where
  "ring_list r = map (\<lambda>k. the_init (slots r ! ring_pos r k)) [0..<unat (r_len r)]"

text \<open>
  The bound \<open>2 ^ 63\<close> on the number of slots is the language's limit of \<open>isize::MAX\<close> bytes for
  one allocation; it keeps \<open>head + len\<close> from wrapping.
\<close>

definition ring_inv :: "'t ring \<Rightarrow> bool" where
  "ring_inv r \<longleftrightarrow> 0 < length (slots r) \<and> length (slots r) \<le> 2 ^ 63
     \<and> unat (r_head r) < length (slots r) \<and> unat (r_len r) \<le> length (slots r)
     \<and> (\<forall>i < length (slots r). slots r ! i \<noteq> Uninit \<longleftrightarrow> (\<exists>k < unat (r_len r). i = ring_pos r k))"

lemma mod_add_inj:
  assumes "(h + a) mod n = (h + b) mod n" and "a < n" and "b < (n :: nat)"
  shows "a = b"
proof -
  have "a = b" if "a \<le> b" "(h + a) mod n = (h + b) mod n" "b < n" for a b
  proof -
    have "n dvd (h + b) - (h + a)"
      using that by (metis mod_eq_dvd_iff_nat nat_add_left_cancel_le)
    then have "n dvd b - a" by simp
    with that show ?thesis
      by (metis dvd_imp_le less_imp_diff_less linorder_not_le diff_is_0_eq gr0I le_antisym)
  qed
  from this [of a b] this [of b a] assms show ?thesis
    by (cases "a \<le> b") auto
qed

lemma ring_pos_inj:
  "ring_inv r \<Longrightarrow> ring_pos r j = ring_pos r k \<Longrightarrow> j < length (slots r) \<Longrightarrow> k < length (slots r) \<Longrightarrow> j = k"
  unfolding ring_pos_def by (erule mod_add_inj)

lemma ring_pos_less: "ring_inv r \<Longrightarrow> ring_pos r k < length (slots r)"
  by (simp add: ring_pos_def ring_inv_def)

lemma unat_ring_cap: "ring_inv r \<Longrightarrow> unat (ring_cap r) = length (slots r)"
  by (simp add: ring_inv_def ring_cap_def unsigned_of_nat take_bit_nat_eq_self)

lemma ring_is_full_iff: "ring_inv r \<Longrightarrow> ring_is_full r \<longleftrightarrow> unat (r_len r) = length (slots r)"
  by (simp add: ring_is_full_def word_eq_unat unat_ring_cap)

lemma ring_inv_init: "ring_inv r \<Longrightarrow> k < unat (r_len r) \<Longrightarrow> slots r ! ring_pos r k \<noteq> Uninit"
  using ring_pos_less [of r k] unfolding ring_inv_def by blast

lemma length_ring_list [simp]: "length (ring_list r) = unat (r_len r)"
  by (simp add: ring_list_def)

text \<open>No wrap-around: the sums the code computes are the sums of the natural numbers.\<close>

lemma ring_tail_nowrap:
  assumes "ring_inv r"
  shows "unat ((r_head r + r_len r) mod ring_cap r) = ring_pos r (unat (r_len r))"
proof -
  have "unat (r_head r) + unat (r_len r) < 2 ^ 64"
    using assms by (simp add: ring_inv_def)
  then show ?thesis
    by (simp add: unat_mod unat_add_nowrap unat_ring_cap [OF assms] ring_pos_def)
qed

lemma ring_next_nowrap:
  assumes "ring_inv r"
  shows "unat ((r_head r + 1) mod ring_cap r) = Suc (unat (r_head r)) mod length (slots r)"
proof -
  have "Suc (unat (r_head r)) < 2 ^ 64"
    using assms by (simp add: ring_inv_def)
  then show ?thesis
    by (simp add: unat_mod unat_suc_nowrap unat_ring_cap [OF assms])
qed

section \<open>The operations on well-formed rings\<close>

lemma ring_with_capacity_inv:
  assumes "0 < unat n" and "unat n \<le> 2 ^ 63"
  shows "ring_inv (ring_with_capacity n)" and "ring_list (ring_with_capacity n) = []"
    and "length (slots (ring_with_capacity n)) = unat n"
  using assms by (simp_all add: ring_with_capacity_def ring_inv_def ring_list_def)

lemma ring_push_full:
  "ring_inv r \<Longrightarrow> unat (r_len r) = length (slots r) \<Longrightarrow> ring_push x r = (Ret (Inl x), r)"
  by (simp add: ring_push_def comp_eval ring_is_full_iff)

lemma ring_cap_nonzero: "ring_inv r \<Longrightarrow> ring_cap r \<noteq> 0"
  using unat_ring_cap [of r] by (auto simp: ring_inv_def)

lemma ring_push_room:
  assumes r: "ring_inv r" and room: "unat (r_len r) \<noteq> length (slots r)"
  shows "ring_push x r = (Ret (Inr ()), r\<lparr>slots := (slots r)[ring_pos r (unat (r_len r)) := Init x],
    r_len := r_len r + 1\<rparr>)"
  using assms ring_pos_less [OF r]
  by (simp add: ring_push_def comp_eval ring_is_full_iff usize_rem_def slot_write_def
      ring_tail_nowrap ring_cap_nonzero)

lemma ring_push_room_inv:
  assumes r: "ring_inv r" and room: "unat (r_len r) \<noteq> length (slots r)"
    and r': "r' = r\<lparr>slots := (slots r)[ring_pos r (unat (r_len r)) := Init x], r_len := r_len r + 1\<rparr>"
  shows "ring_inv r'" and "ring_list r' = ring_list r @ [x]" and "length (slots r') = length (slots r)"
proof -
  let ?n = "unat (r_len r)"
  have less: "?n < length (slots r)" and "length (slots r) \<le> 2 ^ 63"
    using r room by (auto simp: ring_inv_def)
  then have len': "unat (r_len r') = Suc ?n"
    by (simp add: r' unat_suc_nowrap)
  have len_slots: "length (slots r') = length (slots r)" and pos: "ring_pos r' k = ring_pos r k" for k
    by (simp_all add: r' ring_pos_def)
  have other: "slots r' ! ring_pos r k = slots r ! ring_pos r k" if "k < ?n" for k
  proof -
    have "ring_pos r k \<noteq> ring_pos r ?n"
      using that less ring_pos_inj [OF r, of k ?n] by auto
    then show ?thesis by (simp add: r')
  qed
  have last: "slots r' ! ring_pos r ?n = Init x"
    using ring_pos_less [OF r] by (simp add: r')
  have "slots r' ! i \<noteq> Uninit \<longleftrightarrow> (\<exists>k < Suc ?n. i = ring_pos r k)" if i: "i < length (slots r)" for i
  proof (cases "i = ring_pos r ?n")
    case True
    with last show ?thesis by auto
  next
    case False
    then have "slots r' ! i = slots r ! i" by (simp add: r')
    with r i False show ?thesis by (auto simp: ring_inv_def less_Suc_eq)
  qed
  with r less len' show "ring_inv r'"
    unfolding ring_inv_def len_slots pos by (auto simp: r')
  show "ring_list r' = ring_list r @ [x]"
    using last by (simp add: ring_list_def len' pos other)
  show "length (slots r') = length (slots r)" by (fact len_slots)
qed

lemma ring_pop_empty: "r_len r = 0 \<Longrightarrow> ring_pop r = (Ret None, r)"
  by (simp add: ring_pop_def comp_eval)

lemma ring_pop_item:
  assumes r: "ring_inv r" and ne: "r_len r \<noteq> 0"
  shows "ring_pop r = (Ret (Some (hd (ring_list r))),
    r\<lparr>slots := (slots r)[unat (r_head r) := Uninit], r_head := (r_head r + 1) mod ring_cap r,
      r_len := r_len r - 1\<rparr>)"
proof -
  have pos: "0 < unat (r_len r)" using ne by (simp add: unat_gt_0)
  have p0: "ring_pos r 0 = unat (r_head r)" using r by (simp add: ring_pos_def ring_inv_def)
  obtain x where x: "slots r ! unat (r_head r) = Init x"
    using ring_inv_init [OF r pos] p0 by (cases "slots r ! unat (r_head r)") auto
  have "hd (ring_list r) = x"
    using pos x p0 by (simp add: ring_list_def hd_map upt_rec)
  moreover have "unat (r_head r) < length (slots r)" using r by (simp add: ring_inv_def)
  moreover have "ring_cap (r\<lparr>slots := xs\<rparr>) = ring_cap r" if "length xs = length (slots r)" for xs
    using that by (simp add: ring_cap_def)
  ultimately show ?thesis
    using ne x ring_cap_nonzero [OF r]
    by (simp add: ring_pop_def comp_eval slot_assume_init_read_def usize_rem_def)
qed

lemma ring_pop_item_inv:
  assumes r: "ring_inv r" and ne: "r_len r \<noteq> 0"
    and r': "r' = r\<lparr>slots := (slots r)[unat (r_head r) := Uninit],
      r_head := (r_head r + 1) mod ring_cap r, r_len := r_len r - 1\<rparr>"
  shows "ring_inv r'" and "ring_list r' = tl (ring_list r)" and "length (slots r') = length (slots r)"
proof -
  obtain n where n: "unat (r_len r) = Suc n" and len': "unat (r_len r') = n"
    using ne by (cases "unat (r_len r)") (auto simp: r' unat_pred)
  have len_slots: "length (slots r') = length (slots r)" by (simp add: r')
  have p0: "ring_pos r 0 = unat (r_head r)" using r by (simp add: ring_pos_def ring_inv_def)
  have pos: "ring_pos r' k = ring_pos r (Suc k)" for k
    using ring_next_nowrap [OF r] by (simp add: r' ring_pos_def mod_add_left_eq)
  have "n < length (slots r)" using r n by (simp add: ring_inv_def)
  then have ne0: "ring_pos r (Suc k) \<noteq> ring_pos r 0" if "k < n" for k
    using that ring_pos_inj [OF r, of "Suc k" 0] r by (auto simp: ring_inv_def)
  have other: "slots r' ! ring_pos r (Suc k) = slots r ! ring_pos r (Suc k)" if "k < n" for k
    using ne0 [OF that] unfolding p0 by (simp add: r')
  have "slots r' ! i \<noteq> Uninit \<longleftrightarrow> (\<exists>k < n. i = ring_pos r (Suc k))" if i: "i < length (slots r)" for i
  proof (cases "i = ring_pos r 0")
    case True
    then have "slots r' ! i = Uninit" using i p0 by (simp add: r')
    with True ne0 show ?thesis by metis
  next
    case False
    then have "slots r' ! i = slots r ! i" using p0 by (simp add: r')
    moreover have "(\<exists>k < Suc n. i = ring_pos r k) \<longleftrightarrow> (\<exists>k < n. i = ring_pos r (Suc k))"
      using False by (auto simp: less_Suc_eq_0_disj)
    ultimately show ?thesis using r i n by (simp add: ring_inv_def)
  qed
  moreover have "unat (r_head r') < length (slots r)"
    using r ring_next_nowrap [OF r] by (simp add: r' ring_inv_def)
  ultimately show "ring_inv r'"
    using r n unfolding ring_inv_def len_slots pos len' by simp
  have "[0..<Suc n] = 0 # map Suc [0..<n]"
    by (simp add: map_Suc_upt upt_conv_Cons del: upt_Suc)
  then show "ring_list r' = tl (ring_list r)"
    unfolding ring_list_def len' n by (simp add: pos other)
  show "length (slots r') = length (slots r)" by (fact len_slots)
qed

section \<open>The ring is a bounded queue\<close>

definition ring_capacity :: "'t ring \<Rightarrow> nat option" where
  "ring_capacity r = Some (length (slots r))"

interpretation ring: fifo ring_inv ring_list ring_capacity ring_len ring_push ring_pop "{}"
proof
  fix r :: "'t ring" and x :: 't and xs c
  assume r: "ring_inv r"
  show "ring_push x r = (Ret (Inl x), r)" if "ring_capacity r = Some (length (ring_list r))"
    using that r by (simp add: ring_capacity_def ring_push_full)
  show "wp {} (ring_push x) (\<lambda>v q. v = Inr () \<and> ring_inv q \<and> ring_list q = ring_list r @ [x]
      \<and> ring_capacity q = ring_capacity r) (\<lambda>_ _. False) r"
    if "ring_capacity r \<noteq> Some (length (ring_list r))"
    using that r ring_push_room_inv [OF r _ refl]
    by (auto simp: wp_def ring_push_room ring_capacity_def)
  show "ring_pop r = (Ret None, r)" if "ring_list r = []"
    using that by (simp add: ring_pop_empty ring_list_def)
  show "\<exists>q. ring_pop r = (Ret (Some x), q) \<and> ring_inv q \<and> ring_list q = xs
      \<and> ring_capacity q = ring_capacity r" if "ring_list r = x # xs"
  proof -
    have "r_len r \<noteq> 0" using that by (auto simp: ring_list_def)
    with that ring_pop_item [OF r] ring_pop_item_inv [OF r _ refl] show ?thesis
      by (simp add: ring_capacity_def)
  qed
  show "unat (ring_len r) = length (ring_list r)" by (simp add: ring_len_def)
  show "length (ring_list r) \<le> c" if "ring_capacity r = Some c"
    using that r by (auto simp: ring_capacity_def ring_inv_def)
qed

lemma ring_clear_drops:
  "ring_inv r \<Longrightarrow> case ring_clear d (s, r) of (v, (s', r')) \<Rightarrow>
     (v, s') = for_each d (ring_list r) s \<and> ring_inv r' \<and> (v = Ret () \<longrightarrow> ring_list r' = [])"
proof (induction "unat (r_len r)" arbitrary: s r rule: less_induct)
  case less
  from less.prems show ?case
  proof (cases rule: ring.pop_cases)
    case empty
    with less.prems show ?thesis by (simp add: ring_clear.simps comp_eval)
  next
    case (item x xs r')
    obtain v s' where v: "d x s = (v, s')" by fastforce
    with item less.hyps [OF ring_pop_shrinks] show ?thesis
      by (cases v) (auto simp: ring_clear.simps [of d s r] comp_eval split: prod.splits)
  qed
qed

end
