(* ===== verification/Block_List.thy ===== *)
theory Block_List
  imports Fifo "HOL-Library.AList"
begin

text \<open>
  The segmented queue behind an unbounded channel (\<open>src/queue/list/mod.rs\<close>): a singly linked
  list of blocks of \<open>n\<close> slots each.

  Blocks live in an explicit heap, an association list from addresses to blocks. Dereferencing
  an address that is not in the heap is the fault \<open>DanglingPtr\<close>, reading an uninitialised slot
  the fault \<open>UninitRead\<close>. The allocator is a parameter kept in the heap: a function of the number
  of allocations so far and of the live addresses that returns a fresh address, or \<open>None\<close> when
  memory is exhausted, upon which \<open>Box\<close> aborts the process.
\<close>

section \<open>State and operations\<close>

type_synonym addr = nat

type_synonym allocator = "nat \<Rightarrow> addr list \<Rightarrow> addr option"

record 't block =
  bk_next :: "addr option"
  bk_values :: "'t slot list"
  bk_begin :: usize
  bk_end :: usize

record 't heap =
  cells :: "(addr \<times> 't block) list"
  allocs :: nat
  alloc_fn :: allocator

record 't block_list =
  bl_head :: addr
  bl_tail :: addr
  bl_len :: usize
  bl_heap :: "'t heap"

text \<open>\<open>Block::alloc\<close>: only the header is written, the slots stay uninitialised.\<close>

definition fresh_block :: "usize \<Rightarrow> 't block" where
  "fresh_block n = \<lparr>bk_next = None, bk_values = replicate (unat n) Uninit, bk_begin = 0, bk_end = 0\<rparr>"

definition block_alloc :: "usize \<Rightarrow> ('t heap, addr) comp" where
  "block_alloc n = (\<lambda>h. case alloc_fn h (allocs h) (map fst (cells h)) of
     None \<Rightarrow> (Abort OutOfMemory, h)
   | Some a \<Rightarrow> (Ret a, h\<lparr>cells := (a, fresh_block n) # cells h, allocs := Suc (allocs h)\<rparr>))"

definition block_deref :: "addr \<Rightarrow> ('t heap, 't block) comp" where
  "block_deref p = (\<lambda>h. case map_of (cells h) p of
     None \<Rightarrow> (Fault DanglingPtr, h)
   | Some b \<Rightarrow> (Ret b, h))"

definition block_modify :: "addr \<Rightarrow> ('t block \<Rightarrow> 't block) \<Rightarrow> ('t heap, unit) comp" where
  "block_modify p f = bindM (block_deref p) (\<lambda>b. modify (\<lambda>h. h\<lparr>cells := AList.update p (f b) (cells h)\<rparr>))"

definition block_free :: "addr \<Rightarrow> ('t heap, unit) comp" where
  "block_free p = bindM (block_deref p) (\<lambda>b. modify (\<lambda>h. h\<lparr>cells := AList.delete p (cells h)\<rparr>))"

definition block_write :: "addr \<Rightarrow> usize \<Rightarrow> 't \<Rightarrow> ('t heap, unit) comp" where
  "block_write p i x = bindM (block_deref p) (\<lambda>b.
     if unat i < length (bk_values b)
     then block_modify p (\<lambda>b. b\<lparr>bk_values := (bk_values b)[unat i := Init x]\<rparr>)
     else panic (PanicMsg ''index out of bounds''))"

definition block_read :: "addr \<Rightarrow> usize \<Rightarrow> ('t heap, 't) comp" where
  "block_read p i = bindM (block_deref p) (\<lambda>b.
     if unat i < length (bk_values b)
     then (case bk_values b ! unat i of
         Init x \<Rightarrow> thenM (block_modify p (\<lambda>b. b\<lparr>bk_values := (bk_values b)[unat i := Uninit]\<rparr>)) (ret x)
       | Uninit \<Rightarrow> fault UninitRead)
     else panic (PanicMsg ''index out of bounds''))"

text \<open>\<open>Drop for Block\<close>: the destructor \<open>d\<close> of every unread item, in order.\<close>

definition block_drop :: "('t \<Rightarrow> ('s, unit) comp) \<Rightarrow> 't block \<Rightarrow> ('s, unit) comp" where
  "block_drop d b = for_each (\<lambda>i.
     if i < length (bk_values b)
     then (case bk_values b ! i of Init x \<Rightarrow> d x | Uninit \<Rightarrow> fault UninitRead)
     else panic (PanicMsg ''index out of bounds'')) [unat (bk_begin b)..<unat (bk_end b)]"

definition empty_heap :: "allocator \<Rightarrow> 't heap" where
  "empty_heap f = \<lparr>cells = [], allocs = 0, alloc_fn = f\<rparr>"

definition block_list_new :: "usize \<Rightarrow> allocator \<Rightarrow> 't block_list outcome" where
  "block_list_new n f = (case block_alloc n (empty_heap f) of
     (Ret a, h) \<Rightarrow> Ret \<lparr>bl_head = a, bl_tail = a, bl_len = 0, bl_heap = h\<rparr>
   | (Panic p, h) \<Rightarrow> Panic p
   | (Abort r, h) \<Rightarrow> Abort r
   | (Fault e, h) \<Rightarrow> Fault e)"

definition block_list_len :: "'t block_list \<Rightarrow> usize" where
  "block_list_len l = bl_len l"

definition block_list_is_empty :: "'t block_list \<Rightarrow> bool" where
  "block_list_is_empty l \<longleftrightarrow> bl_len l = 0"

definition on_heap :: "('t heap, 'a) comp \<Rightarrow> ('t block_list, 'a) comp" where
  "on_heap m = zoom bl_heap bl_heap_update m"

definition block_list_push :: "usize \<Rightarrow> 't \<Rightarrow> ('t block_list, unit) comp" where
  "block_list_push n x = bindM (gets bl_tail) (\<lambda>tail.
     bindM (on_heap (block_deref tail)) (\<lambda>b.
     thenM
      (if bk_end b < n
       then thenM (on_heap (block_write tail (bk_end b) x))
                  (on_heap (block_modify tail (\<lambda>c. c\<lparr>bk_end := bk_end b + 1\<rparr>)))
       else bindM (on_heap (block_alloc n)) (\<lambda>new.
            thenM (on_heap (block_write new 0 x))
           (thenM (on_heap (block_modify new (\<lambda>c. c\<lparr>bk_end := 1\<rparr>)))
           (thenM (on_heap (block_modify tail (\<lambda>c. c\<lparr>bk_next := Some new\<rparr>)))
                  (modify (\<lambda>l. l\<lparr>bl_tail := new\<rparr>))))))
      (modify (\<lambda>l. l\<lparr>bl_len := bl_len l + 1\<rparr>))))"

text \<open>
  The loop of \<open>pop\<close>. A block is freed only when \<open>begin < end\<close> fails, so its own destructor has no
  item to drop. Each turn of the loop frees a block, hence it ends.
\<close>

function block_list_pop :: "('t block_list, 't option) comp" where
  "block_list_pop l = (case map_of (cells (bl_heap l)) (bl_head l) of
     None \<Rightarrow> (Fault DanglingPtr, l)
   | Some b \<Rightarrow>
       if bk_begin b < bk_end b
       then bindM (on_heap (block_read (bl_head l) (bk_begin b))) (\<lambda>item.
            thenM (on_heap (block_modify (bl_head l) (\<lambda>c. c\<lparr>bk_begin := bk_begin b + 1\<rparr>)))
           (thenM (modify (\<lambda>l. l\<lparr>bl_len := bl_len l - 1\<rparr>))
                  (ret (Some item)))) l
       else if bl_head l = bl_tail l then (Ret None, l)
       else (case bk_next b of
           None \<Rightarrow> (Panic (PanicMsg ''a non-tail block always has a next''), l)
         | Some nxt \<Rightarrow> block_list_pop (l\<lparr>bl_head := nxt,
             bl_heap := (bl_heap l)\<lparr>cells := AList.delete (bl_head l) (cells (bl_heap l))\<rparr>\<rparr>)))"
  by pat_completeness auto

lemma length_delete_less: "map_of xs k = Some v \<Longrightarrow> length (AList.delete k xs) < length xs"
  by (induction xs) (auto simp: AList.delete_eq less_Suc_eq_le)

termination block_list_pop
  by (relation "measure (\<lambda>l. length (cells (bl_heap l)))") (auto dest: length_delete_less)

declare block_list_pop.simps [simp del]

text \<open>\<open>Drop for BlockList\<close>: walk the chain, dropping each block's items and freeing it.\<close>

function block_list_drop_from :: "('t \<Rightarrow> ('s, unit) comp) \<Rightarrow> addr option \<Rightarrow> 's \<times> 't heap \<Rightarrow> unit outcome \<times> ('s \<times> 't heap)" where
  "block_list_drop_from d None (s, h) = (Ret (), (s, h))"
| "block_list_drop_from d (Some p) (s, h) = (case map_of (cells h) p of
     None \<Rightarrow> (Fault DanglingPtr, (s, h))
   | Some b \<Rightarrow> (let h' = h\<lparr>cells := AList.delete p (cells h)\<rparr> in
       case block_drop d b s of
         (Ret _, s') \<Rightarrow> block_list_drop_from d (bk_next b) (s', h')
       | (Panic q, s') \<Rightarrow> (Panic q, (s', h'))
       | (Abort a, s') \<Rightarrow> (Abort a, (s', h'))
       | (Fault e, s') \<Rightarrow> (Fault e, (s', h'))))"
  by pat_completeness auto
termination
  by (relation "measure (\<lambda>(d, p, (s, h)). length (cells h))") (auto dest: length_delete_less)

definition block_list_drop :: "('t \<Rightarrow> ('s, unit) comp) \<Rightarrow> 't block_list \<Rightarrow> 's \<Rightarrow> unit outcome \<times> ('s \<times> 't heap)" where
  "block_list_drop d l s = block_list_drop_from d (Some (bl_head l)) (s, bl_heap l)"

section \<open>Invariant and abstraction\<close>

text \<open>The blocks reached from an address by following \<open>next\<close>, at most \<open>k\<close> of them.\<close>

fun walk :: "nat \<Rightarrow> (addr \<rightharpoonup> 't block) \<Rightarrow> addr \<Rightarrow> (addr \<times> 't block) list" where
  "walk 0 m p = []"
| "walk (Suc k) m p = (case m p of
     None \<Rightarrow> []
   | Some b \<Rightarrow> (p, b) # (case bk_next b of None \<Rightarrow> [] | Some q \<Rightarrow> walk k m q))"

definition chain :: "'t block_list \<Rightarrow> (addr \<times> 't block) list" where
  "chain l = walk (length (cells (bl_heap l))) (map_of (cells (bl_heap l))) (bl_head l)"

definition block_items :: "'t block \<Rightarrow> 't list" where
  "block_items b = map the_init (drop (unat (bk_begin b)) (take (unat (bk_end b)) (bk_values b)))"

definition chain_items :: "(addr \<times> 't block) list \<Rightarrow> 't list" where
  "chain_items bs = concat (map (\<lambda>(p, b). block_items b) bs)"

definition block_list_list :: "'t block_list \<Rightarrow> 't list" where
  "block_list_list l = chain_items (chain l)"

definition block_wf :: "usize \<Rightarrow> 't block \<Rightarrow> bool" where
  "block_wf n b \<longleftrightarrow> length (bk_values b) = unat n
     \<and> unat (bk_begin b) \<le> unat (bk_end b) \<and> unat (bk_end b) \<le> unat n
     \<and> (\<forall>i < unat n. bk_values b ! i \<noteq> Uninit \<longleftrightarrow> unat (bk_begin b) \<le> i \<and> i < unat (bk_end b))"

fun chained :: "(addr \<times> 't block) list \<Rightarrow> bool" where
  "chained [] = False"
| "chained [(p, b)] = (bk_next b = None)"
| "chained ((p, b) # (q, c) # bs) = (bk_next b = Some q \<and> chained ((q, c) # bs))"

text \<open>All blocks but the last are filled to the end; all but the first are unread and not empty.\<close>

definition chain_wf :: "usize \<Rightarrow> (addr \<times> 't block) list \<Rightarrow> bool" where
  "chain_wf n bs \<longleftrightarrow> chained bs \<and> distinct (map fst bs) \<and> (\<forall>(p, b) \<in> set bs. block_wf n b)
     \<and> (\<forall>(p, b) \<in> set (butlast bs). bk_end b = n)
     \<and> (\<forall>(p, b) \<in> set (tl bs). bk_begin b = 0 \<and> bk_end b \<noteq> 0)"

text \<open>
  What the model relies on from the allocator: a block it returns is not live already, and a
  64-bit address space holds fewer than \<open>2 ^ 57\<close> blocks (each has three header words).
\<close>

definition allocator_ok :: "allocator \<Rightarrow> bool" where
  "allocator_ok f \<longleftrightarrow> (\<forall>k live a. f k live = Some a \<longrightarrow> a \<notin> set live \<and> length live < 2 ^ 57)"

definition block_list_inv :: "usize \<Rightarrow> 't block_list \<Rightarrow> bool" where
  "block_list_inv n l \<longleftrightarrow> 0 < unat n \<and> unat n \<le> 64 \<and> allocator_ok (alloc_fn (bl_heap l))
     \<and> distinct (map fst (cells (bl_heap l))) \<and> length (cells (bl_heap l)) \<le> 2 ^ 57
     \<and> map_of (cells (bl_heap l)) = map_of (chain l) \<and> chain_wf n (chain l)
     \<and> fst (last (chain l)) = bl_tail l \<and> unat (bl_len l) = length (block_list_list l)"

section \<open>Blocks\<close>

lemma block_wf_push:
  assumes b: "block_wf n b" and less: "bk_end b < n"
    and b': "b' = b\<lparr>bk_values := (bk_values b)[unat (bk_end b) := Init x], bk_end := bk_end b + 1\<rparr>"
  shows "block_wf n b'" and "block_items b' = block_items b @ [x]" and "bk_end b' \<noteq> 0"
proof -
  have lt: "unat (bk_end b) < unat n" using less by (simp add: word_less_nat_alt)
  then have e: "unat (bk_end b') = Suc (unat (bk_end b))"
    by (simp add: b' unat_suc_less)
  from b lt show "block_wf n b'"
    unfolding block_wf_def e by (auto simp: b' nth_list_update less_Suc_eq)
  from e show "bk_end b' \<noteq> 0" by auto
  have "take (Suc (unat (bk_end b))) (bk_values b') = take (unat (bk_end b)) (bk_values b) @ [Init x]"
    using b lt by (simp add: b' block_wf_def take_Suc_conv_app_nth)
  then show "block_items b' = block_items b @ [x]"
    using b lt unfolding block_items_def e by (simp add: b' block_wf_def)
qed

lemma block_wf_fresh:
  assumes "0 < unat n"
    and b': "b' = (fresh_block n)\<lparr>bk_values := (bk_values (fresh_block n))[0 := Init x], bk_end := 1\<rparr>"
  shows "block_wf n b'" and "block_items b' = [x]" and "bk_begin b' = 0" and "bk_end b' \<noteq> 0"
    and "bk_next b' = None"
proof -
  have wf: "block_wf n (fresh_block n)" and items: "block_items (fresh_block n) = []"
    by (simp_all add: block_wf_def fresh_block_def block_items_def)
  have less: "bk_end (fresh_block n) < n"
    using assms(1) by (simp add: fresh_block_def word_less_nat_alt)
  have "b' = (fresh_block n)\<lparr>bk_values := (bk_values (fresh_block n))[unat (bk_end (fresh_block n)) := Init x],
      bk_end := bk_end (fresh_block n) + 1\<rparr>"
    by (simp add: b' fresh_block_def)
  from block_wf_push [OF wf less this] show "block_wf n b'" "block_items b' = [x]" "bk_end b' \<noteq> 0"
    by (simp_all add: items)
  show "bk_begin b' = 0" "bk_next b' = None" by (simp_all add: b' fresh_block_def)
qed

lemma block_wf_pop:
  assumes b: "block_wf n b" and less: "bk_begin b < bk_end b"
    and b': "b' = b\<lparr>bk_values := (bk_values b)[unat (bk_begin b) := Uninit], bk_begin := bk_begin b + 1\<rparr>"
  obtains x where "bk_values b ! unat (bk_begin b) = Init x" and "block_wf n b'"
    and "block_items b = x # block_items b'"
proof -
  have lt: "unat (bk_begin b) < unat (bk_end b)" using less by (simp add: word_less_nat_alt)
  have le: "unat (bk_end b) \<le> unat n" and len: "length (bk_values b) = unat n"
    using b by (simp_all add: block_wf_def)
  have "bk_values b ! unat (bk_begin b) \<noteq> Uninit" using b lt le by (simp add: block_wf_def)
  then obtain x where x: "bk_values b ! unat (bk_begin b) = Init x"
    by (cases "bk_values b ! unat (bk_begin b)") auto
  have e: "unat (bk_begin b') = Suc (unat (bk_begin b))"
    using unat_suc_less [OF lt] by (simp add: b')
  have "block_wf n b'"
    using b lt unfolding block_wf_def e by (auto simp: b' nth_list_update)
  moreover have "block_items b = x # block_items b'"
    using lt le len x unfolding block_items_def e
    by (simp add: b' Cons_nth_drop_Suc [symmetric] drop_map take_update_swap)
  ultimately show thesis using that x by blast
qed

lemma block_items_empty:
  assumes "block_wf n b" shows "block_items b = [] \<longleftrightarrow> \<not> bk_begin b < bk_end b"
  using assms by (auto simp: block_items_def block_wf_def word_less_nat_alt)

lemma length_block_items: "block_wf n b \<Longrightarrow> length (block_items b) \<le> unat n"
  by (auto simp: block_items_def block_wf_def)

section \<open>Chains\<close>

lemma walk_chained:
  "chained bs \<Longrightarrow> (\<forall>(p, b) \<in> set bs. m p = Some b) \<Longrightarrow> length bs \<le> k \<Longrightarrow> walk k m (fst (hd bs)) = bs"
proof (induction bs arbitrary: k rule: chained.induct)
  case (2 p b)
  then show ?case by (cases k) auto
next
  case (3 p b q c bs)
  then obtain k' where "k = Suc k'" by (cases k) auto
  with 3 show ?case by auto
qed simp

lemma length_map_of:
  assumes "distinct (map fst xs)" and "distinct (map fst ys)" and "map_of xs = map_of ys"
  shows "length xs = length ys"
proof -
  have "card (dom (map_of zs)) = length zs" if "distinct (map fst zs)" for zs :: "('k \<times> 'v) list"
    using distinct_card [OF that] by (simp add: dom_map_of_conv_image_fst)
  with assms show ?thesis by metis
qed

lemma block_list_invI:
  assumes "0 < unat n" and "unat n \<le> 64" and "allocator_ok (alloc_fn (bl_heap l))"
    and d: "distinct (map fst (cells (bl_heap l)))" and "length (cells (bl_heap l)) \<le> 2 ^ 57"
    and m: "map_of (cells (bl_heap l)) = map_of bs" and wf: "chain_wf n bs"
    and h: "fst (hd bs) = bl_head l" and "fst (last bs) = bl_tail l"
    and "unat (bl_len l) = length (chain_items bs)"
  shows "block_list_inv n l \<and> block_list_list l = chain_items bs"
proof -
  have db: "distinct (map fst bs)" using wf by (simp add: chain_wf_def)
  have "\<forall>(p, b) \<in> set bs. map_of (cells (bl_heap l)) p = Some b"
    using db by (auto simp: m)
  moreover have "length bs = length (cells (bl_heap l))"
    using d db m by (metis length_map_of)
  ultimately have "chain l = bs"
    using wf h walk_chained by (fastforce simp: chain_def chain_wf_def)
  with assms show ?thesis by (simp add: block_list_inv_def block_list_list_def)
qed

lemma length_chain_items:
  "(\<forall>(p, b) \<in> set bs. block_wf n b) \<Longrightarrow> length (chain_items bs) \<le> length bs * unat n"
proof (induction bs)
  case (Cons x bs)
  then show ?case
    using length_block_items by (force simp: chain_items_def split: prod.splits)
qed (simp add: chain_items_def)

lemma block_list_len_bound:
  assumes "block_list_inv n l"
  shows "unat (bl_len l) \<le> 2 ^ 63"
proof -
  have "length (chain l) = length (cells (bl_heap l))"
    by (rule length_map_of) (use assms in \<open>auto simp: block_list_inv_def chain_wf_def\<close>)
  then have "length (chain l) \<le> 2 ^ 57" and n: "unat n \<le> 64"
    using assms by (auto simp: block_list_inv_def)
  then have "length (chain l) * unat n \<le> 2 ^ 57 * 64" by (rule mult_le_mono)
  with length_chain_items [of "chain l" n] assms show ?thesis
    by (simp add: block_list_inv_def chain_wf_def block_list_list_def)
qed

lemma length_update_existing: "map_of xs k = Some v \<Longrightarrow> length (AList.update k w xs) = length xs"
  by (induction xs) (auto split: if_splits)

lemma map_of_snoc:
  assumes "a \<notin> fst ` set bs"
  shows "map_of (bs @ [(a, c)]) = (map_of bs)(a \<mapsto> c)"
proof
  fix x
  have "map_of bs a = None" using assms by (simp add: map_of_eq_None_iff)
  then show "map_of (bs @ [(a, c)]) x = ((map_of bs)(a \<mapsto> c)) x"
    by (simp add: map_add_def split: option.splits)
qed

lemma map_of_last_update:
  assumes "distinct (map fst (cs @ [(t, b)]))"
  shows "(map_of (cs @ [(t, b)]))(t \<mapsto> b') = map_of (cs @ [(t, b')])"
proof -
  have "t \<notin> fst ` set cs" using assms by simp
  then show ?thesis by (simp only: map_of_snoc fun_upd_upd not_False_eq_True)
qed

lemma chained_last_next: "chained (cs @ [(t, b)]) \<Longrightarrow> bk_next b = None"
  by (induction cs rule: chained.induct) auto

lemma chained_last_cong:
  "chained (cs @ [(t, b)]) \<Longrightarrow> bk_next b' = bk_next b \<Longrightarrow> chained (cs @ [(t, b')])"
  by (induction cs rule: chained.induct) auto

lemma chained_link:
  "chained (cs @ [(t, b)]) \<Longrightarrow> bk_next b' = Some a \<Longrightarrow> bk_next c = None \<Longrightarrow> chained (cs @ [(t, b'), (a, c)])"
  by (induction cs rule: chained.induct) auto

lemma chained_nonempty: "chained bs \<Longrightarrow> bs \<noteq> []"
  by auto

lemma chain_items_append [simp]: "chain_items (xs @ ys) = chain_items xs @ chain_items ys"
  by (simp add: chain_items_def)

lemma chain_items_Cons [simp]: "chain_items ((p, b) # bs) = block_items b @ chain_items bs"
  by (simp add: chain_items_def)

lemma chain_items_Nil [simp]: "chain_items [] = []"
  by (simp add: chain_items_def)

lemma chain_head: "chain l \<noteq> [] \<Longrightarrow> fst (hd (chain l)) = bl_head l"
  by (cases "length (cells (bl_heap l))") (auto simp: chain_def split: option.splits)

text \<open>What an invariant list looks like at its tail and at its head.\<close>

lemma block_list_tail:
  assumes "block_list_inv n l"
  obtains cs b where "chain l = cs @ [(bl_tail l, b)]"
    and "map_of (cells (bl_heap l)) (bl_tail l) = Some b" and "block_wf n b"
proof -
  have "chain l \<noteq> []" using assms by (auto simp: block_list_inv_def chain_wf_def)
  then obtain cs p b where bs: "chain l = cs @ [(p, b)]"
    by (metis append_butlast_last_id surj_pair)
  with assms have p: "p = bl_tail l" and d: "distinct (map fst (chain l))"
    by (auto simp: block_list_inv_def chain_wf_def)
  have "(p, b) \<in> set (chain l)" using bs by simp
  with assms p d have "map_of (cells (bl_heap l)) (bl_tail l) = Some b" and "block_wf n b"
    by (auto simp: block_list_inv_def chain_wf_def)
  with bs p that show thesis by blast
qed

lemma block_list_head:
  assumes "block_list_inv n l"
  obtains cs b where "chain l = (bl_head l, b) # cs"
    and "map_of (cells (bl_heap l)) (bl_head l) = Some b" and "block_wf n b"
proof -
  have ne: "chain l \<noteq> []" using assms by (auto simp: block_list_inv_def chain_wf_def)
  then obtain b cs where bs: "chain l = (bl_head l, b) # cs"
    using chain_head [OF ne] by (cases "chain l") auto
  then have "(bl_head l, b) \<in> set (chain l)" by simp
  with assms have "map_of (cells (bl_heap l)) (bl_head l) = Some b" and "block_wf n b"
    by (auto simp: block_list_inv_def chain_wf_def)
  with bs that show thesis by blast
qed

lemmas block_eval = comp_eval on_heap_def zoom_def block_deref_def block_modify_def block_write_def
  block_read_def block_free_def block_alloc_def

lemma chain_wf_last_update:
  assumes "chain_wf n (cs @ [(t, b)])" and "block_wf n b'" and "bk_next b' = bk_next b"
    and "bk_begin b' = bk_begin b" and "bk_end b' \<noteq> 0"
  shows "chain_wf n (cs @ [(t, b')])"
  using assms chained_last_cong [of cs t b b']
  by (cases cs) (auto simp: chain_wf_def butlast_append split: if_splits)

lemma chain_wf_link:
  assumes "chain_wf n (cs @ [(t, b)])" and "bk_end b = n" and "block_wf n c"
    and "bk_next c = None" and "bk_begin c = 0" and "bk_end c \<noteq> 0" and "a \<notin> fst ` set (cs @ [(t, b)])"
  shows "chain_wf n (cs @ [(t, b\<lparr>bk_next := Some a\<rparr>), (a, c)])"
proof -
  have "chained (cs @ [(t, b\<lparr>bk_next := Some a\<rparr>), (a, c)])"
    using assms chained_link [of cs t b "b\<lparr>bk_next := Some a\<rparr>" a c] by (simp add: chain_wf_def)
  moreover have "block_wf n (b\<lparr>bk_next := Some a\<rparr>)"
    using assms by (simp add: chain_wf_def block_wf_def)
  moreover have "block_items (b\<lparr>bk_next := Some a\<rparr>) = block_items b"
    by (simp add: block_items_def)
  ultimately show ?thesis
    using assms by (cases cs) (auto simp: chain_wf_def butlast_append)
qed

lemma allocator_okD:
  assumes "allocator_ok f" and "f k live = Some a"
  shows "a \<notin> set live" and "length live < 2 ^ 57"
  using assms by (auto simp: allocator_ok_def)

text \<open>The last block, as a push finds it.\<close>

lemma push_tail:
  assumes l: "block_list_inv n l"
  obtains cs b where "chain_wf n (cs @ [(bl_tail l, b)])" and "distinct (map fst (cs @ [(bl_tail l, b)]))"
    and "map_of (cells (bl_heap l)) = map_of (cs @ [(bl_tail l, b)])"
    and "map_of (cells (bl_heap l)) (bl_tail l) = Some b" and "block_wf n b"
    and "\<And>c. fst (hd (cs @ [(bl_tail l, c)])) = bl_head l" and "block_list_list l = chain_items cs @ block_items b"
    and "unat (bl_len l + 1) = Suc (unat (bl_len l))"
proof -
  obtain cs b where bs: "chain l = cs @ [(bl_tail l, b)]"
    and m: "map_of (cells (bl_heap l)) (bl_tail l) = Some b" and b: "block_wf n b"
    using block_list_tail [OF l] .
  have wf: "chain_wf n (cs @ [(bl_tail l, b)])" and mc: "map_of (cells (bl_heap l)) = map_of (cs @ [(bl_tail l, b)])"
    using l bs by (simp_all add: block_list_inv_def)
  have "fst (hd (cs @ [(bl_tail l, c)])) = bl_head l" for c
    using chain_head [of l] bs by (cases cs) auto
  moreover have "block_list_list l = chain_items cs @ block_items b"
    by (simp add: block_list_list_def bs)
  moreover have "unat (bl_len l + 1) = Suc (unat (bl_len l))"
    using block_list_len_bound [OF l] by (simp add: unat_suc_nowrap)
  ultimately show thesis using that wf mc m b by (simp add: chain_wf_def)
qed

text \<open>A push into the last block.\<close>

lemma push_with_room:
  assumes l: "block_list_inv n l" and m: "map_of (cells (bl_heap l)) (bl_tail l) = Some b" and room: "bk_end b < n"
  shows "wp A (block_list_push n x)
    (\<lambda>_ l'. block_list_inv n l' \<and> block_list_list l' = block_list_list l @ [x]) (\<lambda>_ _. False) l"
proof -
  note inv = l [unfolded block_list_inv_def]
  obtain cs where wf: "chain_wf n (cs @ [(bl_tail l, b)])" and d: "distinct (map fst (cs @ [(bl_tail l, b)]))"
    and mc: "map_of (cells (bl_heap l)) = map_of (cs @ [(bl_tail l, b)])" and b: "block_wf n b"
    and hd: "\<And>c. fst (hd (cs @ [(bl_tail l, c)])) = bl_head l" and items: "block_list_list l = chain_items cs @ block_items b"
    and len: "unat (bl_len l + 1) = Suc (unat (bl_len l))"
    using push_tail [OF l] m by (metis option.inject)
  let ?b = "b\<lparr>bk_values := (bk_values b)[unat (bk_end b) := Init x], bk_end := bk_end b + 1\<rparr>"
  let ?l = "l\<lparr>bl_heap := (bl_heap l)\<lparr>cells := AList.update (bl_tail l) ?b
    (AList.update (bl_tail l) (b\<lparr>bk_values := (bk_values b)[unat (bk_end b) := Init x]\<rparr>)
      (cells (bl_heap l)))\<rparr>, bl_len := bl_len l + 1\<rparr>"
  have run: "block_list_push n x l = (Ret (), ?l)"
    using room b m by (simp add: block_list_push_def block_eval block_wf_def word_less_nat_alt
        AList.update_conv')
  note b' = block_wf_push [OF b room refl, of x]
  have "block_list_inv n ?l \<and> block_list_list ?l = chain_items (cs @ [(bl_tail l, ?b)])"
  proof (rule block_list_invI)
    show "map_of (cells (bl_heap ?l)) = map_of (cs @ [(bl_tail l, ?b)])"
      using map_of_last_update [OF d] by (simp add: AList.update_conv' mc del: map_of_append)
    show "chain_wf n (cs @ [(bl_tail l, ?b)])"
      by (rule chain_wf_last_update [OF wf]) (use b' in auto)
    show "length (cells (bl_heap ?l)) \<le> 2 ^ 57"
      using inv m by (simp add: length_update_existing AList.update_conv')
    show "unat (bl_len ?l) = length (chain_items (cs @ [(bl_tail l, ?b)]))"
      using inv items b' len by simp
  qed (use inv hd in \<open>simp_all add: AList.distinct_update\<close>)
  then show ?thesis using run b' items by (simp add: wp_def)
qed

text \<open>A push that allocates a block.\<close>

lemma push_with_block:
  assumes l: "block_list_inv n l" and m: "map_of (cells (bl_heap l)) (bl_tail l) = Some b" and full: "bk_end b = n"
    and alloc: "alloc_fn (bl_heap l) (allocs (bl_heap l)) (map fst (cells (bl_heap l))) = Some a"
  shows "wp A (block_list_push n x)
    (\<lambda>_ l'. block_list_inv n l' \<and> block_list_list l' = block_list_list l @ [x]) (\<lambda>_ _. False) l"
proof -
  note inv = l [unfolded block_list_inv_def]
  obtain cs where wf: "chain_wf n (cs @ [(bl_tail l, b)])" and d: "distinct (map fst (cs @ [(bl_tail l, b)]))"
    and mc: "map_of (cells (bl_heap l)) = map_of (cs @ [(bl_tail l, b)])"
    and hd: "\<And>c. fst (hd (cs @ [(bl_tail l, c)])) = bl_head l" and items: "block_list_list l = chain_items cs @ block_items b"
    and len: "unat (bl_len l + 1) = Suc (unat (bl_len l))"
    using push_tail [OF l] m by (metis option.inject)
  have "allocator_ok (alloc_fn (bl_heap l))" using inv by blast
  note fresh = allocator_okD(1) [OF this alloc, simplified] and few = allocator_okD(2) [OF this alloc, simplified]
  have dom: "fst ` set (cells (bl_heap l)) = fst ` set (cs @ [(bl_tail l, b)])"
    using arg_cong [OF mc, of dom] by (simp add: dom_map_of_conv_image_fst)
  then have ne: "a \<noteq> bl_tail l" using fresh by auto
  let ?c = "(fresh_block n)\<lparr>bk_values := (bk_values (fresh_block n))[0 := Init x], bk_end := 1\<rparr>"
  let ?b = "b\<lparr>bk_next := Some a\<rparr>"
  let ?l = "l\<lparr>bl_tail := a, bl_len := bl_len l + 1, bl_heap := (bl_heap l)\<lparr>
    cells := (a, ?c) # AList.update (bl_tail l) ?b (cells (bl_heap l)),
    allocs := Suc (allocs (bl_heap l))\<rparr>\<rparr>"
  have n: "0 < unat n" using inv by blast
  then have run: "block_list_push n x l = (Ret (), ?l)"
    using full m alloc ne by (simp add: block_list_push_def block_eval fresh_block_def unat_gt_0)
  note c = block_wf_fresh [OF n refl, of x]
  have "block_list_inv n ?l \<and> block_list_list ?l = chain_items (cs @ [(bl_tail l, ?b), (a, ?c)])"
  proof (rule block_list_invI)
    have "map_of (cells (bl_heap ?l)) = (map_of (cs @ [(bl_tail l, ?b)]))(a \<mapsto> ?c)"
      using map_of_last_update [OF d] by (simp add: AList.update_conv' mc del: map_of_append)
    also have "\<dots> = map_of ((cs @ [(bl_tail l, ?b)]) @ [(a, ?c)])"
      by (rule map_of_snoc [symmetric]) (use fresh dom in auto)
    finally show "map_of (cells (bl_heap ?l)) = map_of (cs @ [(bl_tail l, ?b), (a, ?c)])"
      by (simp del: map_of_append)
    show "chain_wf n (cs @ [(bl_tail l, ?b), (a, ?c)])"
      by (rule chain_wf_link [OF wf full]) (use c fresh dom in auto)
    show "length (cells (bl_heap ?l)) \<le> 2 ^ 57"
      using few m by (simp add: length_update_existing)
    show "unat (bl_len ?l) = length (chain_items (cs @ [(bl_tail l, ?b), (a, ?c)]))"
      using inv items c len by (simp add: block_items_def)
    show "distinct (map fst (cells (bl_heap ?l)))"
      using inv fresh ne by (auto simp: AList.distinct_update dom_update)
    show "fst (hd (cs @ [(bl_tail l, ?b), (a, ?c)])) = bl_head ?l"
      using hd [of ?b] by (cases cs) auto
  qed (use inv in simp_all)
  then show ?thesis using run c items by (simp add: wp_def block_items_def)
qed

lemma block_list_push_spec:
  assumes l: "block_list_inv n l"
  shows "wp {OutOfMemory} (block_list_push n x)
    (\<lambda>_ l'. block_list_inv n l' \<and> block_list_list l' = block_list_list l @ [x]) (\<lambda>_ _. False) l"
proof -
  obtain b where m: "map_of (cells (bl_heap l)) (bl_tail l) = Some b" and b: "block_wf n b"
    using push_tail [OF l] by metis
  show ?thesis
  proof (cases "bk_end b < n")
    case True
    then show ?thesis by (rule push_with_room [OF l m])
  next
    case False
    then have full: "bk_end b = n" using b by (auto simp: block_wf_def word_less_nat_alt word_eq_unat)
    show ?thesis
    proof (cases "alloc_fn (bl_heap l) (allocs (bl_heap l)) (map fst (cells (bl_heap l)))")
      case None
      then show ?thesis using False m by (simp add: wp_def block_list_push_def block_eval)
    next
      case (Some a)
      then show ?thesis by (rule push_with_block [OF l m full])
    qed
  qed
qed

lemma chain_wf_head_update:
  assumes "chain_wf n ((h, b) # cs)" and "block_wf n b'" and "bk_next b' = bk_next b"
    and "bk_end b' = bk_end b"
  shows "chain_wf n ((h, b') # cs)"
proof -
  have "chained ((h, b') # cs)"
    using assms by (cases cs) (auto simp: chain_wf_def)
  with assms show ?thesis by (cases "cs = []") (auto simp: chain_wf_def)
qed

lemma chain_wf_tail:
  assumes "chain_wf n ((h, b) # cs)" and "cs \<noteq> []"
  shows "chain_wf n cs" and "bk_next b = Some (fst (hd cs))"
  using assms by (cases cs; auto simp: chain_wf_def)+

lemma map_of_tail_delete:
  assumes "map_of xs = map_of ((h, b) # cs)" and "distinct (map fst ((h, b) # cs))"
  shows "map_of (AList.delete h xs) = map_of cs"
proof
  fix k
  have "map_of cs h = None" using assms(2) by (auto simp: map_of_eq_None_iff)
  then show "map_of (AList.delete h xs) k = map_of cs k"
    using assms(1) by (simp add: AList.delete_conv' fun_eq_iff)
qed

lemma block_list_pop_item:
  assumes l: "block_list_inv n l" and bs: "chain l = (bl_head l, b) # cs"
    and m: "map_of (cells (bl_heap l)) (bl_head l) = Some b" and b: "block_wf n b"
    and less: "bk_begin b < bk_end b"
  shows "\<exists>x l'. block_list_pop l = (Ret (Some x), l') \<and> block_list_inv n l'
    \<and> block_list_list l = x # block_list_list l'"
proof -
  note inv = l [unfolded block_list_inv_def]
  let ?b = "b\<lparr>bk_values := (bk_values b)[unat (bk_begin b) := Uninit], bk_begin := bk_begin b + 1\<rparr>"
  obtain x where x: "bk_values b ! unat (bk_begin b) = Init x" and b': "block_wf n ?b"
    and items: "block_items b = x # block_items ?b"
    using block_wf_pop [OF b less refl] .
  let ?l = "l\<lparr>bl_heap := (bl_heap l)\<lparr>cells := AList.update (bl_head l) ?b
    (AList.update (bl_head l) (b\<lparr>bk_values := (bk_values b)[unat (bk_begin b) := Uninit]\<rparr>)
      (cells (bl_heap l)))\<rparr>, bl_len := bl_len l - 1\<rparr>"
  have "unat (bk_begin b) < length (bk_values b)"
    using b less by (simp add: block_wf_def word_less_nat_alt)
  then have run: "block_list_pop l = (Ret (Some x), ?l)"
    using m less x by (simp add: block_list_pop.simps block_eval AList.update_conv')
  have len: "unat (bl_len l) = length (block_list_list l)" using inv by blast
  have list: "block_list_list l = x # block_items ?b @ chain_items cs"
    using items by (simp add: block_list_list_def bs)
  then have "bl_len l \<noteq> 0" using len by auto
  then have len': "unat (bl_len l - 1) = length (block_items ?b @ chain_items cs)"
    using len list by (simp add: unat_pred)
  have d: "distinct (map fst ((bl_head l, b) # cs))" using inv bs by (simp add: chain_wf_def)
  have "block_list_inv n ?l \<and> block_list_list ?l = chain_items ((bl_head l, ?b) # cs)"
  proof (rule block_list_invI)
    show "map_of (cells (bl_heap ?l)) = map_of ((bl_head l, ?b) # cs)"
      using inv bs by (simp add: AList.update_conv')
    show "chain_wf n ((bl_head l, ?b) # cs)"
      by (rule chain_wf_head_update [where b = b]) (use inv bs b' in auto)
    show "length (cells (bl_heap ?l)) \<le> 2 ^ 57"
      using inv m by (simp add: length_update_existing AList.update_conv')
    show "unat (bl_len ?l) = length (chain_items ((bl_head l, ?b) # cs))"
      using len' by simp
    show "fst (last ((bl_head l, ?b) # cs)) = bl_tail ?l"
      using inv bs by (cases cs) auto
  qed (use inv in \<open>simp_all add: AList.distinct_update\<close>)
  with run list show ?thesis by auto
qed

text \<open>Freeing a drained head block keeps the items: at most one turn of the loop before the read.\<close>

lemma block_list_free_head:
  assumes l: "block_list_inv n l" and bs: "chain l = (bl_head l, b) # cs" and ne: "cs \<noteq> []"
    and drained: "block_items b = []"
    and l': "l' = l\<lparr>bl_head := fst (hd cs),
      bl_heap := (bl_heap l)\<lparr>cells := AList.delete (bl_head l) (cells (bl_heap l))\<rparr>\<rparr>"
  shows "block_list_inv n l' \<and> block_list_list l' = block_list_list l"
proof -
  note inv = l [unfolded block_list_inv_def]
  have "block_list_inv n l' \<and> block_list_list l' = chain_items cs"
  proof (rule block_list_invI)
    show "map_of (cells (bl_heap l')) = map_of cs"
      unfolding l' using inv bs by (simp add: map_of_tail_delete [where b = b] chain_wf_def)
    show "chain_wf n cs" using inv bs ne chain_wf_tail(1) by metis
    have "length (AList.delete (bl_head l) (cells (bl_heap l))) \<le> length (cells (bl_heap l))"
      by (rule AList.length_delete_le)
    then show "length (cells (bl_heap l')) \<le> 2 ^ 57" using inv by (simp add: l')
    show "fst (last cs) = bl_tail l'" using inv bs ne by (simp add: l')
    show "unat (bl_len l') = length (chain_items cs)"
      using inv bs drained by (simp add: l' block_list_list_def)
  qed (use inv in \<open>simp_all add: l' AList.distinct_delete\<close>)
  then show ?thesis using bs drained by (simp add: block_list_list_def)
qed

lemma block_list_pop_spec:
  "block_list_inv n l \<Longrightarrow> (case block_list_list l of
     [] \<Rightarrow> block_list_pop l = (Ret None, l)
   | x # xs \<Rightarrow> \<exists>l'. block_list_pop l = (Ret (Some x), l') \<and> block_list_inv n l' \<and> block_list_list l' = xs)"
proof (induction l rule: block_list_pop.induct)
  case (1 l)
  obtain cs b where bs: "chain l = (bl_head l, b) # cs"
    and m: "map_of (cells (bl_heap l)) (bl_head l) = Some b" and b: "block_wf n b"
    using block_list_head [OF "1.prems"] .
  note inv = "1.prems" [unfolded block_list_inv_def]
  show ?case
  proof (cases "bk_begin b < bk_end b")
    case True
    from block_list_pop_item [OF "1.prems" bs m b True] show ?thesis by auto
  next
    case False
    then have drained: "block_items b = []" using block_items_empty [OF b] by simp
    show ?thesis
    proof (cases "cs = []")
      case True
      then have "bl_head l = bl_tail l" using inv bs by simp
      with True drained False m show ?thesis
        by (simp add: block_list_list_def bs block_list_pop.simps)
    next
      case ne: False
      have "bl_tail l \<in> fst ` set cs" using inv bs ne by (metis image_eqI last.simps last_in_set)
      moreover have "bl_head l \<notin> fst ` set cs" using inv bs by (simp add: chain_wf_def)
      ultimately have ht: "bl_head l \<noteq> bl_tail l" by metis
      have nxt: "bk_next b = Some (fst (hd cs))" using inv bs ne chain_wf_tail(2) by metis
      let ?l = "l\<lparr>bl_head := fst (hd cs),
        bl_heap := (bl_heap l)\<lparr>cells := AList.delete (bl_head l) (cells (bl_heap l))\<rparr>\<rparr>"
      have l': "block_list_inv n ?l \<and> block_list_list ?l = block_list_list l"
        by (rule block_list_free_head [OF "1.prems" bs ne drained refl])
      have run: "block_list_pop l = block_list_pop ?l"
        using m False ht nxt by (subst block_list_pop.simps) simp
      obtain p c ds where cs: "cs = (p, c) # ds" using ne by (cases cs) auto
      then have "bk_begin c = 0" and "bk_end c \<noteq> 0" and c: "block_wf n c"
        using inv bs by (auto simp: chain_wf_def)
      then have "block_items c \<noteq> []"
        using block_items_empty [OF c] by (simp add: word_less_nat_alt unat_gt_0)
      then have "block_list_list l \<noteq> []"
        by (simp add: block_list_list_def bs cs)
      then obtain x xs where xs: "block_list_list l = x # xs" by (cases "block_list_list l") auto
      from "1.IH" [OF m False ht nxt] l' run xs show ?thesis by simp
    qed
  qed
qed

section \<open>The block list is an unbounded queue\<close>

lemma block_list_new_spec:
  assumes "0 < unat n" and "unat n \<le> 64" and f: "allocator_ok f"
  shows "(\<exists>l :: 't block_list. block_list_new n f = Ret l \<and> block_list_inv n l \<and> block_list_list l = [])
    \<or> (block_list_new n f :: 't block_list outcome) = Abort OutOfMemory"
proof (cases "f 0 []")
  case None
  then show ?thesis by (simp add: block_list_new_def block_alloc_def empty_heap_def)
next
  case (Some a)
  let ?l = "\<lparr>bl_head = a, bl_tail = a, bl_len = 0,
    bl_heap = \<lparr>cells = [(a, fresh_block n)], allocs = 1, alloc_fn = f\<rparr>\<rparr> :: 't block_list"
  have new: "block_list_new n f = Ret ?l"
    using Some by (simp add: block_list_new_def block_alloc_def empty_heap_def)
  have "block_list_inv n ?l \<and> block_list_list ?l = chain_items [(a, fresh_block n :: 't block)]"
    by (rule block_list_invI) (use assms in \<open>simp_all add: chain_wf_def block_wf_def fresh_block_def block_items_def\<close>)
  with new show ?thesis by (auto simp: block_items_def fresh_block_def)
qed

definition block_list_try_push :: "usize \<Rightarrow> 't \<Rightarrow> ('t block_list, 't + unit) comp" where
  "block_list_try_push n x = thenM (block_list_push n x) (ret (Inr ()))"

interpretation block_list: fifo "block_list_inv n" block_list_list "\<lambda>_. None" block_list_len
  "block_list_try_push n" block_list_pop "{OutOfMemory}" for n
proof
  fix l :: "'t block_list" and x :: 't and xs
  assume l: "block_list_inv n l"
  show "wp {OutOfMemory} (block_list_try_push n x) (\<lambda>v q. v = Inr () \<and> block_list_inv n q
      \<and> block_list_list q = block_list_list l @ [x] \<and> None = None) (\<lambda>_ _. False) l"
    using block_list_push_spec [OF l, of x] by (simp add: block_list_try_push_def wp_simps)
  show "block_list_pop l = (Ret None, l)" if "block_list_list l = []"
    using block_list_pop_spec [OF l] that by simp
  show "\<exists>q. block_list_pop l = (Ret (Some x), q) \<and> block_list_inv n q \<and> block_list_list q = xs
      \<and> None = None" if "block_list_list l = x # xs"
    using block_list_pop_spec [OF l] that by simp
  show "unat (block_list_len l) = length (block_list_list l)"
    using l by (simp add: block_list_len_def block_list_inv_def)
qed auto

section \<open>Memory\<close>

lemma block_drop_items:
  assumes "block_wf n b"
  shows "block_drop d b = for_each d (block_items b)"
proof -
  have b: "length (bk_values b) = unat n" "unat (bk_end b) \<le> unat n"
    "\<And>i. i < unat n \<Longrightarrow> unat (bk_begin b) \<le> i \<Longrightarrow> i < unat (bk_end b) \<Longrightarrow> bk_values b ! i \<noteq> Uninit"
    using assms by (auto simp: block_wf_def)
  have "block_items b = map (\<lambda>i. the_init (bk_values b ! i)) [unat (bk_begin b)..<unat (bk_end b)]"
    using b by (auto simp: block_items_def intro!: nth_equalityI)
  moreover have "block_drop d b = for_each (\<lambda>i. d (the_init (bk_values b ! i)))
      [unat (bk_begin b)..<unat (bk_end b)]"
    unfolding block_drop_def using b
    by (intro for_each_cong) (auto split: slot.splits)
  ultimately show ?thesis by (simp add: for_each_map)
qed

lemma block_list_drop_from_chain:
  assumes "map_of (cells h) = map_of bs" and "chain_wf n bs"
  shows "case block_list_drop_from d (Some (fst (hd bs))) (s, h) of (v, (s', h')) \<Rightarrow>
     (v, s') = for_each d (chain_items bs) s \<and> (v = Ret () \<longrightarrow> cells h' = [])"
  using assms
proof (induction bs arbitrary: s h)
  case Nil
  then show ?case by (simp add: chain_wf_def)
next
  case (Cons pb bs)
  obtain p b where pb: "pb = (p, b)" by fastforce
  let ?h = "h\<lparr>cells := AList.delete p (cells h)\<rparr>"
  have m: "map_of (cells h) p = Some b" using Cons.prems pb by simp
  have b: "block_wf n b" using Cons.prems pb by (simp add: chain_wf_def)
  have rest: "map_of (cells ?h) = map_of bs"
  proof -
    have "distinct (map fst ((p, b) # bs))" using Cons.prems(2) pb by (simp only: chain_wf_def)
    with map_of_tail_delete [OF Cons.prems(1) [unfolded pb]] show ?thesis by simp
  qed
  obtain v s' where v: "for_each d (block_items b) s = (v, s')" by fastforce
  show ?case
  proof (cases "bs = []")
    case True
    then have "cells ?h = []" using rest by (metis map_of_eq_empty_iff map_of.simps(1))
    moreover have "bk_next b = None" using Cons.prems(2) True pb by (simp add: chain_wf_def)
    ultimately show ?thesis
      using m b v True pb by (cases v) (auto simp: block_drop_items comp_eval)
  next
    case False
    have wf: "chain_wf n bs" and nxt: "bk_next b = Some (fst (hd bs))"
      using chain_wf_tail [of n p b bs] Cons.prems(2) False pb by auto
    from Cons.IH [OF rest wf] show ?thesis
      using m b v pb nxt by (cases v) (auto simp: block_drop_items for_each_append comp_eval Let_def
        split: prod.splits)
  qed
qed

lemma block_list_drop_all:
  assumes "block_list_inv n l"
  shows "case block_list_drop d l s of (v, (s', h')) \<Rightarrow>
     (v, s') = for_each d (block_list_list l) s \<and> (v = Ret () \<longrightarrow> cells h' = [])"
proof -
  have "chain l \<noteq> []" using assms by (auto simp: block_list_inv_def chain_wf_def)
  then have "fst (hd (chain l)) = bl_head l" by (rule chain_head)
  with block_list_drop_from_chain [of "bl_heap l" "chain l" n d s] assms show ?thesis
    by (simp add: block_list_drop_def block_list_list_def block_list_inv_def)
qed

text \<open>Memory tracks live usage: all live blocks but the first and the last are full of items.\<close>

lemma chain_full_blocks:
  assumes "\<forall>(p, b) \<in> set bs. block_wf n b \<and> bk_begin b = 0 \<and> bk_end b = n"
  shows "length (chain_items bs) = length bs * unat n"
  using assms by (induction bs) (auto simp: block_items_def block_wf_def)

lemma block_list_memory:
  assumes "block_list_inv n l"
  shows "(length (cells (bl_heap l)) - 2) * unat n \<le> length (block_list_list l)"
proof -
  have wf: "chain_wf n (chain l)" and len: "length (chain l) = length (cells (bl_heap l))"
    using assms length_map_of [of "chain l" "cells (bl_heap l)"]
    by (auto simp: block_list_inv_def chain_wf_def)
  let ?mid = "butlast (tl (chain l))"
  have full: "\<forall>(p, b) \<in> set ?mid. block_wf n b \<and> bk_begin b = 0 \<and> bk_end b = n"
  proof (intro ballI, clarify)
    fix p b assume mid: "(p, b) \<in> set ?mid"
    then have "(p, b) \<in> set (tl (chain l))" by (rule in_set_butlastD)
    moreover have "(p, b) \<in> set (butlast (chain l))"
      using mid by (metis butlast_tl list.set_sel(2) tl_Nil empty_iff list.set(1))
    moreover have "(p, b) \<in> set (chain l)" using mid by (metis in_set_butlastD list.set_sel(2) tl_Nil)
    ultimately show "block_wf n b \<and> bk_begin b = 0 \<and> bk_end b = n"
      using wf by (auto simp: chain_wf_def)
  qed
  have "length (chain_items ?mid) \<le> length (chain_items (chain l))"
  proof (cases "chain l")
    case (Cons x xs)
    then show ?thesis
      by (cases xs rule: rev_cases) (auto simp: chain_items_def)
  qed simp
  with chain_full_blocks [OF full] len show ?thesis
    by (simp add: block_list_list_def numeral_2_eq_2)
qed

end
