(* ===== verification/Flavor.thy ===== *)
theory Flavor
  imports Ring Block_List
begin

text \<open>
  The storage behind a channel (\<open>src/queue/mod.rs\<close>): a ring when the channel is bounded, a block
  list when it is not. It is a \<open>fifo\<close> again, by dispatch to the two.
\<close>

section \<open>Dispatch\<close>

datatype 't flavor = Bounded "'t ring" | Unbounded "'t block_list"

text \<open>The default block size of the source, \<open>const N: usize = 32\<close>.\<close>

definition block_size :: usize where
  "block_size = 32"

definition flavor_bounded :: "usize \<Rightarrow> 't flavor" where
  "flavor_bounded cap = Bounded (ring_with_capacity cap)"

definition flavor_unbounded :: "allocator \<Rightarrow> 't flavor outcome" where
  "flavor_unbounded f = (case block_list_new block_size f of
     Ret l \<Rightarrow> Ret (Unbounded l)
   | Panic p \<Rightarrow> Panic p
   | Abort a \<Rightarrow> Abort a
   | Fault e \<Rightarrow> Fault e)"

fun flavor_len :: "'t flavor \<Rightarrow> usize" where
  "flavor_len (Bounded r) = ring_len r"
| "flavor_len (Unbounded l) = block_list_len l"

fun flavor_is_empty :: "'t flavor \<Rightarrow> bool" where
  "flavor_is_empty (Bounded r) = ring_is_empty r"
| "flavor_is_empty (Unbounded l) = block_list_is_empty l"

fun flavor_cap :: "'t flavor \<Rightarrow> usize option" where
  "flavor_cap (Bounded r) = Some (ring_cap r)"
| "flavor_cap (Unbounded l) = None"

fun flavor_is_full :: "'t flavor \<Rightarrow> bool" where
  "flavor_is_full (Bounded r) = ring_is_full r"
| "flavor_is_full (Unbounded l) = False"

fun flavor_try_push :: "'t \<Rightarrow> ('t flavor, 't + unit) comp" where
  "flavor_try_push x (Bounded r) = (case ring_push x r of (v, r') \<Rightarrow> (v, Bounded r'))"
| "flavor_try_push x (Unbounded l) =
     (case thenM (block_list_push block_size x) (ret (Inr ())) l of (v, l') \<Rightarrow> (v, Unbounded l'))"

fun flavor_pop :: "('t flavor, 't option) comp" where
  "flavor_pop (Bounded r) = (case ring_pop r of (v, r') \<Rightarrow> (v, Bounded r'))"
| "flavor_pop (Unbounded l) = (case block_list_pop l of (v, l') \<Rightarrow> (v, Unbounded l'))"

section \<open>The contract\<close>

fun flavor_inv :: "'t flavor \<Rightarrow> bool" where
  "flavor_inv (Bounded r) = ring_inv r"
| "flavor_inv (Unbounded l) = block_list_inv block_size l"

fun flavor_list :: "'t flavor \<Rightarrow> 't list" where
  "flavor_list (Bounded r) = ring_list r"
| "flavor_list (Unbounded l) = block_list_list l"

fun flavor_capacity :: "'t flavor \<Rightarrow> nat option" where
  "flavor_capacity (Bounded r) = Some (length (slots r))"
| "flavor_capacity (Unbounded l) = None"

interpretation flavor: fifo flavor_inv flavor_list flavor_capacity flavor_len
  flavor_try_push flavor_pop "{OutOfMemory}"
proof
  fix q :: "'t flavor" and x :: 't and xs c
  assume q: "flavor_inv q"
  show "flavor_try_push x q = (Ret (Inl x), q)"
    if "flavor_capacity q = Some (length (flavor_list q))"
    using that q by (cases q) (auto simp: ring.push_full ring_capacity_def)
  show "wp {OutOfMemory} (flavor_try_push x) (\<lambda>v q'. v = Inr () \<and> flavor_inv q'
      \<and> flavor_list q' = flavor_list q @ [x] \<and> flavor_capacity q' = flavor_capacity q) (\<lambda>_ _. False) q"
    if "flavor_capacity q \<noteq> Some (length (flavor_list q))"
  proof (cases q)
    case (Bounded r)
    with that q ring.push_room [of r x] show ?thesis
      by (auto simp: wp_def ring_capacity_def split: prod.splits outcome.splits)
  next
    case (Unbounded l)
    with q block_list.push_room [of block_size l x] show ?thesis
      by (auto simp: wp_def block_list_try_push_def split: prod.splits outcome.splits)
  qed
  show "flavor_pop q = (Ret None, q)" if "flavor_list q = []"
    using that q by (cases q) (auto simp: ring.pop_empty block_list.pop_empty)
  show "\<exists>q'. flavor_pop q = (Ret (Some x), q') \<and> flavor_inv q' \<and> flavor_list q' = xs
      \<and> flavor_capacity q' = flavor_capacity q" if "flavor_list q = x # xs"
  proof (cases q)
    case (Bounded r)
    with that q ring.pop_some [of r x xs] show ?thesis by (auto simp: ring_capacity_def)
  next
    case (Unbounded l)
    with that q block_list.pop_some [of block_size l x xs] show ?thesis by auto
  qed
  show "unat (flavor_len q) = length (flavor_list q)"
    using q by (cases q) (simp_all add: ring.len block_list.len)
  show "length (flavor_list q) \<le> c" if "flavor_capacity q = Some c"
    using that q by (cases q) (auto intro: ring.within_cap simp: ring_capacity_def ring_inv_def)
qed

lemma flavor_bounded_spec:
  assumes "0 < unat cap" and "unat cap \<le> 2 ^ 63"
  shows "flavor_inv (flavor_bounded cap)" and "flavor_list (flavor_bounded cap) = []"
    and "flavor_capacity (flavor_bounded cap) = Some (unat cap)"
  by (simp_all add: flavor_bounded_def ring_with_capacity_inv [OF assms])

lemma flavor_unbounded_spec:
  assumes "allocator_ok f"
  shows "(\<exists>q :: 't flavor. flavor_unbounded f = Ret q \<and> flavor_inv q \<and> flavor_list q = [] \<and> flavor_capacity q = None)
    \<or> (flavor_unbounded f :: 't flavor outcome) = Abort OutOfMemory"
  using block_list_new_spec [of block_size f, where 't = 't] assms
  by (auto simp: flavor_unbounded_def block_size_def)

text \<open>The observers agree with the abstract queue.\<close>

lemma flavor_is_empty_iff: "flavor_inv q \<Longrightarrow> flavor_is_empty q \<longleftrightarrow> flavor_list q = []"
  using flavor.len [of q]
  by (cases q) (auto simp: ring_is_empty_def block_list_is_empty_def ring_len_def block_list_len_def
      ring_list_def)

lemma flavor_is_full_iff:
  "flavor_inv q \<Longrightarrow> flavor_is_full q \<longleftrightarrow> flavor_capacity q = Some (length (flavor_list q))"
  by (cases q) (auto simp: ring_is_full_iff)

lemma flavor_cap_eq: "flavor_inv q \<Longrightarrow> map_option unat (flavor_cap q) = flavor_capacity q"
  by (cases q) (auto simp: unat_ring_cap)

end
