(* ===== verification/Cell.thy ===== *)
theory Cell
  imports Prelude
begin

text \<open>
  The interior-mutability cell of \<open>src/cell.rs\<close> and the state every channel shares.

  \<open>LocalCell\<close> is a \<open>RefCell\<close> under \<open>debug_assertions\<close> (module \<open>checked\<close>) and a bare
  \<open>UnsafeCell\<close> otherwise (module \<open>unchecked\<close>). The model keeps the borrow flag of every cell of
  a channel in the state, as \<open>RefCell\<close> does: 0 for free, a positive count of shared borrows, -1
  for a mutable borrow. A borrow lasts for a scope, and the flag is restored when the scope ends,
  also by unwinding. A conflicting borrow is the fault \<open>DoubleBorrow\<close>: a panic of the debug build,
  undefined behaviour of the release build.
\<close>

section \<open>The state behind every channel\<close>

type_synonym waker = nat

datatype cell_id = FlavorCell | RedeliveryCell | RecvWakerCell | SendWakersCell

text \<open>
  Ghost events. No operation reads the log: it records what happened, for the specifications.
\<close>

datatype 't event =
    Pushed 't            \<comment> \<open>an item entered the queue\<close>
  | Popped 't            \<comment> \<open>an item left the queue, or the redelivery slot, for a consumer\<close>
  | ItemDropped 't       \<comment> \<open>the destructor of an item was run\<close>
  | Woke waker           \<comment> \<open>\<open>Waker::wake\<close> was called\<close>
  | WakeDue waker        \<comment> \<open>the waker was taken from a registration list in order to be woken\<close>
  | WakerCloned waker
  | WakerDropped waker
  | SendParked u64       \<comment> \<open>a send waker was registered under an id\<close>
  | SendWithdrawn u64    \<comment> \<open>a \<open>Send\<close> future withdrew its registration under an id\<close>
  | RecvWithdrawn u64    \<comment> \<open>a receiver withdrew its registration under an id\<close>

record 't world =
  borrows :: "cell_id \<Rightarrow> int"
  log :: "'t event list"

definition free_cells :: "cell_id \<Rightarrow> int" where
  "free_cells = (\<lambda>_. 0)"

definition idle :: "('t, 'z) world_scheme \<Rightarrow> bool" where
  "idle s \<longleftrightarrow> borrows s = free_cells"

definition emit :: "'t event \<Rightarrow> (('t, 'z) world_scheme, unit) comp" where
  "emit e = modify (\<lambda>s. s\<lparr>log := log s @ [e]\<rparr>)"

section \<open>Borrow scopes\<close>

definition borrow_mut :: "cell_id \<Rightarrow> (('t, 'z) world_scheme, 'a) comp \<Rightarrow> (('t, 'z) world_scheme, 'a) comp" where
  "borrow_mut c body = (\<lambda>s.
     if borrows s c \<noteq> 0 then (Fault DoubleBorrow, s)
     else case body (s\<lparr>borrows := (borrows s)(c := -1)\<rparr>) of
       (r, s') \<Rightarrow> (r, s'\<lparr>borrows := (borrows s')(c := 0)\<rparr>))"

definition borrow :: "cell_id \<Rightarrow> (('t, 'z) world_scheme, 'a) comp \<Rightarrow> (('t, 'z) world_scheme, 'a) comp" where
  "borrow c body = (\<lambda>s.
     if borrows s c < 0 then (Fault DoubleBorrow, s)
     else case body (s\<lparr>borrows := (borrows s)(c := borrows s c + 1)\<rparr>) of
       (r, s') \<Rightarrow> (r, s'\<lparr>borrows := (borrows s')(c := borrows s' c - 1)\<rparr>))"

text \<open>The release build: the same accesses with no flag.\<close>

definition borrow_mut_unchecked :: "cell_id \<Rightarrow> ('s, 'a) comp \<Rightarrow> ('s, 'a) comp" where
  "borrow_mut_unchecked c body = body"

definition borrow_unchecked :: "cell_id \<Rightarrow> ('s, 'a) comp \<Rightarrow> ('s, 'a) comp" where
  "borrow_unchecked c body = body"

text \<open>A body that runs no user code neither reads nor changes a borrow flag.\<close>

definition flag_free :: "(('t, 'z) world_scheme, 'a) comp \<Rightarrow> bool" where
  "flag_free body \<longleftrightarrow>
     (\<forall>s b. body (s\<lparr>borrows := b\<rparr>) = (fst (body s), (snd (body s))\<lparr>borrows := b\<rparr>))"

lemma flag_free_borrows:
  assumes "flag_free body"
  shows "(snd (body s))\<lparr>borrows := borrows s\<rparr> = snd (body s)"
proof -
  have "body (s\<lparr>borrows := borrows s\<rparr>) = (fst (body s), (snd (body s))\<lparr>borrows := borrows s\<rparr>)"
    using assms unfolding flag_free_def by blast
  then show ?thesis by (metis snd_conv world.surjective world.update_convs(1))
qed

lemma borrow_mut_flag_free:
  assumes "flag_free body" and "borrows s c = 0"
  shows "borrow_mut c body s = body s"
proof -
  have "body (s\<lparr>borrows := (borrows s)(c := -1)\<rparr>)
      = (fst (body s), (snd (body s))\<lparr>borrows := (borrows s)(c := -1)\<rparr>)"
    using assms(1) unfolding flag_free_def by blast
  moreover have "((borrows s)(c := -1))(c := 0) = borrows s"
    using assms(2) by auto
  ultimately show ?thesis
    using assms flag_free_borrows [OF assms(1), of s] by (simp add: borrow_mut_def)
qed

lemma borrow_flag_free:
  assumes "flag_free body" and "0 \<le> borrows s c"
  shows "borrow c body s = body s"
proof -
  have "body (s\<lparr>borrows := (borrows s)(c := borrows s c + 1)\<rparr>)
      = (fst (body s), (snd (body s))\<lparr>borrows := (borrows s)(c := borrows s c + 1)\<rparr>)"
    using assms(1) unfolding flag_free_def by blast
  moreover have "((borrows s)(c := borrows s c + 1))(c := borrows s c) = borrows s"
    by auto
  ultimately show ?thesis
    using assms flag_free_borrows [OF assms(1), of s] by (simp add: borrow_def)
qed

lemma idle_borrows [simp]: "idle s \<Longrightarrow> borrows s c = 0"
  by (simp add: idle_def free_cells_def)

lemma idle_update [simp]: "idle (s\<lparr>log := l\<rparr>) = idle s"
  by (simp add: idle_def)

lemma wp_emit [wp_simps]: "wp A (emit e) Q E = (\<lambda>s. Q () (s\<lparr>log := log s @ [e]\<rparr>))"
  by (simp add: emit_def wp_simps)

lemma flag_freeI:
  assumes "\<And>s b. body (s\<lparr>borrows := b\<rparr>) = (fst (body s), (snd (body s))\<lparr>borrows := b\<rparr>)"
  shows "flag_free body"
  using assms by (simp add: flag_free_def)

lemma wp_borrow_mut: "flag_free body \<Longrightarrow> idle s \<Longrightarrow> wp A (borrow_mut c body) Q E s = wp A body Q E s"
  by (simp add: wp_def borrow_mut_flag_free)

text \<open>
  While user code runs inside a borrow scope the cell is not free, so the user code could run
  into it. The converse of the rule the channels follow.
\<close>

lemma borrow_mut_nested:
  "fst (borrow_mut c (borrow_mut c body) s) = Fault DoubleBorrow"
  by (simp add: borrow_mut_def)

section \<open>Histories\<close>

fun pushed :: "'t event list \<Rightarrow> 't list" where
  "pushed [] = []"
| "pushed (Pushed x # es) = x # pushed es"
| "pushed (_ # es) = pushed es"

fun popped :: "'t event list \<Rightarrow> 't list" where
  "popped [] = []"
| "popped (Popped x # es) = x # popped es"
| "popped (_ # es) = popped es"

fun woken :: "'t event list \<Rightarrow> waker list" where
  "woken [] = []"
| "woken (Woke w # es) = w # woken es"
| "woken (_ # es) = woken es"

fun send_parks :: "'t event list \<Rightarrow> u64 list" where
  "send_parks [] = []"
| "send_parks (SendParked i # es) = i # send_parks es"
| "send_parks (_ # es) = send_parks es"

lemma send_parks_append [simp]: "send_parks (xs @ ys) = send_parks xs @ send_parks ys"
  by (induction xs rule: send_parks.induct) auto

lemma pushed_append [simp]: "pushed (xs @ ys) = pushed xs @ pushed ys"
  by (induction xs rule: pushed.induct) auto

lemma popped_append [simp]: "popped (xs @ ys) = popped xs @ popped ys"
  by (induction xs rule: popped.induct) auto

lemma woken_append [simp]: "woken (xs @ ys) = woken xs @ woken ys"
  by (induction xs rule: woken.induct) auto

text \<open>Events that concern user code only: neither a push, a pop nor a registration.\<close>

fun neutral :: "'t event \<Rightarrow> bool" where
  "neutral (Pushed x) = False"
| "neutral (Popped x) = False"
| "neutral (SendParked i) = False"
| "neutral (WakeDue w) = False"
| "neutral (SendWithdrawn i) = False"
| "neutral (RecvWithdrawn i) = False"
| "neutral _ = True"

lemma neutral_pushed [simp]: "neutral e \<Longrightarrow> pushed [e] = []"
  by (cases e) auto

lemma neutral_parks [simp]: "neutral e \<Longrightarrow> send_parks [e] = []"
  by (cases e) auto

lemma neutral_popped [simp]: "neutral e \<Longrightarrow> popped [e] = []"
  by (cases e) auto

end
