(* ===== verification/Wakers.thy ===== *)
theory Wakers
  imports Cell
begin

text \<open>
  Wakers and the other user code a channel calls, the panic isolation around it
  (\<open>drop_panic_payload\<close> of \<open>src/lib.rs\<close>, \<open>wake_all\<close> of \<open>src/mpmc/chan.rs\<close>), and the lists of
  registered wakers.

  The vtable functions of a waker and the destructors of items and of panic payloads are code
  outside the crate. They are the fields of \<open>env\<close>, arbitrary computations on the shared state that
  may re-enter the channel and may panic. Whatever a theorem needs to know about them is a
  hypothesis: usually \<open>user_code\<close>, that they act on the channel only by its own steps.
\<close>

section \<open>User code\<close>

record ('s, 't) env =
  std :: bool          \<comment> \<open>the \<open>std\<close> feature: \<open>catch_unwind\<close> is available\<close>
  fuel :: nat          \<comment> \<open>bound on the retries of the loop in \<open>mpmc\<close>'s \<open>try_take\<close>\<close>
  wake_cb :: "waker \<Rightarrow> ('s, unit) comp"
  wake_ref_cb :: "waker \<Rightarrow> ('s, unit) comp"
  clone_cb :: "waker \<Rightarrow> ('s, waker) comp"
  drop_cb :: "waker \<Rightarrow> ('s, unit) comp"
  item_drop_cb :: "'t \<Rightarrow> ('s, unit) comp"
  payload_drop_cb :: "payload \<Rightarrow> ('s, unit) comp"

type_synonym ('t, 'z) wenv = "(('t, 'z) world_scheme, 't) env"

definition wake :: "('t, 'z) wenv \<Rightarrow> waker \<Rightarrow> (('t, 'z) world_scheme, unit) comp" where
  "wake env w = thenM (emit (Woke w)) (wake_cb env w)"

definition wake_by_ref :: "('t, 'z) wenv \<Rightarrow> waker \<Rightarrow> (('t, 'z) world_scheme, unit) comp" where
  "wake_by_ref env w = thenM (emit (Woke w)) (wake_ref_cb env w)"

definition clone_waker :: "('t, 'z) wenv \<Rightarrow> waker \<Rightarrow> (('t, 'z) world_scheme, waker) comp" where
  "clone_waker env w = thenM (emit (WakerCloned w)) (clone_cb env w)"

definition drop_waker :: "('t, 'z) wenv \<Rightarrow> waker \<Rightarrow> (('t, 'z) world_scheme, unit) comp" where
  "drop_waker env w = thenM (emit (WakerDropped w)) (drop_cb env w)"

definition drop_waker_option :: "('t, 'z) wenv \<Rightarrow> waker option \<Rightarrow> (('t, 'z) world_scheme, unit) comp" where
  "drop_waker_option env w = (case w of None \<Rightarrow> ret () | Some v \<Rightarrow> drop_waker env v)"

definition drop_item :: "('t, 'z) wenv \<Rightarrow> 't \<Rightarrow> (('t, 'z) world_scheme, unit) comp" where
  "drop_item env x = thenM (emit (ItemDropped x)) (item_drop_cb env x)"

text \<open>
  \<open>drop_panic_payload\<close>: the payload is dropped inside \<open>catch_unwind\<close>, and \<open>let _ =\<close> drops the
  result. When the payload's own destructor panicked, that result holds a second payload, which
  is dropped outside \<open>catch_unwind\<close>.
\<close>

definition drop_panic_payload :: "('t, 'z) wenv \<Rightarrow> payload \<Rightarrow> (('t, 'z) world_scheme, unit) comp" where
  "drop_panic_payload env p = bindM (catch_unwind (payload_drop_cb env p)) (\<lambda>r. case r of
     Inl q \<Rightarrow> payload_drop_cb env q
   | Inr _ \<Rightarrow> ret ())"

section \<open>Waking a list of wakers\<close>

text \<open>
  With \<open>std\<close>: every wake is caught, the first panic is kept and resumed at the end, later ones are
  disposed of. Should the disposal itself unwind, the wakers left in the iterator and the kept
  payload are dropped.
\<close>

fun wake_all_std :: "('t, 'z) wenv \<Rightarrow> (u64 \<times> waker) list \<Rightarrow> payload option \<Rightarrow> (('t, 'z) world_scheme, unit) comp" where
  "wake_all_std env [] first_panic = (case first_panic of None \<Rightarrow> ret () | Some p \<Rightarrow> panic p)"
| "wake_all_std env ((i, w) # ws) first_panic = bindM (catch_unwind (wake env w)) (\<lambda>r. case r of
     Inr _ \<Rightarrow> wake_all_std env ws first_panic
   | Inl p \<Rightarrow> (case first_panic of
       None \<Rightarrow> wake_all_std env ws (Some p)
     | Some q \<Rightarrow> thenM
         (on_unwind (thenM (for_each (\<lambda>(j, v). drop_waker env v) ws) (payload_drop_cb env q))
           (drop_panic_payload env p))
         (wake_all_std env ws first_panic)))"

text \<open>
  Without \<open>std\<close>: wakers are popped from the back of the vector, and a guard wakes the rest, from
  the front, when one unwinds. The argument is the vector reversed.
\<close>

fun wake_all_no_std :: "('t, 'z) wenv \<Rightarrow> (u64 \<times> waker) list \<Rightarrow> (('t, 'z) world_scheme, unit) comp" where
  "wake_all_no_std env [] = ret ()"
| "wake_all_no_std env ((i, w) # ws) = thenM
     (on_unwind (for_each (\<lambda>(j, v). wake env v) (rev ws)) (wake env w))
     (wake_all_no_std env ws)"

definition wake_all :: "('t, 'z) wenv \<Rightarrow> (u64 \<times> waker) list \<Rightarrow> (('t, 'z) world_scheme, unit) comp" where
  "wake_all env ws = (if std env then wake_all_std env ws None else wake_all_no_std env (rev ws))"

section \<open>Registered wakers\<close>

text \<open>Registration lists: a waker is added under an id and removed by \<open>swap_remove\<close>.\<close>

definition registry_remove :: "u64 \<Rightarrow> (u64 \<times> waker) list \<Rightarrow> waker option \<times> (u64 \<times> waker) list" where
  "registry_remove i ws = (case position (\<lambda>(j, v). j = i) ws of
     None \<Rightarrow> (None, ws)
   | Some k \<Rightarrow> (Some (snd (ws ! k)), swap_remove k ws))"

lemma registry_remove_absent: "i \<notin> fst ` set ws \<Longrightarrow> registry_remove i ws = (None, ws)"
proof -
  assume "i \<notin> fst ` set ws"
  then have "position (\<lambda>(j, v). j = i) ws = None" by (force simp: position_None)
  then show ?thesis by (simp add: registry_remove_def)
qed

lemma registry_remove_present:
  assumes "(i, w) \<in> set ws" and d: "distinct (map fst ws)"
  shows "fst (registry_remove i ws) = Some w"
    and "set (snd (registry_remove i ws)) = set ws - {(i, w)}"
proof -
  have "position (\<lambda>(j, v). j = i) ws \<noteq> None"
    using assms(1) by (auto simp: position_None)
  then obtain k where k: "position (\<lambda>(j, v). j = i) ws = Some k" by blast
  from position_Some [OF k] have lt: "k < length ws" and fst: "fst (ws ! k) = i"
    by (auto split: prod.splits)
  then have "ws ! k = (i, w)"
    using assms by (metis eq_key_imp_eq_value nth_mem prod.collapse)
  then show "fst (registry_remove i ws) = Some w"
    and "set (snd (registry_remove i ws)) = set ws - {(i, w)}"
    using k lt set_swap_remove [OF lt] d by (simp_all add: registry_remove_def distinct_map)
qed

lemma registry_remove_subset: "set (snd (registry_remove i ws)) \<subseteq> set ws"
  by (auto simp: registry_remove_def split: option.splits dest: set_swap_remove_subset [THEN subsetD])

lemma registry_remove_keeps:
  assumes "(j, w) \<in> set ws"
  shows "(j, w) \<in> set (snd (registry_remove i ws)) \<or> j = i \<and> fst (registry_remove i ws) \<noteq> None"
proof (cases "position (\<lambda>(j, v). j = i) ws")
  case None
  with assms show ?thesis by (simp add: registry_remove_def)
next
  case (Some k)
  from position_Some [OF Some] have k: "k < length ws" "fst (ws ! k) = i" by (auto split: prod.splits)
  have "(j, w) \<in># add_mset (ws ! k) (mset (swap_remove k ws))"
    using assms mset_swap_remove [OF k(1)] by (metis set_mset_mset)
  then consider "ws ! k = (j, w)" | "(j, w) \<in> set (swap_remove k ws)" by auto
  then show ?thesis using Some k(2) by cases (auto simp: registry_remove_def)
qed

lemma registry_remove_distinct:
  "distinct (map fst ws) \<Longrightarrow> distinct (map fst (snd (registry_remove i ws)))"
  by (auto simp: registry_remove_def distinct_swap_remove split: option.splits)

section \<open>What user code may do\<close>

definition user_code :: "abort_reason set \<Rightarrow> ('s \<Rightarrow> bool) \<Rightarrow> ('s \<Rightarrow> 's \<Rightarrow> bool) \<Rightarrow> ('s, 't) env \<Rightarrow> bool" where
  "user_code A I R env \<longleftrightarrow>
     (\<forall>w. guar A I R (wake_cb env w)) \<and> (\<forall>w. guar A I R (wake_ref_cb env w))
     \<and> (\<forall>w. guar A I R (clone_cb env w)) \<and> (\<forall>w. guar A I R (drop_cb env w))
     \<and> (\<forall>x. guar A I R (item_drop_cb env x)) \<and> (\<forall>p. guar A I R (payload_drop_cb env p))"

lemma user_code_mono:
  assumes "user_code A I R env" and "\<And>s s'. R s s' \<Longrightarrow> R' s s'"
  shows "user_code A I R' env"
  using assms(1) unfolding user_code_def
  by (auto intro: guar_mono [OF _ assms(2)])

text \<open>
  A payload whose destructor panics is tolerated, but not one whose destructor panics with a
  payload whose destructor panics again.
\<close>

definition calm_payloads :: "abort_reason set \<Rightarrow> ('s, 't) env \<Rightarrow> bool" where
  "calm_payloads A env \<longleftrightarrow> (\<forall>p s. wp A (payload_drop_cb env p) (\<lambda>_ _. True)
     (\<lambda>q. wp A (payload_drop_cb env q) (\<lambda>_ _. True) (\<lambda>_ _. False)) s)"

text \<open>
  What \<open>wake_all\<close> needs about panics while it already handles one: with \<open>std\<close>, calm payloads;
  without \<open>std\<close>, a second panic aborts, as documented.
\<close>

definition isolates :: "abort_reason set \<Rightarrow> ('s, 't) env \<Rightarrow> bool" where
  "isolates A env \<longleftrightarrow> (if std env then calm_payloads A env else DoublePanic \<in> A)"

definition admissible :: "abort_reason set \<Rightarrow> ('s \<Rightarrow> bool) \<Rightarrow> ('s \<Rightarrow> 's \<Rightarrow> bool) \<Rightarrow> ('s, 't) env \<Rightarrow> bool" where
  "admissible A I R env \<longleftrightarrow> user_code A I R env \<and> isolates A env \<and> OutOfMemory \<in> A"

lemma admissible_mono:
  "admissible A I R env \<Longrightarrow> (\<And>s s'. R s s' \<Longrightarrow> R' s s') \<Longrightarrow> admissible A I R' env"
  by (auto simp: admissible_def intro: user_code_mono)

text \<open>
  Calls of the channel's operations are themselves described by an inductive relation whose rules
  mention the calls that user code makes inside; \<open>user_code\<close> and \<open>admissible\<close> are monotone, so the
  definition is sound.
\<close>

lemma user_code_mono_rule [mono]:
  "(\<And>s s'. R s s' \<longrightarrow> R' s s') \<Longrightarrow> user_code A I R env \<longrightarrow> user_code A I R' env"
  by (blast intro: user_code_mono)

lemma admissible_mono_rule [mono]:
  "(\<And>s s'. R s s' \<longrightarrow> R' s s') \<Longrightarrow> admissible A I R env \<longrightarrow> admissible A I R' env"
  by (blast intro: admissible_mono)

text \<open>User code that makes such calls does by steps whatever the calls do by steps.\<close>

lemma guar_by_steps:
  assumes m: "guar A I R m" and step: "\<And>s s'. I s \<Longrightarrow> step s s' \<Longrightarrow> I s'"
    and R: "\<And>s s'. R s s' \<Longrightarrow> I s \<Longrightarrow> step\<^sup>*\<^sup>* s s'"
  shows "guar A I step m"
proof (rule guarI)
  fix s assume s: "I s"
  have "step\<^sup>*\<^sup>* s s' \<and> I s'" if "R\<^sup>*\<^sup>* s s'" for s'
    using that
  proof (induction rule: rtranclp_induct)
    case (step t u)
    then have "step\<^sup>*\<^sup>* t u" and "I t" using R by auto
    moreover have "I u" using \<open>step\<^sup>*\<^sup>* t u\<close> \<open>I t\<close> by (induction rule: rtranclp_induct) (auto intro: assms(2))
    ultimately show ?case using step.IH by (meson rtranclp_trans)
  qed (use s in simp)
  with m s show "wp A m (\<lambda>_. step\<^sup>*\<^sup>* s) (\<lambda>_. step\<^sup>*\<^sup>* s) s"
    unfolding guar_def by (blast intro: wp_conseq)
qed

lemma guar_one_call:
  assumes "guar A I step m" and "\<And>s r s'. m s = (r, s') \<Longrightarrow> finished r \<Longrightarrow> R s s'"
  shows "guar A I R m"
proof (rule guarI)
  fix s assume "I s"
  with assms(1) have "wp A m (\<lambda>_ _. True) (\<lambda>_ _. True) s" unfolding guar_def by (blast intro: wp_conseq)
  with assms(2) [of s] show "wp A m (\<lambda>_. R\<^sup>*\<^sup>* s) (\<lambda>_. R\<^sup>*\<^sup>* s) s"
    by (cases "m s") (auto simp: wp_def split: outcome.splits)
qed

lemma user_code_by_steps:
  assumes "user_code A I R env" and "\<And>s s'. I s \<Longrightarrow> step s s' \<Longrightarrow> I s'"
    and "\<And>s s'. R s s' \<Longrightarrow> I s \<Longrightarrow> step\<^sup>*\<^sup>* s s'"
  shows "user_code A I step env"
proof -
  have "guar A I step m" if "guar A I R m" for m :: "('a, unit) comp" using that assms(2,3) by (rule guar_by_steps)
  moreover have "guar A I step m" if "guar A I R m" for m :: "('a, waker) comp" using that assms(2,3) by (rule guar_by_steps)
  ultimately show ?thesis using assms(1) unfolding user_code_def by blast
qed

lemma admissible_by_steps:
  assumes "admissible A I R env" and "\<And>s s'. I s \<Longrightarrow> step s s' \<Longrightarrow> I s'"
    and "\<And>s s'. R s s' \<Longrightarrow> I s \<Longrightarrow> step\<^sup>*\<^sup>* s s'"
  shows "admissible A I step env"
  using assms(1) user_code_by_steps [OF _ assms(2,3)] by (auto simp: admissible_def)

text \<open>An environment whose callbacks do nothing, for concrete runs.\<close>

definition quiet_env :: "bool \<Rightarrow> ('s, 't) env" where
  "quiet_env b = \<lparr>std = b, fuel = 2, wake_cb = \<lambda>_. ret (), wake_ref_cb = \<lambda>_. ret (), clone_cb = \<lambda>w. ret w,
     drop_cb = \<lambda>_. ret (), item_drop_cb = \<lambda>_. ret (), payload_drop_cb = \<lambda>_. ret ()\<rparr>"

lemma user_code_quiet: "user_code A I R (quiet_env b)"
  by (simp add: user_code_def guar_def quiet_env_def wp_simps)

lemma admissible_quiet: "OutOfMemory \<in> A \<Longrightarrow> admissible A I R (quiet_env True)"
  by (simp add: admissible_def isolates_def calm_payloads_def user_code_quiet) (simp add: quiet_env_def wp_simps)

lemma admissible_wake_cb:
  assumes "admissible A I R env" and "\<And>w. guar A I R (f w)"
  shows "admissible A I R (env\<lparr>wake_cb := f\<rparr>)"
  using assms by (auto simp: admissible_def user_code_def isolates_def calm_payloads_def split: if_splits)

text \<open>The clone of a waker wakes the same task: wakers are identified by the task they wake.\<close>

definition same_clones :: "('s, 't) env \<Rightarrow> bool" where
  "same_clones env \<longleftrightarrow> (\<forall>w s v s'. clone_cb env w s = (Ret v, s') \<longrightarrow> v = w)"

lemma clones_quiet: "same_clones (quiet_env b)"
  by (simp add: same_clones_def quiet_env_def ret_def)

lemma wp_clone_same:
  assumes "wp A (clone_waker env w) (\<lambda>_. P) E s"
  shows "wp A (clone_waker env w) (\<lambda>v s'. (same_clones env \<longrightarrow> v = w) \<and> P s') E s"
  using assms by (auto simp: wp_def clone_waker_def emit_def comp_eval same_clones_def split: prod.splits outcome.splits)

definition new_log :: "('t, 'z) world_scheme \<Rightarrow> ('t, 'z) world_scheme \<Rightarrow> 't event list" where
  "new_log s s' = drop (length (log s)) (log s')"

definition all_woken :: "(u64 \<times> waker) list \<Rightarrow> 't event list \<Rightarrow> bool" where
  "all_woken ws es \<longleftrightarrow> (\<forall>(i, w) \<in> set ws. Woke w \<in> set es)"

text \<open>
  The interface of a channel's step relation to the code that calls wakers: steps only append to
  the log, and recording an event other than a push or a pop is a step.
\<close>

locale channel_steps = step_system inv step
  for inv :: "('t, 'z) world_scheme \<Rightarrow> bool" and step :: "('t, 'z) world_scheme \<Rightarrow> ('t, 'z) world_scheme \<Rightarrow> bool" +
  assumes step_log: "step s s' \<Longrightarrow> \<exists>es. log s' = log s @ es"
    and step_emit: "neutral e \<Longrightarrow> step s (s\<lparr>log := log s @ [e]\<rparr>)"
begin

lemma steps_log: "step\<^sup>*\<^sup>* s s' \<Longrightarrow> log s' = log s @ new_log s s'"
proof -
  assume "step\<^sup>*\<^sup>* s s'"
  then have "\<exists>es. log s' = log s @ es"
    by (induction rule: rtranclp_induct) (auto dest!: step_log)
  then show ?thesis by (auto simp: new_log_def)
qed

lemma new_log_trans:
  assumes "step\<^sup>*\<^sup>* s t" and "step\<^sup>*\<^sup>* t u"
  shows "new_log s u = new_log s t @ new_log t u"
proof -
  have "log u = log s @ new_log s t @ new_log t u"
    using steps_log [OF assms(1)] steps_log [OF assms(2)] by simp
  then show ?thesis by (simp add: new_log_def [of s u])
qed

lemma new_log_mono:
  assumes "step\<^sup>*\<^sup>* s t" and "step\<^sup>*\<^sup>* t u"
  shows "set (new_log s t) \<subseteq> set (new_log s u)" and "set (new_log t u) \<subseteq> set (new_log s u)"
  by (simp_all add: new_log_trans [OF assms])

lemma guar_emit: "neutral e \<Longrightarrow> guar A inv step (emit e)"
  by (auto simp: guar_def wp_simps intro: step_emit)

lemma user_codeD:
  assumes "user_code A inv step env"
  shows "guar A inv step (wake_cb env w)" and "guar A inv step (wake_ref_cb env w)"
    and "guar A inv step (clone_cb env w)" and "guar A inv step (drop_cb env w)"
    and "guar A inv step (item_drop_cb env x)" and "guar A inv step (payload_drop_cb env p)"
  using assms by (auto simp: user_code_def)

lemma guar_user:
  assumes "user_code A inv step env"
  shows "guar A inv step (wake env w)" and "guar A inv step (wake_by_ref env w)"
    and "guar A inv step (clone_waker env w)" and "guar A inv step (drop_waker env w)"
    and "guar A inv step (drop_item env x)" and "guar A inv step (drop_panic_payload env p)"
    and "guar A inv step (drop_waker_option env v)"
proof -
  note user_codeD [OF assms]
  note [intro!] = this guar_thenM guar_emit
  show "guar A inv step (wake env w)" by (auto simp: wake_def)
  show "guar A inv step (wake_by_ref env w)" by (auto simp: wake_by_ref_def)
  show "guar A inv step (clone_waker env w)" by (auto simp: clone_waker_def)
  show "guar A inv step (drop_item env x)" by (auto simp: drop_item_def)
  show drop: "guar A inv step (drop_waker env w)" for w by (auto simp: drop_waker_def)
  show "guar A inv step (drop_panic_payload env p)"
    unfolding drop_panic_payload_def
    by (intro guar_bindM guar_catch_unwind) (auto intro: guar_ret split: sum.splits)
  show "guar A inv step (drop_waker_option env v)"
    using drop by (auto simp: drop_waker_option_def intro: guar_ret split: option.splits)
qed

lemma guar_for_each:
  "(\<And>x. x \<in> set xs \<Longrightarrow> guar A inv step (f x)) \<Longrightarrow> guar A inv step (for_each f xs)"
  by (induction xs) (auto intro: guar_intros)

lemma wp_drop_panic_payload_calm:
  assumes "user_code A inv step env" and "calm_payloads A env" and "inv s"
  shows "wp A (drop_panic_payload env p) (\<lambda>_ s'. step\<^sup>*\<^sup>* s s') (\<lambda>_ _. False) s"
proof -
  have "wp A (drop_panic_payload env p) (\<lambda>_ _. True) (\<lambda>_ _. False) s"
    using assms(2) by (simp add: drop_panic_payload_def wp_simps calm_payloads_def)
  moreover have "wp A (drop_panic_payload env p) (\<lambda>_. step\<^sup>*\<^sup>* s) (\<lambda>_. step\<^sup>*\<^sup>* s) s"
    using guar_user(6) [OF assms(1)] assms(3) by (simp add: guar_def)
  ultimately have "wp A (drop_panic_payload env p) (\<lambda>_ s'. True \<and> step\<^sup>*\<^sup>* s s')
      (\<lambda>_ s'. False \<and> step\<^sup>*\<^sup>* s s') s" by (rule wp_conj)
  then show ?thesis by simp
qed

lemma wp_wake:
  assumes u: "user_code A inv step env" and s: "inv s"
    and Q: "\<And>x s'. step\<^sup>*\<^sup>* s s' \<Longrightarrow> inv s' \<Longrightarrow> Woke w \<in> set (new_log s s') \<Longrightarrow> Q x s'"
    and E: "\<And>p s'. step\<^sup>*\<^sup>* s s' \<Longrightarrow> inv s' \<Longrightarrow> Woke w \<in> set (new_log s s') \<Longrightarrow> E p s'"
  shows "wp A (wake env w) Q E s"
proof -
  let ?t = "s\<lparr>log := log s @ [Woke w]\<rparr>"
  have t: "step\<^sup>*\<^sup>* s ?t" "inv ?t" using step_emit [of "Woke w"] inv_step s by auto
  have since: "step\<^sup>*\<^sup>* s s'" "Woke w \<in> set (new_log s s')" if "step\<^sup>*\<^sup>* ?t s'" for s'
    using new_log_trans [OF t(1) that] t(1) that by (auto simp: new_log_def)
  show ?thesis
    unfolding wake_def wp_simps
  proof (rule guar_wp [OF user_codeD(1) [OF u] t(2)])
    fix x s' assume "step\<^sup>*\<^sup>* ?t s'" and "inv s'"
    then show "Q x s'" by (intro Q since)
  next
    fix p s' assume "step\<^sup>*\<^sup>* ?t s'" and "inv s'"
    then show "E p s'" by (intro E since)
  qed
qed

lemma wake_all_std_wakes:
  assumes u: "user_code A inv step env" and c: "calm_payloads A env" and s: "inv s"
  shows "wp A (wake_all_std env ws first)
    (\<lambda>_ s'. step\<^sup>*\<^sup>* s s' \<and> all_woken ws (new_log s s')) (\<lambda>_ s'. step\<^sup>*\<^sup>* s s' \<and> all_woken ws (new_log s s')) s"
  using s
proof (induction ws arbitrary: first s)
  case Nil
  then show ?case by (cases first) (auto simp: wp_simps all_woken_def)
next
  case (Cons iw ws)
  obtain i w where iw: "iw = (i, w)" by fastforce
  let ?Q = "\<lambda>s'. step\<^sup>*\<^sup>* s s' \<and> all_woken (iw # ws) (new_log s s')"
  have rest: "wp A (wake_all_std env ws f) (\<lambda>_. ?Q) (\<lambda>_. ?Q) t"
    if t: "step\<^sup>*\<^sup>* s t" "inv t" "Woke w \<in> set (new_log s t)" for t f
  proof -
    have "?Q u" if "step\<^sup>*\<^sup>* t u \<and> all_woken ws (new_log t u)" for u
      using that t new_log_mono [OF t(1), of u] by (auto simp: all_woken_def iw)
    then show ?thesis by (intro wp_conseq [OF Cons.IH [OF t(2)]])
  qed
  show ?case
    unfolding iw wake_all_std.simps wp_simps
  proof (rule wp_wake [OF u Cons.prems], goal_cases)
    case (1 t)
    with rest show ?case by (simp add: iw)
  next
    case (2 p t)
    show ?case
    proof (cases first)
      case None
      with 2 rest show ?thesis by (simp add: iw)
    next
      case (Some q)
      have later: "wp A (wake_all_std env ws (Some q)) (\<lambda>_. ?Q) (\<lambda>_. ?Q) u" if "step\<^sup>*\<^sup>* t u" for u
        using that 2 inv_steps new_log_mono(1) [OF 2(1) that] by (intro rest) auto
      show ?thesis
        unfolding Some sum.case option.case wp_simps
        by (rule wp_conseq [OF wp_drop_panic_payload_calm [OF u c 2(2)]])
          (use later in \<open>auto simp: iw\<close>)
    qed
  qed
qed

lemma for_each_wakes:
  assumes u: "user_code A inv step env" and s: "inv s"
  shows "wp A (for_each (\<lambda>(j, v). wake env v) ws)
    (\<lambda>_ s'. step\<^sup>*\<^sup>* s s' \<and> all_woken ws (new_log s s')) (\<lambda>_ s'. step\<^sup>*\<^sup>* s s') s"
  using s
proof (induction ws arbitrary: s)
  case Nil
  then show ?case by (simp add: wp_simps all_woken_def)
next
  case (Cons iw ws)
  obtain i w where iw: "iw = (i, w)" by fastforce
  show ?case
    unfolding iw for_each.simps prod.case wp_simps
  proof (rule wp_wake [OF u Cons.prems])
    fix t assume t: "step\<^sup>*\<^sup>* s t" "inv t" "Woke w \<in> set (new_log s t)"
    have "step\<^sup>*\<^sup>* s r \<and> all_woken ((i, w) # ws) (new_log s r)"
      if "step\<^sup>*\<^sup>* t r \<and> all_woken ws (new_log t r)" for r
      using that t new_log_mono [OF t(1), of r] by (auto simp: all_woken_def)
    then show "wp A (for_each (\<lambda>(j, v). wake env v) ws)
        (\<lambda>_ s'. step\<^sup>*\<^sup>* s s' \<and> all_woken ((i, w) # ws) (new_log s s')) (\<lambda>_ s'. step\<^sup>*\<^sup>* s s') t"
      using t(1) by (intro wp_conseq [OF Cons.IH [OF t(2)]]) auto
  qed
qed

lemma wake_all_no_std_wakes:
  assumes u: "user_code A inv step env" and d: "DoublePanic \<in> A" and s: "inv s"
  shows "wp A (wake_all_no_std env ws)
    (\<lambda>_ s'. step\<^sup>*\<^sup>* s s' \<and> all_woken ws (new_log s s')) (\<lambda>_ s'. step\<^sup>*\<^sup>* s s' \<and> all_woken ws (new_log s s')) s"
  using s
proof (induction ws arbitrary: s)
  case Nil
  then show ?case by (simp add: wp_simps all_woken_def)
next
  case (Cons iw ws)
  obtain i w where iw: "iw = (i, w)" by fastforce
  let ?Q = "\<lambda>s'. step\<^sup>*\<^sup>* s s' \<and> all_woken ((i, w) # ws) (new_log s s')"
  show ?case
    unfolding iw wake_all_no_std.simps wp_simps
  proof (rule wp_wake [OF u Cons.prems])
    fix t assume t: "step\<^sup>*\<^sup>* s t" "inv t" "Woke w \<in> set (new_log s t)"
    have Q: "?Q r" if "step\<^sup>*\<^sup>* t r \<and> all_woken ws (new_log t r)" for r
      using that t new_log_mono [OF t(1), of r] by (auto simp: all_woken_def)
    then show "wp A (wake_all_no_std env ws) (\<lambda>_. ?Q) (\<lambda>_. ?Q) t"
      by (intro wp_conseq [OF Cons.IH [OF t(2)]])
    have "all_woken (rev ws) es = all_woken ws es" for es :: "'t event list"
      by (simp add: all_woken_def)
    with Q d show "wp A (for_each (\<lambda>(j, v). wake env v) (rev ws)) (\<lambda>_. ?Q) (\<lambda>_ _. DoublePanic \<in> A) t"
      by (intro wp_conseq [OF for_each_wakes [OF u t(2)]]) auto
  qed
qed

lemma wake_all_wakes:
  assumes "user_code A inv step env" and "isolates A env" and "inv s"
  shows "wp A (wake_all env ws)
    (\<lambda>_ s'. step\<^sup>*\<^sup>* s s' \<and> all_woken ws (new_log s s')) (\<lambda>_ s'. step\<^sup>*\<^sup>* s s' \<and> all_woken ws (new_log s s')) s"
proof (cases "std env")
  case True
  with assms show ?thesis
    using wake_all_std_wakes by (simp add: wake_all_def isolates_def)
next
  case False
  with assms wake_all_no_std_wakes [of A env s "rev ws"] show ?thesis
    by (simp add: wake_all_def isolates_def all_woken_def)
qed

lemma guar_wake_all:
  assumes "user_code A inv step env" and "isolates A env"
  shows "guar A inv step (wake_all env ws)"
  unfolding guar_def
proof (intro allI impI)
  fix s assume "inv s"
  then show "wp A (wake_all env ws) (\<lambda>_. step\<^sup>*\<^sup>* s) (\<lambda>_. step\<^sup>*\<^sup>* s) s"
    by (intro wp_conseq [OF wake_all_wakes [OF assms]]) auto
qed

end

end
