(* ===== verification/Chan_Core.thy ===== *)
theory Chan_Core
  imports Flavor Wakers
begin

text \<open>
  What the \<open>Chan\<close> of \<open>src/mpsc/chan.rs\<close> and the \<open>Chan\<close> of \<open>src/mpmc/chan.rs\<close> have in common, field
  for field and function for function: the queue, the sender count, the closed flag and the list
  of parked senders. The two channels extend this record.

  The state also carries \<open>usr\<close>, everything outside the channel that user code can reach.
\<close>

section \<open>State\<close>

record ('t, 'u) core = "'t world" +
  flavor :: "'t flavor"
  senders :: usize
  closed :: bool
  send_wakers :: "(u64 \<times> waker) list"
  next_send_id :: u64
  usr :: 'u

abbreviation queue :: "('t, 'u, 'z) core_scheme \<Rightarrow> 't list" where
  "queue s \<equiv> flavor_list (flavor s)"

abbreviation capacity :: "('t, 'u, 'z) core_scheme \<Rightarrow> nat option" where
  "capacity s \<equiv> flavor_capacity (flavor s)"

abbreviation at_capacity :: "('t, 'u, 'z) core_scheme \<Rightarrow> bool" where
  "at_capacity s \<equiv> capacity s = Some (length (queue s))"

section \<open>Operations\<close>

definition chan_cap :: "(('t, 'u, 'z) core_scheme, usize option) comp" where
  "chan_cap = borrow FlavorCell (gets (\<lambda>s. flavor_cap (flavor s)))"

definition chan_len :: "(('t, 'u, 'z) core_scheme, usize) comp" where
  "chan_len = borrow FlavorCell (gets (\<lambda>s. flavor_len (flavor s)))"

definition chan_is_empty :: "(('t, 'u, 'z) core_scheme, bool) comp" where
  "chan_is_empty = borrow FlavorCell (gets (\<lambda>s. flavor_is_empty (flavor s)))"

definition chan_is_full :: "(('t, 'u, 'z) core_scheme, bool) comp" where
  "chan_is_full = borrow FlavorCell (gets (\<lambda>s. flavor_is_full (flavor s)))"

definition incr_senders :: "(('t, 'u, 'z) core_scheme, unit) comp" where
  "incr_senders = modify (\<lambda>s. s\<lparr>senders := senders s + 1\<rparr>)"

definition decr_senders :: "(('t, 'u, 'z) core_scheme, usize) comp" where
  "decr_senders = bindM (gets senders) (\<lambda>n. thenM (modify (\<lambda>s. s\<lparr>senders := n - 1\<rparr>)) (ret n))"

text \<open>The queue operations behind the borrow of the \<open>flavor\<close> cell. The events are ghosts.\<close>

definition flavor_mut :: "('t flavor, 'a) comp \<Rightarrow> (('t, 'u, 'z) core_scheme, 'a) comp" where
  "flavor_mut m = borrow_mut FlavorCell (zoom flavor flavor_update m)"

definition chan_try_push :: "'t \<Rightarrow> (('t, 'u, 'z) core_scheme, 't + unit) comp" where
  "chan_try_push x = bindM (flavor_mut (flavor_try_push x)) (\<lambda>r. case r of
     Inl y \<Rightarrow> ret (Inl y)
   | Inr _ \<Rightarrow> thenM (emit (Pushed x)) (ret (Inr ())))"

definition chan_pop :: "(('t, 'u, 'z) core_scheme, 't option) comp" where
  "chan_pop = bindM (flavor_mut flavor_pop) (\<lambda>r. case r of
     None \<Rightarrow> ret None
   | Some x \<Rightarrow> thenM (emit (Popped x)) (ret (Some x)))"

text \<open>Parked senders. The waker is cloned, and a removed one dropped, outside the borrow.\<close>

type_synonym ('t, 'u, 'z) cenv = "(('t, 'u, 'z) core_scheme, 't) env"

definition add_send_waker :: "('t, 'u, 'z) cenv \<Rightarrow> waker \<Rightarrow> (('t, 'u, 'z) core_scheme, u64) comp" where
  "add_send_waker env w = bindM (clone_waker env w) (\<lambda>v.
     bindM (gets next_send_id) (\<lambda>i.
     thenM (modify (\<lambda>s. s\<lparr>next_send_id := i + 1\<rparr>))
    (thenM (borrow_mut SendWakersCell (modify (\<lambda>s. s\<lparr>send_wakers := send_wakers s @ [(i, v)]\<rparr>)))
    (thenM (emit (SendParked i))
           (ret i)))))"

definition remove_send_waker :: "('t, 'u, 'z) cenv \<Rightarrow> u64 \<Rightarrow> (('t, 'u, 'z) core_scheme, unit) comp" where
  "remove_send_waker env i = bindM
     (borrow_mut SendWakersCell (\<lambda>s. case registry_remove i (send_wakers s) of
        (r, ws) \<Rightarrow> (Ret r, s\<lparr>send_wakers := ws, log := log s @ (if r = None then [] else [SendWithdrawn i])\<rparr>)))
     (drop_waker_option env)"

definition has_parked_senders :: "(('t, 'u, 'z) core_scheme, bool) comp" where
  "has_parked_senders = borrow SendWakersCell (gets (\<lambda>s. send_wakers s \<noteq> []))"

definition take_send_wakers :: "(('t, 'u, 'z) core_scheme, (u64 \<times> waker) list) comp" where
  "take_send_wakers = borrow_mut SendWakersCell (\<lambda>s. (Ret (send_wakers s), s\<lparr>send_wakers := []\<rparr>))"

definition wake_senders :: "('t, 'u, 'z) cenv \<Rightarrow> (('t, 'u, 'z) core_scheme, unit) comp" where
  "wake_senders env = bindM has_parked_senders (\<lambda>parked.
     if \<not> parked then ret () else bindM take_send_wakers (wake_all env))"

text \<open>
  The body of \<open>close\<close>, once the flag is set: wake both halves, the receivers' side by \<open>m\<close>. With \<open>std\<close> both
  phases are caught and the first panic is resumed; without, a guard wakes the senders when \<open>m\<close>
  unwinds.
\<close>

definition wake_both :: "('t, 'u, 'z) cenv \<Rightarrow> (('t, 'u, 'z) core_scheme, unit) comp \<Rightarrow> (('t, 'u, 'z) core_scheme, unit) comp" where
  "wake_both env m = (if std env then
        bindM (catch_unwind m) (\<lambda>r.
        bindM (catch_unwind (wake_senders env)) (\<lambda>s.
          case r of
            Inl p \<Rightarrow> (case s of
                Inl q \<Rightarrow> thenM (on_unwind (payload_drop_cb env p) (drop_panic_payload env q)) (panic p)
              | Inr _ \<Rightarrow> panic p)
          | Inr _ \<Rightarrow> (case s of Inl q \<Rightarrow> panic q | Inr _ \<Rightarrow> ret ())))
      else thenM (on_unwind (wake_senders env) m) (wake_senders env))"

section \<open>The operations on an idle channel\<close>

text \<open>
  When no cell is borrowed the borrow scopes disappear. Every operation but the calls of user code
  is then a plain state update.
\<close>

lemma flag_free_gets:
  "(\<And>s b. f (s\<lparr>borrows := b\<rparr>) = f s) \<Longrightarrow> flag_free (gets f)"
  by (simp add: flag_free_def gets_def)

lemma borrow_gets:
  assumes "idle s" and "\<And>s b. f (s\<lparr>borrows := b\<rparr>) = f s"
  shows "borrow c (gets f) s = (Ret (f s), s)"
  using borrow_flag_free [OF flag_free_gets [of f], of s c] assms by (simp add: gets_def)

lemma flavor_mut_idle:
  assumes "idle s"
  shows "flavor_mut m s = (case m (flavor s) of (r, q) \<Rightarrow> (r, s\<lparr>flavor := q\<rparr>))"
proof -
  show ?thesis
    unfolding flavor_mut_def
    by (subst borrow_mut_flag_free) (use assms in \<open>auto simp: zoom_def intro!: flag_freeI split: prod.splits\<close>)
qed

lemma wp_borrow_gets:
  assumes "idle s" and "\<And>s b. f (s\<lparr>borrows := b\<rparr>) = f s"
  shows "wp A (borrow c (gets f)) Q E s = Q (f s) s"
  using borrow_gets [of s f c] assms by (simp add: wp_def)

lemma wp_chan_cap: "idle s \<Longrightarrow> wp A chan_cap Q E s = Q (flavor_cap (flavor s)) s"
  unfolding chan_cap_def by (simp add: wp_borrow_gets)

lemma wp_chan_len: "idle s \<Longrightarrow> wp A chan_len Q E s = Q (flavor_len (flavor s)) s"
  unfolding chan_len_def by (simp add: wp_borrow_gets)

lemma wp_chan_is_empty: "idle s \<Longrightarrow> wp A chan_is_empty Q E s = Q (flavor_is_empty (flavor s)) s"
  unfolding chan_is_empty_def by (simp add: wp_borrow_gets)

lemma wp_chan_is_full: "idle s \<Longrightarrow> wp A chan_is_full Q E s = Q (flavor_is_full (flavor s)) s"
  unfolding chan_is_full_def by (simp add: wp_borrow_gets)

lemma wp_has_parked_senders: "idle s \<Longrightarrow> wp A has_parked_senders Q E s = Q (send_wakers s \<noteq> []) s"
  unfolding has_parked_senders_def by (simp add: wp_borrow_gets)

lemma wp_take_send_wakers:
  assumes "idle s"
  shows "wp A take_send_wakers Q E s = Q (send_wakers s) (s\<lparr>send_wakers := []\<rparr>)"
  unfolding take_send_wakers_def
  by (subst wp_borrow_mut) (use assms in \<open>auto intro!: flag_freeI simp: wp_def\<close>)

lemma wp_chan_try_push:
  assumes s: "idle s" and q: "flavor_inv (flavor s)" and A: "OutOfMemory \<in> A"
    and full: "at_capacity s \<Longrightarrow> Q (Inl x) s"
    and room: "\<And>f. \<not> at_capacity s \<Longrightarrow> flavor_inv f \<Longrightarrow> flavor_list f = queue s @ [x]
      \<Longrightarrow> flavor_capacity f = capacity s \<Longrightarrow> Q (Inr ()) (s\<lparr>flavor := f, log := log s @ [Pushed x]\<rparr>)"
  shows "wp A (chan_try_push x) Q E s"
proof (rule flavor.push_cases [OF q, where x = x], goal_cases)
  case 1
  with assms(4) show ?thesis
    by (simp add: wp_def chan_try_push_def bindM_def flavor_mut_idle [OF s] ret_def)
next
  case (2 f)
  with assms(5) [of f] show ?thesis
    by (simp add: wp_def chan_try_push_def flavor_mut_idle [OF s] emit_def comp_eval)
next
  case (3 a f)
  with A show ?thesis
    by (simp add: wp_def chan_try_push_def bindM_def flavor_mut_idle [OF s])
qed

lemma wp_flavor_pop:
  assumes s: "idle s" and q: "flavor_inv (flavor s)"
    and empty: "queue s = [] \<Longrightarrow> Q None s"
    and item: "\<And>x xs f. queue s = x # xs \<Longrightarrow> flavor_inv f \<Longrightarrow> flavor_list f = xs
      \<Longrightarrow> flavor_capacity f = capacity s \<Longrightarrow> Q (Some x) (s\<lparr>flavor := f\<rparr>)"
  shows "wp A (flavor_mut flavor_pop) Q E s"
proof (rule flavor.pop_cases [OF q], goal_cases)
  case 1
  with assms(3) show ?thesis by (simp add: wp_def flavor_mut_idle [OF s])
next
  case (2 x xs f)
  with assms(4) [of x xs f] show ?thesis by (simp add: wp_def flavor_mut_idle [OF s])
qed

lemma wp_chan_pop:
  assumes "idle s" and "flavor_inv (flavor s)" and "queue s = [] \<Longrightarrow> Q None s"
    and "\<And>x xs f. queue s = x # xs \<Longrightarrow> flavor_inv f \<Longrightarrow> flavor_list f = xs
      \<Longrightarrow> flavor_capacity f = capacity s \<Longrightarrow> Q (Some x) (s\<lparr>flavor := f, log := log s @ [Popped x]\<rparr>)"
  shows "wp A chan_pop Q E s"
  unfolding chan_pop_def wp_simps by (rule wp_flavor_pop) (use assms in auto)

text \<open>Removing a registration; what was on the list under that id is gone, and the log says so.\<close>

definition withdraw_send :: "u64 \<Rightarrow> ('t, 'u, 'z) core_scheme \<Rightarrow> ('t, 'u, 'z) core_scheme" where
  "withdraw_send i s = s\<lparr>send_wakers := snd (registry_remove i (send_wakers s)),
     log := log s @ (if fst (registry_remove i (send_wakers s)) = None then [] else [SendWithdrawn i])\<rparr>"

lemma withdraw_send_simps [simp]:
  "borrows (withdraw_send i s) = borrows s" "flavor (withdraw_send i s) = flavor s"
  "senders (withdraw_send i s) = senders s" "closed (withdraw_send i s) = closed s"
  "send_wakers (withdraw_send i s) = snd (registry_remove i (send_wakers s))"
  "next_send_id (withdraw_send i s) = next_send_id s" "usr (withdraw_send i s) = usr s"
  "pushed (log (withdraw_send i s)) = pushed (log s)" "popped (log (withdraw_send i s)) = popped (log s)"
  "send_parks (log (withdraw_send i s)) = send_parks (log s)" "core.more (withdraw_send i s) = core.more s"
  "idle (withdraw_send i s) = idle s"
  by (simp_all add: withdraw_send_def idle_def)

lemma withdraw_send_log: "\<exists>es. log (withdraw_send i s) = log s @ es"
  by (simp add: withdraw_send_def)

lemma withdraw_send_keeps:
  assumes "(j, w) \<in> set (send_wakers s)"
  shows "(j, w) \<in> set (send_wakers (withdraw_send i s)) \<or> SendWithdrawn j \<in> set (new_log s (withdraw_send i s))"
  using registry_remove_keeps [OF assms, of i] by (auto simp: withdraw_send_def new_log_def)

lemma wp_remove_send_waker:
  assumes "idle s"
  shows "wp A (remove_send_waker env i) Q E s =
    wp A (drop_waker_option env (fst (registry_remove i (send_wakers s)))) Q E
      (withdraw_send i s)"
proof -
  let ?m = "\<lambda>s :: ('a, 'b, 'c) core_scheme. case registry_remove i (send_wakers s) of
    (r, ws) \<Rightarrow> (Ret r :: waker option outcome, s\<lparr>send_wakers := ws, log := log s @ (if r = None then [] else [SendWithdrawn i])\<rparr>)"
  have "?m s = (Ret (fst (registry_remove i (send_wakers s))), withdraw_send i s)"
    by (simp add: withdraw_send_def split: prod.splits)
  moreover have "flag_free ?m" by (rule flag_freeI) (simp split: prod.splits)
  ultimately show ?thesis
    unfolding remove_send_waker_def wp_simps using assms by (simp add: wp_borrow_mut wp_Ret_eq)
qed

lemma wp_push_send_waker:
  assumes "idle s"
  shows "wp A (borrow_mut SendWakersCell (modify (\<lambda>s. s\<lparr>send_wakers := send_wakers s @ [e]\<rparr>))) Q E s
    = Q () (s\<lparr>send_wakers := send_wakers s @ [e]\<rparr>)"
  by (subst wp_borrow_mut) (use assms in \<open>auto intro!: flag_freeI simp: modify_def wp_def\<close>)

lemma wp_wake_senders:
  assumes "idle s"
  shows "wp A (wake_senders env) Q E s = (if send_wakers s = [] then Q () s
    else wp A (wake_all env (send_wakers s)) Q E (s\<lparr>send_wakers := []\<rparr>))"
  using assms by (simp add: wake_senders_def wp_simps wp_has_parked_senders wp_take_send_wakers)

lemma idle_core_update [simp]:
  "idle (s\<lparr>flavor := f\<rparr>) = idle s" "idle (s\<lparr>senders := n\<rparr>) = idle s" "idle (s\<lparr>closed := b\<rparr>) = idle s"
  "idle (s\<lparr>send_wakers := ws\<rparr>) = idle s" "idle (s\<lparr>next_send_id := i\<rparr>) = idle s" "idle (s\<lparr>usr := u\<rparr>) = idle s"
  by (simp_all add: idle_def)

end
