(* ===== verification/Storage_Theorems.thy ===== *)
theory Storage_Theorems
  imports Flavor Chan_Core
begin

text \<open>
  The properties of the parts that both channels share: the two queues, the cells, and the code that
  wakes a list of wakers.
\<close>

section \<open>Queues\<close>

text \<open>
  C15. The ring buffer refines a bounded queue. Any history of pushes and pops on a fresh ring of
  capacity \<open>cap\<close> gives exactly the results it gives on a list that holds at most \<open>cap\<close> items, and
  leaves the same items. No index leaves the buffer, no uninitialised slot is read, and the sums of
  the index arithmetic do not wrap, for every capacity up to \<open>2 ^ 63\<close>.
\<close>

theorem ring_refines_queue:
  assumes "0 < unat cap" and "unat cap \<le> 2 ^ 63"
  shows "wp {} (run_queue ring_push ring_pop ops)
    (\<lambda>rs r. (rs, ring_list r) = spec_queue (Some (unat cap)) ops [] \<and> ring_inv r) (\<lambda>_ _. False) (ring_with_capacity cap)"
  by (rule wp_conseq [OF ring.run_refines [OF ring_with_capacity_inv(1) [OF assms]]])
    (simp_all add: ring_capacity_def ring_with_capacity_inv [OF assms])

theorem ring_refines_queue_witness:
  "wp {} (run_queue ring_push ring_pop [Push 4, Push 5, Push 6, Pop, Push (7 :: nat), Pop, Pop, Pop])
    (\<lambda>rs r. rs = [PushRes (Inr ()), PushRes (Inr ()), PushRes (Inl 6), PopRes (Some 4), PushRes (Inr ()),
       PopRes (Some 5), PopRes (Some 7), PopRes None]) (\<lambda>_ _. False) (ring_with_capacity 2)"
  by (rule wp_conseq [OF ring_refines_queue]) simp_all

text \<open>
  C16. The segmented list refines an unbounded queue, whatever addresses the allocator returns. Any
  history of pushes and pops on a fresh list of blocks of size \<open>n\<close> either runs out of memory or gives
  exactly the results it gives on a list. No freed block is touched, no uninitialised slot is read,
  and the loop in \<open>pop\<close> ends.
\<close>

theorem block_list_refines_queue:
  assumes "0 < unat n" and "unat n \<le> 64" and "allocator_ok f" and "block_list_new n f = Ret l"
  shows "wp {OutOfMemory} (run_queue (block_list_try_push n) block_list_pop ops)
    (\<lambda>rs l'. (rs, block_list_list l') = spec_queue None ops [] \<and> block_list_inv n l') (\<lambda>_ _. False) l"
proof -
  have new: "block_list_inv n l" "block_list_list l = []"
    using block_list_new_spec [OF assms(1-3), where 't = 'a] assms(4) by auto
  show ?thesis
    by (rule wp_conseq [OF block_list.run_refines [OF new(1)]]) (use new in simp_all)
qed

text \<open>An allocator that hands out fresh addresses, and fails when eight blocks are live.\<close>

definition bump_alloc :: allocator where
  "bump_alloc k live = (if length live < 8 then Some (Suc (fold max live 0)) else None)"

lemma fold_max_bound:
  fixes b :: nat
  shows "b \<le> fold max xs b \<and> (\<forall>x \<in> set xs. x \<le> fold max xs b)"
proof (induction xs arbitrary: b)
  case (Cons a xs)
  show ?case using Cons.IH [of "max a b"] by auto
qed simp

lemma bump_alloc_ok: "allocator_ok bump_alloc"
  using fold_max_bound [of 0] by (fastforce simp: allocator_ok_def bump_alloc_def split: if_splits)

definition fresh_list :: "nat block_list" where
  "fresh_list = \<lparr>bl_head = 1, bl_tail = 1, bl_len = 0,
     bl_heap = \<lparr>cells = [(1, fresh_block 2)], allocs = 1, alloc_fn = bump_alloc\<rparr>\<rparr>"

lemma fresh_list_new: "block_list_new 2 bump_alloc = Ret fresh_list"
  by (simp add: block_list_new_def block_alloc_def empty_heap_def bump_alloc_def fresh_list_def)

theorem block_list_refines_queue_witness:
  "wp {OutOfMemory} (run_queue (block_list_try_push 2) block_list_pop [Push 4, Push 5, Push 6, Pop, Pop, Pop, Pop])
    (\<lambda>rs l. rs = [PushRes (Inr ()), PushRes (Inr ()), PushRes (Inr ()), PopRes (Some 4), PopRes (Some 5),
       PopRes (Some 6), PopRes None]) (\<lambda>_ _. False) fresh_list"
  by (rule wp_conseq [OF block_list_refines_queue [OF _ _ bump_alloc_ok fresh_list_new]]) simp_all

text \<open>A list of three blocks, the first of them partly read.\<close>

definition three_blocks :: "nat block_list" where
  "three_blocks = snd (run_queue (block_list_try_push 2) block_list_pop [Push 4, Push 5, Push 6, Push 7, Push 8, Pop] fresh_list)"

lemma three_blocks_inv: "block_list_inv 2 three_blocks"
proof -
  let ?ops = "[Push 4, Push 5, Push 6, Push 7, Push 8, Pop]"
  have new: "block_list_inv 2 fresh_list"
    using block_list_new_spec [OF _ _ bump_alloc_ok, of 2, where 't = nat] fresh_list_new by auto
  obtain o' l where run: "run_queue (block_list_try_push 2) block_list_pop ?ops fresh_list = (o', l)" by (metis surj_pair)
  have "fst (run_queue (block_list_try_push 2) block_list_pop ?ops fresh_list)
    = Ret [PushRes (Inr ()), PushRes (Inr ()), PushRes (Inr ()), PushRes (Inr ()), PushRes (Inr ()), PopRes (Some 4)]"
    by code_simp
  with run wp_RetD [OF block_list.run_refines [OF new, of ?ops]] show ?thesis
    by (simp add: three_blocks_def)
qed

text \<open>
  C37. Memory tracks live usage. After any history of pushes and pops on a fresh list of blocks of size
  \<open>n\<close>, the number of live blocks is bounded by the number of items that the history leaves queued: every
  block but the first and the last is full of unread items.
\<close>

theorem block_list_memory_bound:
  assumes "0 < unat n" and "unat n \<le> 64" and "allocator_ok f" and "block_list_new n f = Ret l"
    and "run_queue (block_list_try_push n) block_list_pop ops l = (Ret rs, l')"
  shows "length (cells (bl_heap l')) \<le> length (snd (spec_queue None ops [])) div unat n + 2"
proof -
  have new: "block_list_inv n l" "block_list_list l = []"
    using block_list_new_spec [OF assms(1-3), where 't = 'a] assms(4) by auto
  have "(rs, block_list_list l') = spec_queue None ops []" and inv: "block_list_inv n l'"
    using wp_RetD [OF block_list.run_refines [OF new(1)] assms(5)] new(2) by auto
  then have items: "snd (spec_queue None ops []) = block_list_list l'" by (metis snd_conv)
  have "(length (cells (bl_heap l')) - 2) * unat n \<le> length (block_list_list l')"
    by (rule block_list_memory [OF inv])
  then have "length (cells (bl_heap l')) - 2 \<le> length (block_list_list l') div unat n"
    using assms(1) by (simp add: less_eq_div_iff_mult_less_eq)
  then show ?thesis by (simp add: items)
qed

theorem block_list_memory_bound_witness:
  "length (block_list_list three_blocks) = 4 \<and> length (cells (bl_heap three_blocks)) \<le> 4"
proof -
  let ?ops = "[Push 4, Push 5, Push 6, Push 7, Push 8, Pop]"
  let ?rs = "[PushRes (Inr ()), PushRes (Inr ()), PushRes (Inr ()), PushRes (Inr ()), PushRes (Inr ()), PopRes (Some 4)]"
  have "fst (run_queue (block_list_try_push 2) block_list_pop ?ops fresh_list) = Ret ?rs" by code_simp
  then have run: "run_queue (block_list_try_push 2) block_list_pop ?ops fresh_list = (Ret ?rs, three_blocks)"
    by (simp add: three_blocks_def prod_eq_iff)
  have "length (block_list_list three_blocks) = 4" by code_simp
  with block_list_memory_bound [OF _ _ bump_alloc_ok fresh_list_new run] show ?thesis by simp
qed

text \<open>
  Dropping the segmented list runs the destructor of every queued item exactly once, in queue
  order and with the same effect as running them one after the other, and frees every block, when
  no destructor unwinds. The walk over the blocks ends and touches no freed block.
\<close>

theorem block_list_drop_frees:
  assumes "block_list_inv n l"
  shows "fst (block_list_drop d l s) = fst (for_each d (block_list_list l) s)
    \<and> fst (snd (block_list_drop d l s)) = snd (for_each d (block_list_list l) s)
    \<and> (fst (block_list_drop d l s) = Ret () \<longrightarrow> cells (snd (snd (block_list_drop d l s))) = [])"
  using block_list_drop_all [OF assms, of d s] by (auto split: prod.splits simp: prod_eq_iff)

theorem block_list_drop_frees_witness:
  "fst (snd (block_list_drop (\<lambda>x s. (Ret (), s @ [x])) three_blocks [])) = [5, 6, 7, 8]
    \<and> cells (snd (snd (block_list_drop (\<lambda>x s. (Ret (), s @ [x])) three_blocks []))) = []"
proof -
  have "for_each (\<lambda>x s. (Ret (), s @ [x])) (block_list_list three_blocks) [] = (Ret (), [5, 6, 7, 8])" by code_simp
  with block_list_drop_frees [OF three_blocks_inv, of "\<lambda>x s. (Ret (), s @ [x])" "[]"] show ?thesis by simp
qed

text \<open>
  Clearing the ring, which its destructor does, runs the destructor of every queued item exactly
  once, oldest first, stopping at one that unwinds; it ends, keeps the ring well formed, and leaves
  it empty when it returns.
\<close>

theorem ring_clear_runs_destructors:
  assumes "ring_inv r"
  shows "fst (ring_clear d (s, r)) = fst (for_each d (ring_list r) s)
    \<and> fst (snd (ring_clear d (s, r))) = snd (for_each d (ring_list r) s)
    \<and> ring_inv (snd (snd (ring_clear d (s, r))))
    \<and> (fst (ring_clear d (s, r)) = Ret () \<longrightarrow> ring_list (snd (snd (ring_clear d (s, r)))) = [])"
  using ring_clear_drops [OF assms, of d s] by (auto split: prod.splits simp: prod_eq_iff)

definition two_items :: "nat ring" where
  "two_items = snd (run_queue ring_push ring_pop [Push 3, Push 4, Push 5, Pop, Pop, Push 6] (ring_with_capacity 3))"

lemma two_items_inv: "ring_inv two_items"
proof -
  let ?ops = "[Push 3, Push 4, Push 5, Pop, Pop, Push (6 :: nat)]"
  have new: "ring_inv (ring_with_capacity 3 :: nat ring)" using ring_with_capacity_inv(1) [of 3] by simp
  obtain o' r where run: "run_queue ring_push ring_pop ?ops (ring_with_capacity 3) = (o', r)" by (metis surj_pair)
  have "fst (run_queue ring_push ring_pop ?ops (ring_with_capacity 3))
    = Ret [PushRes (Inr ()), PushRes (Inr ()), PushRes (Inr ()), PopRes (Some 3), PopRes (Some 4), PushRes (Inr ())]"
    by code_simp
  with run wp_RetD [OF ring.run_refines [OF new, of ?ops]] show ?thesis
    by (simp add: two_items_def)
qed

theorem ring_clear_runs_destructors_witness:
  "fst (snd (ring_clear (\<lambda>x s. (Ret (), s @ [x])) ([], two_items))) = [5, 6]"
proof -
  have "for_each (\<lambda>x s. (Ret (), s @ [x])) (ring_list two_items) [] = (Ret (), [5, 6])" by code_simp
  with ring_clear_runs_destructors [OF two_items_inv, of "\<lambda>x s. (Ret (), s @ [x])" "[]"] show ?thesis by simp
qed

section \<open>Cells\<close>

text \<open>
  The checked cell of a debug build and the unchecked one of a release build, from any state of the
  borrow flags. A body that neither calls user code nor borrows again (\<open>flag_free\<close>) has the same result
  and effect through either cell where the borrow rules allow the access, and leaves the flags as they
  were, also when it unwinds; where they do not, the checked cell fails and changes nothing. Shared
  borrows nest; any nesting with a mutable borrow fails.
\<close>

theorem cell_borrow_rules:
  assumes "flag_free body"
  shows "borrow_mut c body s = (if borrows s c = 0 then borrow_mut_unchecked c body s else (Fault DoubleBorrow, s))
    \<and> borrow c body s = (if 0 \<le> borrows s c then borrow_unchecked c body s else (Fault DoubleBorrow, s))
    \<and> borrows (snd (body s)) = borrows s
    \<and> (0 \<le> borrows s c \<longrightarrow> borrow c (borrow c body) s = body s)
    \<and> fst (borrow c (borrow_mut c body) s) = Fault DoubleBorrow \<and> fst (borrow_mut c (borrow c body) s) = Fault DoubleBorrow
    \<and> fst (borrow_mut c (borrow_mut c body) s) = Fault DoubleBorrow"
proof (intro conjI impI)
  have keep: "snd (body s)\<lparr>borrows := borrows s\<rparr> = snd (body s)" by (rule flag_free_borrows [OF assms])
  then show "borrows (snd (body s)) = borrows s" by (metis world.select_convs(1) world.surjective world.update_convs(1))
  have run: "body (s\<lparr>borrows := b\<rparr>) = (fst (body s), (snd (body s))\<lparr>borrows := b\<rparr>)" for b
    using assms unfolding flag_free_def by blast
  show "borrow c (borrow c body) s = body s" if "0 \<le> borrows s c"
  proof -
    have "(borrows s)(c := borrows s c) = borrows s" by simp
    with that keep show ?thesis by (simp add: borrow_def run)
  qed
  show "borrow_mut c body s = (if borrows s c = 0 then borrow_mut_unchecked c body s else (Fault DoubleBorrow, s))"
    using borrow_mut_flag_free [OF assms, of s c] by (simp add: borrow_mut_unchecked_def) (simp add: borrow_mut_def)
  show "borrow c body s = (if 0 \<le> borrows s c then borrow_unchecked c body s else (Fault DoubleBorrow, s))"
    using borrow_flag_free [OF assms, of s c] by (simp add: borrow_unchecked_def) (simp add: borrow_def)
  show "fst (borrow c (borrow_mut c body) s) = Fault DoubleBorrow" by (simp add: borrow_def borrow_mut_def)
  show "fst (borrow_mut c (borrow c body) s) = Fault DoubleBorrow" by (simp add: borrow_def borrow_mut_def)
  show "fst (borrow_mut c (borrow_mut c body) s) = Fault DoubleBorrow" by (rule borrow_mut_nested)
qed

definition counting :: "nat world" where
  "counting = \<lparr>borrows = free_cells, log = []\<rparr>"

theorem cell_borrow_rules_witness:
  "borrow_mut FlavorCell (emit (Pushed 1)) counting = borrow_mut_unchecked FlavorCell (emit (Pushed 1)) counting
    \<and> fst (borrow FlavorCell (borrow_mut FlavorCell (emit (Pushed 1))) counting) = Fault DoubleBorrow"
proof -
  have "flag_free (emit (Pushed (1 :: nat)) :: (nat world, unit) comp)"
    by (rule flag_freeI) (simp add: emit_def modify_def)
  moreover have "borrows counting FlavorCell = 0" by (simp add: counting_def free_cells_def)
  ultimately show ?thesis using cell_borrow_rules [of "emit (Pushed 1)" FlavorCell counting] by simp
qed

section \<open>Waking a list of wakers\<close>

text \<open>The weakest interface: user code that does not rewrite history.\<close>

interpretation history: channel_steps "\<lambda>_. True" "\<lambda>s s'. \<exists>es. log s' = log s @ es"
  by unfold_locales auto

text \<open>
  C35. \<open>wake_all\<close> wakes every waker on the list, whatever the wakers do and whether or not some of them
  panic: with \<open>std\<close>, as long as no payload's destructor panics with a payload whose destructor panics
  again; without, as long as a second panic may abort.
\<close>

theorem wake_all_wakes_everyone:
  assumes "user_code A (\<lambda>_. True) (\<lambda>s s'. \<exists>es. log s' = log s @ es) env" and "isolates A env"
  shows "wp A (wake_all env ws) (\<lambda>_ s'. all_woken ws (new_log s s')) (\<lambda>_ s'. all_woken ws (new_log s s')) s"
  by (rule wp_conseq [OF history.wake_all_wakes [OF assms]]) auto

definition shouting_env :: "(nat world, nat) env" where
  "shouting_env = (quiet_env True)\<lparr>wake_cb := \<lambda>w. panic (UserPanic w)\<rparr>"

theorem wake_all_wakes_everyone_witness:
  "wp {OutOfMemory} (wake_all shouting_env [(0, 1), (1, 2), (2, 3)]) (\<lambda>_ s'. Woke 3 \<in> set (log s')) (\<lambda>_ s'. Woke 3 \<in> set (log s')) counting"
proof -
  have a: "admissible {OutOfMemory} (\<lambda>_. True) (\<lambda>s s'. \<exists>es. log s' = log s @ es) shouting_env"
    unfolding shouting_env_def by (rule admissible_wake_cb) (auto simp: admissible_quiet guar_def wp_simps)
  then have "user_code {OutOfMemory} (\<lambda>_. True) (\<lambda>s s'. \<exists>es. log s' = log s @ es) shouting_env"
    and "isolates {OutOfMemory} shouting_env" by (auto simp: admissible_def)
  from wake_all_wakes_everyone [OF this, of "[(0, 1), (1, 2), (2, 3)]" counting] show ?thesis
    by (rule wp_conseq) (auto simp: all_woken_def new_log_def counting_def)
qed

definition chain_panic_env :: "(nat world, nat) env" where
  "chain_panic_env = (quiet_env True)\<lparr>wake_cb := \<lambda>w. panic (UserPanic w),
     payload_drop_cb := \<lambda>p. if p = UserPanic 2 then panic (UserPanic 8) else if p = UserPanic 8 then panic (UserPanic 9) else ret ()\<rparr>"

text \<open>
  The condition on payloads is needed. \<open>drop_panic_payload\<close> drops a payload inside
  \<open>catch_unwind\<close>, but then drops what was caught outside of it. When a payload's destructor panics with
  a payload whose destructor panics too, the panic leaves \<open>drop_panic_payload\<close>; in \<open>wake_all\<close> it
  strands the wakers that were still to be woken: here the third is dropped without being woken.
\<close>

theorem drop_panic_payload_escapes:
  "fst (drop_panic_payload chain_panic_env (UserPanic 2) counting) = Panic (UserPanic 9)
    \<and> fst (wake_all chain_panic_env [(0, 1), (1, 2), (2, 3)] counting) = Panic (UserPanic 9)
    \<and> woken (log (snd (wake_all chain_panic_env [(0, 1), (1, 2), (2, 3)] counting))) = [1, 2]"
proof (intro conjI)
  show "fst (drop_panic_payload chain_panic_env (UserPanic 2) counting) = Panic (UserPanic 9)" by code_simp
  show "fst (wake_all chain_panic_env [(0, 1), (1, 2), (2, 3)] counting) = Panic (UserPanic 9)" by code_simp
  show "woken (log (snd (wake_all chain_panic_env [(0, 1), (1, 2), (2, 3)] counting))) = [1, 2]" by code_simp
qed

end
