(* ===== verification/Parking.thy ===== *)
theory Parking
  imports Chan_Core
begin

text \<open>
  Parked senders. Both channels keep them in the same list, under ids from the same kind of
  counter, and wake them in the same way. The locale \<open>unparking\<close> is the interface: a step relation in
  which senders can be removed from the list, one by one, and all at once if all of them are then
  woken; in \<open>parking\<close> they can also be added. The facts about the operations on the list are proved there, once for
  both channels.
\<close>

section \<open>Registration ids\<close>

text \<open>
  \<open>ids_ok history ids fresh\<close>: with \<open>history\<close> the ids handed out so far, as long as there were fewer
  than \<open>2 ^ 64\<close>, the ids in the list are distinct and older than the next one, \<open>fresh\<close>.
\<close>

definition ids_ok :: "u64 list \<Rightarrow> u64 list \<Rightarrow> u64 \<Rightarrow> bool" where
  "ids_ok history ids fresh \<longleftrightarrow> (length history < 2 ^ 64 \<longrightarrow>
     unat fresh = length history \<and> distinct ids \<and> (\<forall>i \<in> set ids. unat i < length history))"

lemma ids_ok_new: "ids_ok [] [] 0"
  by (simp add: ids_ok_def)

lemma ids_ok_park:
  assumes "ids_ok h ids i"
  shows "ids_ok (h @ [i]) (ids @ [i]) (i + 1)"
  using assms by (auto simp: ids_ok_def unat_suc_nowrap less_Suc_eq)

lemma ids_ok_remove:
  assumes "ids_ok h (map fst ws) n"
  shows "ids_ok h (map fst (snd (registry_remove i ws))) n"
  using assms registry_remove_subset [of i ws] registry_remove_distinct [of ws i]
  by (fastforce simp: ids_ok_def)

lemma ids_ok_take: "ids_ok h ids n \<Longrightarrow> ids_ok h [] n"
  by (simp add: ids_ok_def)

section \<open>The interface\<close>

text \<open>Steps that neither close the channel nor take senders from the list.\<close>

definition gentle :: "('t, 'u, 'z) core_scheme \<Rightarrow> ('t, 'u, 'z) core_scheme \<Rightarrow> bool" where
  [simp]: "gentle s s' \<longleftrightarrow> (closed s' \<longrightarrow> closed s) \<and> set (send_wakers s) \<subseteq> set (send_wakers s')"

text \<open>
  From \<open>c\<close> to \<open>s'\<close> the channel passed a state all of whose parked senders have been woken since.
\<close>

definition senders_woken :: "(('t, 'u, 'z) core_scheme \<Rightarrow> ('t, 'u, 'z) core_scheme \<Rightarrow> bool) \<Rightarrow> ('t, 'u, 'z) core_scheme \<Rightarrow> ('t, 'u, 'z) core_scheme \<Rightarrow> bool" where
  "senders_woken step c s' \<longleftrightarrow> (\<exists>t. step\<^sup>*\<^sup>* c t \<and> step\<^sup>*\<^sup>* (t\<lparr>send_wakers := []\<rparr>) s'
     \<and> all_woken (send_wakers t) (new_log t s'))"


locale unparking = channel_steps inv step
  for inv :: "('t, 'u, 'z) core_scheme \<Rightarrow> bool"
    and step :: "('t, 'u, 'z) core_scheme \<Rightarrow> ('t, 'u, 'z) core_scheme \<Rightarrow> bool" +
  assumes idle_inv: "inv s \<Longrightarrow> idle s"
    and take_inv: "inv s \<Longrightarrow> inv (s\<lparr>send_wakers := []\<rparr>)"
    and take_steps: "step\<^sup>*\<^sup>* (s\<lparr>send_wakers := []\<rparr>) s' \<Longrightarrow> all_woken (send_wakers s) (new_log s s') \<Longrightarrow> step\<^sup>*\<^sup>* s s'"
    and unpark_step: "step s (withdraw_send i s)"
begin

text \<open>Waking the senders wakes every parked one, whatever the wakers do.\<close>

lemma wake_senders_wakes:
  assumes "user_code A inv step env" and "isolates A env" and s: "inv s"
  shows "wp A (wake_senders env)
    (\<lambda>_ s'. step\<^sup>*\<^sup>* (s\<lparr>send_wakers := []\<rparr>) s' \<and> all_woken (send_wakers s) (new_log s s'))
    (\<lambda>_ s'. step\<^sup>*\<^sup>* (s\<lparr>send_wakers := []\<rparr>) s' \<and> all_woken (send_wakers s) (new_log s s')) s"
proof -
  have inv: "inv (s\<lparr>send_wakers := []\<rparr>)" using s by (rule take_inv)
  have log: "new_log (s\<lparr>send_wakers := []\<rparr>) s' = new_log s s'" for s'
    by (simp add: new_log_def)
  show ?thesis
  proof (cases "send_wakers s = []")
    case True
    then have "s\<lparr>send_wakers := []\<rparr> = s" by simp
    then have "step\<^sup>*\<^sup>* (s\<lparr>send_wakers := []\<rparr>) s" by (metis rtranclp.rtrancl_refl)
    with True show ?thesis by (simp add: wp_wake_senders [OF idle_inv [OF s]] all_woken_def)
  next
    case False
    then show ?thesis
      using wake_all_wakes [OF assms(1,2) inv, of "send_wakers s"]
      by (simp add: wp_wake_senders [OF idle_inv [OF s]] log)
  qed
qed

lemma guar_wake_senders:
  assumes "user_code A inv step env" and "isolates A env"
  shows "guar A inv step (wake_senders env)"
proof (rule guarI)
  fix s :: "('t, 'u, 'z) core_scheme" assume "inv s"
  then show "wp A (wake_senders env) (\<lambda>_. step\<^sup>*\<^sup>* s) (\<lambda>_. step\<^sup>*\<^sup>* s) s"
    by (intro wp_conseq [OF wake_senders_wakes [OF assms]]) (auto intro: take_steps)
qed

lemma senders_woken_later:
  assumes "senders_woken step c s" and "step\<^sup>*\<^sup>* s s'"
  shows "senders_woken step c s'"
proof -
  obtain t where t: "step\<^sup>*\<^sup>* c t" "step\<^sup>*\<^sup>* (t\<lparr>send_wakers := []\<rparr>) s" "all_woken (send_wakers t) (new_log t s)"
    using assms(1) by (auto simp: senders_woken_def)
  have "step\<^sup>*\<^sup>* t s" using t(2,3) by (rule take_steps)
  then have "all_woken (send_wakers t) (new_log t s')"
    using t(3) new_log_mono(1) [OF _ assms(2), of t] unfolding all_woken_def by blast
  with t assms(2) show ?thesis unfolding senders_woken_def by (meson rtranclp_trans)
qed

lemma senders_woken_steps: "senders_woken step c s' \<Longrightarrow> step\<^sup>*\<^sup>* c s'"
  unfolding senders_woken_def using take_steps by fastforce

lemma wake_senders_from:
  assumes "user_code A inv step env" and "isolates A env" and "inv c" and "step\<^sup>*\<^sup>* c t"
    and "\<And>s'. senders_woken step c s' \<Longrightarrow> step\<^sup>*\<^sup>* t s' \<Longrightarrow> Q () s'"
    and "\<And>p s'. senders_woken step c s' \<Longrightarrow> step\<^sup>*\<^sup>* t s' \<Longrightarrow> E p s'"
  shows "wp A (wake_senders env) Q E t"
proof -
  have "senders_woken step c s' \<and> step\<^sup>*\<^sup>* t s'"
    if "step\<^sup>*\<^sup>* (t\<lparr>send_wakers := []\<rparr>) s' \<and> all_woken (send_wakers t) (new_log t s')" for s'
    using that assms(4) take_steps by (auto simp: senders_woken_def)
  then show ?thesis
    using assms(5,6) inv_steps [OF assms(4,3)] by (intro wp_conseq [OF wake_senders_wakes [OF assms(1,2)]]) auto
qed

text \<open>
  Waking both halves. Whatever \<open>m\<close> establishes and no step undoes still holds at the end, and all
  senders have been woken.
\<close>

lemma wake_both_steps:
  assumes u: "user_code A inv step env" and i: "isolates A env" and c: "inv c"
    and m: "wp A m (\<lambda>_ t. step\<^sup>*\<^sup>* c t \<and> P t) (\<lambda>_ t. step\<^sup>*\<^sup>* c t \<and> P t) s"
    and stable: "\<And>t s'. step\<^sup>*\<^sup>* c t \<Longrightarrow> P t \<Longrightarrow> step\<^sup>*\<^sup>* t s' \<Longrightarrow> P s'"
  shows "wp A (wake_both env m) (\<lambda>_ s'. senders_woken step c s' \<and> P s') (\<lambda>_ s'. senders_woken step c s' \<and> P s') s"
proof -
  note send = wake_senders_from [OF u i c]
  show ?thesis
  proof (cases "std env")
    case True
    then have calm: "calm_payloads A env" using i by (simp add: isolates_def)
    have disposed: "wp A (drop_panic_payload env p) (\<lambda>_ s'. senders_woken step c s' \<and> P s') (\<lambda>_ s'. False) t"
      if t: "senders_woken step c t" "P t" for p t
    proof -
      have ct: "step\<^sup>*\<^sup>* c t" using senders_woken_steps [OF t(1)] .
      show ?thesis
        by (rule wp_conseq [OF wp_drop_panic_payload_calm [OF u calm inv_steps [OF ct c]]])
          (use t stable [OF ct t(2)] in \<open>auto intro: senders_woken_later\<close>)
    qed
    show ?thesis
      using True by (simp add: wake_both_def wp_simps, intro wp_conseq [OF m])
        (auto simp: wp_simps intro!: send wp_conseq [OF disposed] intro: stable)
  next
    case False
    then have "DoublePanic \<in> A" using i by (simp add: isolates_def)
    with False show ?thesis
      by (simp add: wake_both_def wp_simps, intro wp_conseq [OF m]) (auto simp: wp_simps intro!: send intro: stable)
  qed
qed

text \<open>The pieces of the send future that do not push.\<close>

lemma guar_remove_send_waker:
  assumes u: "user_code A inv step env"
  shows "guar A inv step (remove_send_waker env i)"
proof (rule guarI)
  fix s :: "('t, 'u, 'z) core_scheme" assume s: "inv s"
  show "wp A (remove_send_waker env i) (\<lambda>_. step\<^sup>*\<^sup>* s) (\<lambda>_. step\<^sup>*\<^sup>* s) s"
    unfolding wp_remove_send_waker [OF idle_inv [OF s]]
    using s by (intro guar_from [OF guar_user(7) [OF u]]) (auto intro: unpark_step)
qed

end

locale parking = unparking inv step
  for inv :: "('t, 'u, 'z) core_scheme \<Rightarrow> bool"
    and step :: "('t, 'u, 'z) core_scheme \<Rightarrow> ('t, 'u, 'z) core_scheme \<Rightarrow> bool" +
  assumes park_step: "step s (s\<lparr>next_send_id := next_send_id s + 1, send_wakers := send_wakers s @ [(next_send_id s, w)],
      log := log s @ [SendParked (next_send_id s)]\<rparr>)"
begin

lemma add_send_waker_steps:
  assumes u: "user_code A inv step env" and s: "inv s"
  shows "wp A (add_send_waker env w) (\<lambda>i s'. \<exists>t v. step\<^sup>*\<^sup>* s t \<and> inv t \<and> i = next_send_id t
      \<and> (same_clones env \<longrightarrow> v = w) \<and> s' = t\<lparr>next_send_id := i + 1, send_wakers := send_wakers t @ [(i, v)], log := log t @ [SendParked i]\<rparr>)
    (\<lambda>_. step\<^sup>*\<^sup>* s) s"
proof -
  have "wp A (clone_waker env w) (\<lambda>_ t. step\<^sup>*\<^sup>* s t \<and> inv t) (\<lambda>_. step\<^sup>*\<^sup>* s) s"
    by (rule guar_wp [OF guar_user(3) [OF u] s]) auto
  then show ?thesis
    unfolding add_send_waker_def wp_simps by (rule wp_conseq [OF wp_clone_same]) (auto simp: wp_push_send_waker idle_inv)
qed

lemma guar_add_send_waker:
  assumes "user_code A inv step env"
  shows "guar A inv step (add_send_waker env w)"
proof (rule guarI)
  fix s :: "('t, 'u, 'z) core_scheme" assume "inv s"
  then show "wp A (add_send_waker env w) (\<lambda>_. step\<^sup>*\<^sup>* s) (\<lambda>_. step\<^sup>*\<^sup>* s) s"
    by (intro wp_conseq [OF add_send_waker_steps [OF assms]])
      (auto intro: park_step rtranclp.rtrancl_into_rtrancl)
qed

end

end
