(* ===== verification/Errors.thy ===== *)
theory Errors
  imports Main
begin

text \<open>
  The error types of \<open>src/mpsc/error.rs\<close>; \<open>src/mpmc/error.rs\<close> declares the same three types with the
  same methods.
\<close>

datatype 't try_send_error = Full 't | Closed 't

datatype try_recv_error = Empty | Disconnected

datatype 't send_error = SendError 't

fun try_send_error_into_inner :: "'t try_send_error \<Rightarrow> 't" where
  "try_send_error_into_inner (Full x) = x"
| "try_send_error_into_inner (Closed x) = x"

fun try_send_error_is_full :: "'t try_send_error \<Rightarrow> bool" where
  "try_send_error_is_full (Full x) = True"
| "try_send_error_is_full (Closed x) = False"

fun try_send_error_is_closed :: "'t try_send_error \<Rightarrow> bool" where
  "try_send_error_is_closed (Full x) = False"
| "try_send_error_is_closed (Closed x) = True"

fun try_send_error_debug :: "'t try_send_error \<Rightarrow> string" where
  "try_send_error_debug (Full x) = ''Full(..)''"
| "try_send_error_debug (Closed x) = ''Closed(..)''"

fun try_send_error_display :: "'t try_send_error \<Rightarrow> string" where
  "try_send_error_display (Full x) = ''sending on a full channel''"
| "try_send_error_display (Closed x) = ''sending on a closed channel''"

fun try_recv_error_as_str :: "try_recv_error \<Rightarrow> string" where
  "try_recv_error_as_str Empty = ''receiving on an empty channel''"
| "try_recv_error_as_str Disconnected = ''receiving on an empty and disconnected channel''"

fun try_recv_error_is_empty :: "try_recv_error \<Rightarrow> bool" where
  "try_recv_error_is_empty Empty = True"
| "try_recv_error_is_empty Disconnected = False"

fun try_recv_error_is_disconnected :: "try_recv_error \<Rightarrow> bool" where
  "try_recv_error_is_disconnected Empty = False"
| "try_recv_error_is_disconnected Disconnected = True"

definition try_recv_error_display :: "try_recv_error \<Rightarrow> string" where
  "try_recv_error_display e = try_recv_error_as_str e"

fun send_error_into_inner :: "'t send_error \<Rightarrow> 't" where
  "send_error_into_inner (SendError x) = x"

definition send_error_debug :: "'t send_error \<Rightarrow> string" where
  "send_error_debug e = ''SendError(..)''"

definition send_error_display :: "'t send_error \<Rightarrow> string" where
  "send_error_display e = ''sending on a closed channel''"

section \<open>Polling\<close>

text \<open>\<open>core::task::Poll\<close>.\<close>

datatype 'a poll = Ready 'a | Pending

fun is_ready :: "'a poll \<Rightarrow> bool" where
  "is_ready (Ready x) = True"
| "is_ready Pending = False"

end
