(* ===== verification/Send_Future.thy ===== *)
theory Send_Future
  imports Parking Errors
begin

text \<open>
  The \<open>Send\<close> future. \<open>src/mpsc/send.rs\<close> and \<open>src/mpmc/send.rs\<close> declare the same fields and the same
  \<open>poll\<close>; they differ in \<open>commit\<close> and in what closes a channel, which are arguments here. The
  future is polled beside the channel: the state of \<open>poll\<close> is the pair of the two, so that what a
  panic leaves in the future is visible.
\<close>

section \<open>The future\<close>

record 't send_fut =
  sf_item :: "'t option"
  sf_done :: bool
  sf_waker_id :: "u64 option"
  sf_outcome :: "('t send_error + unit) option"

definition send_new :: "'t \<Rightarrow> 't send_fut" where
  "send_new x = \<lparr>sf_item = Some x, sf_done = False, sf_waker_id = None, sf_outcome = None\<rparr>"

type_synonym ('t, 'u, 'z) sending = "('t, 'u, 'z) core_scheme \<times> 't send_fut"

type_synonym ('t, 'u, 'z) send_comp = "(('t, 'u, 'z) sending, ('t send_error + unit) poll) comp"

text \<open>\<open>Option::take\<close> on the fields of the future.\<close>

definition take_item :: "('s \<times> 't send_fut, 't option) comp" where
  "take_item = on_snd (\<lambda>f. (Ret (sf_item f), f\<lparr>sf_item := None\<rparr>))"

definition take_waker_id :: "('s \<times> 't send_fut, u64 option) comp" where
  "take_waker_id = on_snd (\<lambda>f. (Ret (sf_waker_id f), f\<lparr>sf_waker_id := None\<rparr>))"

definition take_outcome :: "('s \<times> 't send_fut, ('t send_error + unit) option) comp" where
  "take_outcome = on_snd (\<lambda>f. (Ret (sf_outcome f), f\<lparr>sf_outcome := None\<rparr>))"

lemma wp_take_field [wp_simps]:
  "wp A take_item Q E = (\<lambda>(s, f). Q (sf_item f) (s, f\<lparr>sf_item := None\<rparr>))"
  "wp A take_waker_id Q' E = (\<lambda>(s, f). Q' (sf_waker_id f) (s, f\<lparr>sf_waker_id := None\<rparr>))"
  "wp A take_outcome Q'' E = (\<lambda>(s, f). Q'' (sf_outcome f) (s, f\<lparr>sf_outcome := None\<rparr>))"
  by (auto simp: take_item_def take_waker_id_def take_outcome_def wp_simps fun_eq_iff wp_def)

text \<open>
  \<open>poll\<close> looks twice at the channel, before and after it registers its waker, with the same code:
  fail if the channel is closed, else try to push. What follows a full queue is the argument.
\<close>

definition send_attempt :: "(('t, 'u, 'z) core_scheme \<Rightarrow> bool) \<Rightarrow> ('t send_error + unit \<Rightarrow> ('t, 'u, 'z) send_comp)
    \<Rightarrow> ('t \<Rightarrow> ('t, 'u, 'z) send_comp) \<Rightarrow> ('t, 'u, 'z) send_comp" where
  "send_attempt is_closed commit on_full = bindM (on_fst (gets is_closed)) (\<lambda>c.
     if c then bindM take_item (\<lambda>i. bindM (expect ''message present'' i) (\<lambda>x.
            commit (Inl (SendError x))))
     else bindM take_item (\<lambda>i. bindM (expect ''message present'' i) (\<lambda>x.
          bindM (on_fst (chan_try_push x)) (\<lambda>r. case r of
            Inr _ \<Rightarrow> commit (Inr ())
          | Inl y \<Rightarrow> on_full y))))"

definition send_poll :: "(('t, 'u, 'z) core_scheme \<Rightarrow> bool) \<Rightarrow> ('t send_error + unit \<Rightarrow> ('t, 'u, 'z) send_comp)
    \<Rightarrow> ('t, 'u, 'z) cenv \<Rightarrow> waker \<Rightarrow> ('t, 'u, 'z) send_comp" where
  "send_poll is_closed commit env cx = bindM take_outcome (\<lambda>out. case out of
     Some v \<Rightarrow> ret (Ready v)
   | None \<Rightarrow> bindM (on_snd (gets sf_done)) (\<lambda>dn.
     if dn then ret Pending
     else send_attempt is_closed commit (\<lambda>y.
       thenM (on_snd (modify (\<lambda>f. f\<lparr>sf_item := Some y\<rparr>)))
      (bindM take_waker_id (\<lambda>old.
       thenM (case old of Some j \<Rightarrow> on_fst (remove_send_waker env j) | None \<Rightarrow> ret ())
      (bindM (on_fst (add_send_waker env cx)) (\<lambda>j.
       thenM (on_snd (modify (\<lambda>f. f\<lparr>sf_waker_id := Some j\<rparr>)))
      (send_attempt is_closed commit (\<lambda>y'.
         thenM (on_snd (modify (\<lambda>f. f\<lparr>sf_item := Some y'\<rparr>))) (ret Pending))))))))))"

text \<open>The destructor. What the fields still hold is dropped after it, by the compiler's code.\<close>

definition send_drop :: "('t, 'u, 'z) cenv \<Rightarrow> (('t, 'u, 'z) sending, unit) comp" where
  "send_drop env = bindM take_waker_id (\<lambda>i.
     case i of Some j \<Rightarrow> on_fst (remove_send_waker env j) | None \<Rightarrow> ret ())"

section \<open>What a poll may do\<close>

text \<open>
  A future that is done has no message and no registration left; a committed outcome waits in it
  only when it is done.
\<close>

definition send_ok :: "'t send_fut \<Rightarrow> bool" where
  "send_ok f \<longleftrightarrow> (sf_done f \<longleftrightarrow> sf_item f = None) \<and> (sf_done f \<longrightarrow> sf_waker_id f = None)
     \<and> (sf_outcome f \<noteq> None \<longrightarrow> sf_done f)"

text \<open>The state right after an item was appended to the queue.\<close>

definition enqueued :: "'t \<Rightarrow> ('t, 'u, 'z) core_scheme \<Rightarrow> ('t, 'u, 'z) core_scheme \<Rightarrow> bool" where
  "enqueued x s t \<longleftrightarrow> (\<exists>f. flavor_inv f \<and> flavor_list f = queue s @ [x] \<and> flavor_capacity f = capacity s
     \<and> t = s\<lparr>flavor := f, log := log s @ [Pushed x]\<rparr>)"

lemma enqueued_log: "enqueued x s t \<Longrightarrow> log t = log s @ [Pushed x]"
  by (auto simp: enqueued_def)

lemma enqueued_idle: "enqueued x s t \<Longrightarrow> idle t = idle s"
  by (auto simp: enqueued_def)

text \<open>\<open>pushes step is_closed x s t\<close>: on the way from \<open>s\<close> the item was appended to an open queue with room, giving \<open>t\<close>.\<close>

definition pushes :: "(('t, 'u, 'z) core_scheme \<Rightarrow> ('t, 'u, 'z) core_scheme \<Rightarrow> bool)
    \<Rightarrow> (('t, 'u, 'z) core_scheme \<Rightarrow> bool) \<Rightarrow> 't \<Rightarrow> ('t, 'u, 'z) core_scheme \<Rightarrow> ('t, 'u, 'z) core_scheme \<Rightarrow> bool" where
  "pushes step is_closed x s t \<longleftrightarrow> (\<exists>s0. step\<^sup>*\<^sup>* s s0 \<and> \<not> is_closed s0 \<and> \<not> at_capacity s0 \<and> enqueued x s0 t)"

text \<open>
  A result of sending \<open>x\<close>: success was preceded by the push, and \<open>after\<close> relates the state after the
  push to the final one; failure hands \<open>x\<close> back, and the channel was closed.
\<close>

definition send_result :: "(('t, 'u, 'z) core_scheme \<Rightarrow> ('t, 'u, 'z) core_scheme \<Rightarrow> bool)
    \<Rightarrow> (('t, 'u, 'z) core_scheme \<Rightarrow> bool) \<Rightarrow> (('t, 'u, 'z) core_scheme \<Rightarrow> ('t, 'u, 'z) core_scheme \<Rightarrow> bool)
    \<Rightarrow> 't \<Rightarrow> ('t, 'u, 'z) core_scheme \<Rightarrow> 't send_error + unit \<Rightarrow> ('t, 'u, 'z) core_scheme \<Rightarrow> bool" where
  "send_result step is_closed after x s r s' \<longleftrightarrow> (case r of
     Inr _ \<Rightarrow> \<exists>t. pushes step is_closed x s t \<and> after t s'
   | Inl e \<Rightarrow> e = SendError x \<and> (\<exists>t. step\<^sup>*\<^sup>* s t \<and> is_closed t \<and> step\<^sup>*\<^sup>* t s'))"

text \<open>A future that holds an outcome replays it; one that has handed it out is fused.\<close>

lemma send_poll_replay:
  "sf_outcome f = Some r \<Longrightarrow> send_poll c k env cx (s, f) = (Ret (Ready r), (s, f\<lparr>sf_outcome := None\<rparr>))"
  by (simp add: send_poll_def take_outcome_def comp_eval)

lemma send_poll_done:
  assumes "sf_outcome f = None" and "sf_done f"
  shows "send_poll c k env cx (s, f) = (Ret Pending, (s, f))"
proof -
  have "f\<lparr>sf_outcome := None\<rparr> = f" using assms by simp
  with assms show ?thesis by (simp add: send_poll_def take_outcome_def comp_eval)
qed

section \<open>The interface\<close>

text \<open>
  What the proof of \<open>poll\<close> needs from a channel: after a push, \<open>commit\<close> records the outcome before user
  code can run, hands it out when it returns, and has \<open>woken\<close> the other side by then.
\<close>

locale send_future = parking inv step
  for inv :: "('t, 'u, 'z) core_scheme \<Rightarrow> bool"
    and step :: "('t, 'u, 'z) core_scheme \<Rightarrow> ('t, 'u, 'z) core_scheme \<Rightarrow> bool" +
  fixes is_closed :: "('t, 'u, 'z) core_scheme \<Rightarrow> bool"
    and commit :: "('t, 'u, 'z) cenv \<Rightarrow> 't send_error + unit \<Rightarrow> ('t, 'u, 'z) send_comp"
    and after :: "('t, 'u, 'z) core_scheme \<Rightarrow> ('t, 'u, 'z) core_scheme \<Rightarrow> bool"
    and woken_since :: "('t, 'u, 'z) core_scheme \<Rightarrow> ('t, 'u, 'z) core_scheme \<Rightarrow> bool"
    and ok :: "abort_reason set \<Rightarrow> ('t, 'u, 'z) cenv \<Rightarrow> bool"
  assumes inv_queue: "inv s \<Longrightarrow> flavor_inv (flavor s)"
    and ok_env: "ok A env \<Longrightarrow> admissible A inv step env"
    and commit_ok: "ok A env \<Longrightarrow> inv s \<Longrightarrow> \<not> is_closed s \<Longrightarrow> \<not> at_capacity s \<Longrightarrow> enqueued x s t \<Longrightarrow> wp A (commit env (Inr ()))
      (\<lambda>p (s', f'). p = Ready (Inr ()) \<and> f' = f\<lparr>sf_done := True, sf_waker_id := None, sf_outcome := None\<rparr>
         \<and> after t s' \<and> inv s' \<and> woken_since t s')
      (\<lambda>_ (s', f'). f' = f\<lparr>sf_done := True, sf_waker_id := None, sf_outcome := Some (Inr ())\<rparr> \<and> after t s' \<and> inv s') (t, f)"
    and commit_err: "ok A env \<Longrightarrow> inv t \<Longrightarrow> wp A (commit env (Inl e))
      (\<lambda>p (s', f'). p = Ready (Inl e) \<and> f' = f\<lparr>sf_done := True, sf_waker_id := None, sf_outcome := None\<rparr> \<and> step\<^sup>*\<^sup>* t s')
      (\<lambda>_ (s', f'). f' = f\<lparr>sf_done := True, sf_waker_id := None, sf_outcome := Some (Inl e)\<rparr> \<and> step\<^sup>*\<^sup>* t s') (t, f)"
begin

lemma try_push_steps:
  assumes "OutOfMemory \<in> A" and s: "inv s"
    and "at_capacity s \<Longrightarrow> Q (Inl x) s"
    and "\<And>t. \<not> at_capacity s \<Longrightarrow> enqueued x s t \<Longrightarrow> Q (Inr ()) t"
  shows "wp A (chan_try_push x) Q E s"
  by (rule wp_chan_try_push [OF idle_inv [OF s] inv_queue [OF s] assms(1)])
    (use assms(3,4) in \<open>auto simp: enqueued_def\<close>)

text \<open>One attempt: the outcome of the commit is the outcome of sending the message the future held.\<close>

lemma attempt_steps:
  assumes env: "ok A env" and s: "inv s" and f: "sf_item f = Some x"
    and full: "\<not> is_closed s \<Longrightarrow> at_capacity s \<Longrightarrow> wp A (k x) Q E (s, f\<lparr>sf_item := None\<rparr>)"
    and Q: "\<And>r s'. send_result step is_closed after x s r s' \<Longrightarrow> inv s'
      \<Longrightarrow> (r = Inr () \<Longrightarrow> \<exists>t. pushes step is_closed x s t \<and> after t s' \<and> woken_since t s')
      \<Longrightarrow> Q (Ready r) (s', f\<lparr>sf_item := None, sf_done := True, sf_waker_id := None, sf_outcome := None\<rparr>)"
    and E: "\<And>r s' p. send_result step is_closed after x s r s' \<Longrightarrow> inv s'
      \<Longrightarrow> E p (s', f\<lparr>sf_item := None, sf_done := True, sf_waker_id := None, sf_outcome := Some r\<rparr>)"
  shows "wp A (send_attempt is_closed (commit env) k) Q E (s, f)"
proof -
  from ok_env [OF env] have o: "OutOfMemory \<in> A" by (simp add: admissible_def)
  show ?thesis
  proof (cases "is_closed s")
    case True
    then have r: "send_result step is_closed after x s (Inl (SendError x)) s'" if "step\<^sup>*\<^sup>* s s'" for s'
      using that by (auto simp: send_result_def)
    have "wp A (commit env (Inl (SendError x))) Q E (s, f\<lparr>sf_item := None\<rparr>)"
      by (rule wp_conseq [OF commit_err [OF env s]]) (use Q [OF r] E [OF r] inv_steps s in auto)
    with True f show ?thesis by (simp add: wp_simps send_attempt_def)
  next
    case False
    have push: "wp A (commit env (Inr ())) Q E (t, f\<lparr>sf_item := None\<rparr>)"
      if t: "\<not> at_capacity s" "enqueued x s t" for t
    proof -
      have p: "pushes step is_closed x s t" using t False by (auto simp: pushes_def)
      then have r: "send_result step is_closed after x s (Inr ()) s'" if "after t s'" for s'
        using that by (auto simp: send_result_def)
      from commit_ok [OF env s False t] show ?thesis
        by (rule wp_conseq) (use p Q [OF r] E [OF r] in auto)
    qed
    show ?thesis
      using False f by (simp add: wp_simps send_attempt_def)
        (intro try_push_steps [OF o s]; simp add: wp_simps full push)
  qed
qed

lemma pushes_from: "step\<^sup>*\<^sup>* s s1 \<Longrightarrow> pushes step is_closed x s1 t \<Longrightarrow> pushes step is_closed x s t"
  unfolding pushes_def by (meson rtranclp_trans)

lemma send_result_from:
  "step\<^sup>*\<^sup>* s s1 \<Longrightarrow> send_result step is_closed after x s1 r s' \<Longrightarrow> send_result step is_closed after x s r s'"
  by (cases r) (auto simp: send_result_def intro: pushes_from rtranclp_trans)

text \<open>Where a push and what follows it are steps, so is every result.\<close>

lemma send_result_steps:
  assumes "\<And>s t. inv s \<Longrightarrow> \<not> is_closed s \<Longrightarrow> \<not> at_capacity s \<Longrightarrow> enqueued x s t \<Longrightarrow> after t s' \<Longrightarrow> step\<^sup>*\<^sup>* s s'"
    and "inv s" and "send_result step is_closed after x s r s'"
  shows "step\<^sup>*\<^sup>* s s'"
proof (cases r)
  case (Inl e)
  with assms(3) show ?thesis by (auto simp: send_result_def)
next
  case (Inr v)
  with assms(3) obtain s0 t where "step\<^sup>*\<^sup>* s s0" "\<not> is_closed s0" "\<not> at_capacity s0" "enqueued x s0 t" "after t s'"
    by (auto simp: send_result_def pushes_def)
  with assms(1,2) inv_steps show ?thesis by (meson rtranclp_trans)
qed

text \<open>
  Polling a future \<open>f\<close> that holds \<open>x\<close>. Ready: the result of sending, and the future is spent.
  Pending: the queue is full, the channel open, and the future's waker is registered under the id
  it keeps. If user code unwound, the message is still in the future or its outcome is.
\<close>

lemma send_poll_steps:
  assumes env: "ok A env" and s: "inv s" and f: "sf_item f = Some x" and nd: "\<not> sf_done f" "sf_outcome f = None"
    and ready: "\<And>r s'. send_result step is_closed after x s r s' \<Longrightarrow> inv s'
      \<Longrightarrow> (r = Inr () \<Longrightarrow> \<exists>t. pushes step is_closed x s t \<and> after t s' \<and> woken_since t s')
      \<Longrightarrow> Q (Ready r) (s', f\<lparr>sf_item := None, sf_done := True, sf_waker_id := None\<rparr>)"
    and pending: "\<And>s' i w. step\<^sup>*\<^sup>* s s' \<Longrightarrow> inv s' \<Longrightarrow> at_capacity s' \<Longrightarrow> \<not> is_closed s' \<Longrightarrow> (i, w) \<in> set (send_wakers s')
      \<Longrightarrow> (same_clones env \<Longrightarrow> w = cx) \<Longrightarrow> Q Pending (s', f\<lparr>sf_waker_id := Some i\<rparr>)"
    and kept: "\<And>p s'. step\<^sup>*\<^sup>* s s' \<Longrightarrow> inv s' \<Longrightarrow> E p (s', f\<lparr>sf_waker_id := None\<rparr>)"
    and committed: "\<And>p r s'. send_result step is_closed after x s r s' \<Longrightarrow> inv s'
      \<Longrightarrow> E p (s', f\<lparr>sf_item := None, sf_done := True, sf_waker_id := None, sf_outcome := Some r\<rparr>)"
  shows "wp A (send_poll is_closed (commit env) env cx) Q E (s, f)"
proof -
  from ok_env [OF env] have u: "user_code A inv step env" by (simp add: admissible_def)
  have f0: "f\<lparr>sf_outcome := None\<rparr> = f" using nd by simp
  have f1: "f\<lparr>sf_item := Some x, sf_waker_id := None\<rparr> = f\<lparr>sf_waker_id := None\<rparr>" using f by simp
  have f2: "f\<lparr>sf_item := None, sf_done := True, sf_waker_id := None, sf_outcome := None\<rparr>
      = f\<lparr>sf_item := None, sf_done := True, sf_waker_id := None\<rparr>" using nd by simp
  have Q: "Q (Ready r) (s', f\<lparr>sf_item := None, sf_done := True, sf_waker_id := None, sf_outcome := None\<rparr>)"
    if "step\<^sup>*\<^sup>* s s2" "send_result step is_closed after x s2 r s'" "inv s'"
      "r = Inr () \<Longrightarrow> \<exists>t. pushes step is_closed x s2 t \<and> after t s' \<and> woken_since t s'" for s2 r s'
    using send_result_from [OF that(1,2)] that(3,4) pushes_from [OF that(1)] unfolding f2 by (intro ready) blast+
  have E: "E p (s', f\<lparr>sf_item := None, sf_done := True, sf_waker_id := None, sf_outcome := Some r\<rparr>)"
    if "step\<^sup>*\<^sup>* s s2" "send_result step is_closed after x s2 r s'" "inv s'" for s2 r s' p
    using send_result_from [OF that(1,2)] that(3) by (intro committed) auto
  have again: "wp A (send_attempt is_closed (commit env) (\<lambda>y'. thenM (on_snd (modify (\<lambda>f. f\<lparr>sf_item := Some y'\<rparr>))) (ret Pending)))
      Q E (s2, f\<lparr>sf_waker_id := Some j\<rparr>)"
    if s2: "step\<^sup>*\<^sup>* s s2" and j: "(j, w) \<in> set (send_wakers s2)" "same_clones env \<Longrightarrow> w = cx" for s2 j w
  proof (rule attempt_steps [OF env inv_steps [OF s2 s], where x = x], goal_cases)
    case 2
    have "f\<lparr>sf_waker_id := Some j, sf_item := Some x\<rparr> = f\<lparr>sf_waker_id := Some j\<rparr>" using f by simp
    with pending [OF s2 inv_steps [OF s2 s] 2(2,1) j] show ?case by (simp add: wp_simps)
  qed (use f Q [OF s2] E [OF s2] in auto)
  have park: "wp A (bindM (on_fst (add_send_waker env cx)) (\<lambda>j. thenM (on_snd (modify (\<lambda>f. f\<lparr>sf_waker_id := Some j\<rparr>)))
      (send_attempt is_closed (commit env) (\<lambda>y'. thenM (on_snd (modify (\<lambda>f. f\<lparr>sf_item := Some y'\<rparr>))) (ret Pending)))))
      Q E (s1, f\<lparr>sf_waker_id := None\<rparr>)" if s1: "step\<^sup>*\<^sup>* s s1" for s1
  proof (simp add: wp_simps, rule wp_conseq [OF add_send_waker_steps [OF u inv_steps [OF s1 s]]], goal_cases)
    case (1 j s2)
    then obtain t w where "step\<^sup>*\<^sup>* s1 t" "step t s2" and j: "(j, w) \<in> set (send_wakers s2)" "same_clones env \<longrightarrow> w = cx"
      using park_step by fastforce
    with s1 have "step\<^sup>*\<^sup>* s s2" by auto
    with again j show ?case by simp
  next
    case (2 p s')
    with s1 have "step\<^sup>*\<^sup>* s s'" by simp
    with kept inv_steps s show ?case by blast
  qed
  have remove: "wp A (remove_send_waker env j) (\<lambda>_. step\<^sup>*\<^sup>* s) (\<lambda>_. step\<^sup>*\<^sup>* s) s" for j
    by (rule guar_from [OF guar_remove_send_waker [OF u] _ s]) simp
  show ?thesis
    unfolding send_poll_def wp_bindM [of _ take_outcome] wp_take_field
  proof (simp add: nd f0 wp_bindM [of _ "on_snd _"] wp_on_snd wp_gets, rule attempt_steps [OF env s f], goal_cases)
    case 1
    show ?case
    proof (cases "sf_waker_id f")
      case None
      then show ?thesis using park [of s] by (simp add: wp_simps f1)
    next
      case (Some i)
      with park kept inv_steps s show ?thesis
        by (simp add: wp_simps f1) (rule wp_conseq [OF remove], auto)
    qed
  qed (use Q [of s] E [of s] in auto)
qed

text \<open>
  Any poll of a well-formed future: it stays well formed, and what holds of every state that steps
  or a result of sending lead to holds afterwards.
\<close>

lemma send_poll_any:
  assumes env: "ok A env" and s: "inv s" and f: "send_ok f"
    and Q: "\<And>s'. step\<^sup>*\<^sup>* s s' \<Longrightarrow> Q s'"
      "\<And>x r s'. send_result step is_closed after x s r s'
        \<Longrightarrow> (r = Inr () \<Longrightarrow> \<exists>t. pushes step is_closed x s t \<and> after t s' \<and> woken_since t s') \<Longrightarrow> Q s'"
    and E: "\<And>s'. step\<^sup>*\<^sup>* s s' \<Longrightarrow> E s'" "\<And>x r s'. send_result step is_closed after x s r s' \<Longrightarrow> E s'"
  shows "wp A (send_poll is_closed (commit env) env cx)
    (\<lambda>_ (s', f'). Q s' \<and> send_ok f') (\<lambda>_ (s', f'). E s' \<and> send_ok f') (s, f)"
proof (cases "sf_outcome f")
  case (Some r)
  then show ?thesis using f Q(1) [OF rtranclp.rtrancl_refl] by (auto simp: wp_def send_poll_replay send_ok_def)
next
  case no: None
  show ?thesis
  proof (cases "sf_item f")
    case None
    with no f show ?thesis
      using Q(1) [OF rtranclp.rtrancl_refl] by (auto simp: wp_def send_poll_done send_ok_def)
  next
    case (Some x)
    then have "\<not> sf_done f" using f by (simp add: send_ok_def)
    show ?thesis
      by (rule send_poll_steps [OF env s Some \<open>\<not> sf_done f\<close> no]) (use Q E Some no f in \<open>auto simp: send_ok_def\<close>)
  qed
qed

end

context parking
begin

lemma send_drop_steps:
  assumes u: "user_code A inv step env" and s: "inv s"
  shows "wp A (send_drop env) (\<lambda>_ (s', f'). step\<^sup>*\<^sup>* s s' \<and> f' = f\<lparr>sf_waker_id := None\<rparr>)
    (\<lambda>_ (s', f'). step\<^sup>*\<^sup>* s s' \<and> f' = f\<lparr>sf_waker_id := None\<rparr>) (s, f)"
proof -
  have "wp A (remove_send_waker env j) (\<lambda>_. step\<^sup>*\<^sup>* s) (\<lambda>_. step\<^sup>*\<^sup>* s) s" for j
    by (rule guar_from [OF guar_remove_send_waker [OF u] _ s]) simp
  then show ?thesis
    by (cases "sf_waker_id f") (auto simp: send_drop_def wp_simps)
qed

end

end
