(* ===== verification/Mpsc.thy ===== *)
theory Mpsc
  imports Send_Future
begin

text \<open>
  The multi-producer, single-consumer channel: the core of \<open>src/mpsc/chan.rs\<close>, the handles of
  \<open>src/mpsc/channel.rs\<close>, the constructors of \<open>src/mpsc/mod.rs\<close> and the futures of
  \<open>src/mpsc/send.rs\<close> and \<open>src/mpsc/recv.rs\<close>.

  The state \<open>('t, 'u) mpsc\<close> is the \<open>Chan\<close> behind the \<open>Rc\<close>, with the ghost log and the borrow flags.
  A handle holds nothing but that \<open>Rc\<close>, so an operation of a handle is a computation on the
  channel. A future is a record of its own, polled beside the channel: the state of \<open>poll\<close> is the
  pair of the two, so that what a panic leaves in the future is visible.
\<close>

section \<open>The channel core\<close>

record ('t, 'u) mpsc = "('t, 'u) core" +
  receiver_alive :: bool
  recv_waker :: "waker option"

type_synonym ('t, 'u) menv = "(('t, 'u) mpsc, 't) env"

definition mpsc_new :: "'t flavor \<Rightarrow> 'u \<Rightarrow> ('t, 'u) mpsc" where
  "mpsc_new f u = \<lparr>borrows = free_cells, log = [], flavor = f, senders = 1, closed = False,
     send_wakers = [], next_send_id = 0, usr = u, receiver_alive = True, recv_waker = None\<rparr>"

definition mpsc_wake_receiver :: "('t, 'u) menv \<Rightarrow> (('t, 'u) mpsc, unit) comp" where
  "mpsc_wake_receiver env = bindM (borrow RecvWakerCell (gets (\<lambda>s. recv_waker s = None))) (\<lambda>none.
     if none then ret ()
     else bindM (borrow_mut RecvWakerCell (\<lambda>s. (Ret (recv_waker s), s\<lparr>recv_waker := None\<rparr>))) (\<lambda>w.
       case w of None \<Rightarrow> ret () | Some v \<Rightarrow> wake env v))"

definition mpsc_terminal :: "('t, 'u) mpsc \<Rightarrow> bool" where
  "mpsc_terminal s \<longleftrightarrow> \<not> receiver_alive s \<or> senders s = 0 \<or> closed s"

definition mpsc_register_recv_waker :: "('t, 'u) menv \<Rightarrow> waker \<Rightarrow> (('t, 'u) mpsc, unit) comp" where
  "mpsc_register_recv_waker env w = bindM (gets mpsc_terminal) (\<lambda>t.
     if t then ret ()
     else bindM (clone_waker env w) (\<lambda>v. bindM (gets mpsc_terminal) (\<lambda>t'.
       if t' then drop_waker env v
       else bindM (borrow_mut RecvWakerCell (\<lambda>s. (Ret (recv_waker s), s\<lparr>recv_waker := Some v\<rparr>)))
              (drop_waker_option env))))"

definition mpsc_clear_recv_waker :: "('t, 'u) menv \<Rightarrow> (('t, 'u) mpsc, unit) comp" where
  "mpsc_clear_recv_waker env = bindM
     (borrow_mut RecvWakerCell (\<lambda>s. (Ret (recv_waker s), s\<lparr>recv_waker := None\<rparr>)))
     (drop_waker_option env)"

definition mpsc_close :: "('t, 'u) menv \<Rightarrow> (('t, 'u) mpsc, unit) comp" where
  "mpsc_close env = bindM (gets closed) (\<lambda>was. thenM (modify (\<lambda>s. s\<lparr>closed := True\<rparr>))
     (if was then ret () else wake_both env (mpsc_wake_receiver env)))"

text \<open>
  \<open>drain\<close>: pop and drop until empty; the guard \<open>ContinueOnUnwind\<close> drains again when an item's
  destructor panics. It is called when the receiver is gone, so nothing is pushed meanwhile, and
  one more unit of fuel than there are items is enough.
\<close>

fun mpsc_drain_loop :: "('t, 'u) menv \<Rightarrow> nat \<Rightarrow> (('t, 'u) mpsc, unit) comp" where
  "mpsc_drain_loop env 0 = fault OutOfFuel"
| "mpsc_drain_loop env (Suc n) = bindM chan_pop (\<lambda>r. case r of
     None \<Rightarrow> ret ()
   | Some x \<Rightarrow> thenM (drop_item env x) (mpsc_drain_loop env n))"

fun mpsc_drain_fuel :: "('t, 'u) menv \<Rightarrow> nat \<Rightarrow> (('t, 'u) mpsc, unit) comp" where
  "mpsc_drain_fuel env 0 = fault OutOfFuel"
| "mpsc_drain_fuel env (Suc n) = on_unwind (mpsc_drain_fuel env n) (mpsc_drain_loop env (Suc n))"

definition mpsc_drain :: "('t, 'u) menv \<Rightarrow> (('t, 'u) mpsc, unit) comp" where
  "mpsc_drain env = (\<lambda>s. mpsc_drain_fuel env (Suc (unat (flavor_len (flavor s)))) s)"

section \<open>Constructors\<close>

definition mpsc_bounded :: "usize \<Rightarrow> 'u \<Rightarrow> ('t, 'u) mpsc outcome" where
  "mpsc_bounded cap u = (if \<not> 0 < cap
     then Panic (PanicMsg ''lochan::mpsc::bounded requires a non-zero capacity'')
     else Ret (mpsc_new (flavor_bounded cap) u))"

definition mpsc_unbounded :: "allocator \<Rightarrow> 'u \<Rightarrow> ('t, 'u) mpsc outcome" where
  "mpsc_unbounded f u = (case flavor_unbounded f of
     Ret q \<Rightarrow> Ret (mpsc_new q u)
   | Panic p \<Rightarrow> Panic p
   | Abort a \<Rightarrow> Abort a
   | Fault e \<Rightarrow> Fault e)"

section \<open>Sender\<close>

definition mpsc_sender_capacity :: "(('t, 'u) mpsc, usize option) comp" where
  "mpsc_sender_capacity = chan_cap"

definition mpsc_sender_len :: "(('t, 'u) mpsc, usize) comp" where
  "mpsc_sender_len = chan_len"

definition mpsc_sender_is_empty :: "(('t, 'u) mpsc, bool) comp" where
  "mpsc_sender_is_empty = chan_is_empty"

definition mpsc_sender_is_full :: "(('t, 'u) mpsc, bool) comp" where
  "mpsc_sender_is_full = chan_is_full"

definition mpsc_sender_is_closed :: "(('t, 'u) mpsc, bool) comp" where
  "mpsc_sender_is_closed = gets (\<lambda>s. \<not> receiver_alive s \<or> closed s)"

definition mpsc_try_send :: "('t, 'u) menv \<Rightarrow> 't \<Rightarrow> (('t, 'u) mpsc, 't try_send_error + unit) comp" where
  "mpsc_try_send env x = bindM (gets (\<lambda>s. \<not> receiver_alive s \<or> closed s)) (\<lambda>c.
     if c then ret (Inl (Closed x))
     else bindM (chan_try_push x) (\<lambda>r. case r of
       Inr _ \<Rightarrow> thenM (mpsc_wake_receiver env) (ret (Inr ()))
     | Inl y \<Rightarrow> ret (Inl (Full y))))"

definition mpsc_sender_close :: "('t, 'u) menv \<Rightarrow> (('t, 'u) mpsc, bool) comp" where
  "mpsc_sender_close env = bindM mpsc_sender_is_closed (\<lambda>c.
     if c then ret False else thenM (mpsc_close env) (ret True))"

definition mpsc_sender_clone :: "(('t, 'u) mpsc, unit) comp" where
  "mpsc_sender_clone = incr_senders"

definition mpsc_sender_drop :: "('t, 'u) menv \<Rightarrow> (('t, 'u) mpsc, unit) comp" where
  "mpsc_sender_drop env = bindM decr_senders (\<lambda>n.
     if n = 1 then mpsc_wake_receiver env else ret ())"

section \<open>Receiver\<close>

definition mpsc_disconnected :: "('t, 'u) mpsc \<Rightarrow> bool" where
  "mpsc_disconnected s \<longleftrightarrow> senders s = 0 \<or> closed s"

text \<open>The popped item is a local while the senders are woken: an unwinding wake drops it.\<close>

definition mpsc_try_recv :: "('t, 'u) menv \<Rightarrow> (('t, 'u) mpsc, try_recv_error + 't) comp" where
  "mpsc_try_recv env = bindM chan_pop (\<lambda>r. case r of
     Some x \<Rightarrow> thenM (on_unwind (drop_item env x) (wake_senders env)) (ret (Inr x))
   | None \<Rightarrow> bindM (gets mpsc_disconnected) (\<lambda>d. ret (Inl (if d then Disconnected else Empty))))"

definition mpsc_poll_recv :: "('t, 'u) menv \<Rightarrow> waker \<Rightarrow> (('t, 'u) mpsc, 't option poll) comp" where
  "mpsc_poll_recv env cx = bindM chan_pop (\<lambda>r. case r of
     Some x \<Rightarrow> thenM (on_unwind (drop_item env x) (wake_senders env)) (ret (Ready (Some x)))
   | None \<Rightarrow> bindM (gets mpsc_disconnected) (\<lambda>d.
     if d then thenM (mpsc_clear_recv_waker env) (ret (Ready None))
     else thenM (mpsc_register_recv_waker env cx)
         (bindM chan_pop (\<lambda>r'. case r' of
            Some x \<Rightarrow> thenM (on_unwind (drop_item env x) (wake_senders env)) (ret (Ready (Some x)))
          | None \<Rightarrow> bindM (gets mpsc_disconnected) (\<lambda>d'.
            if d' then thenM (mpsc_clear_recv_waker env) (ret (Ready None))
            else ret Pending)))))"

text \<open>\<open>Stream::poll_next\<close> is \<open>poll_recv\<close>.\<close>

definition mpsc_poll_next :: "('t, 'u) menv \<Rightarrow> waker \<Rightarrow> (('t, 'u) mpsc, 't option poll) comp" where
  "mpsc_poll_next env cx = mpsc_poll_recv env cx"

definition mpsc_stream_is_terminated :: "(('t, 'u) mpsc, bool) comp" where
  "mpsc_stream_is_terminated = bindM (gets mpsc_disconnected) (\<lambda>d.
     if d then chan_is_empty else ret False)"

definition mpsc_try_iter_next :: "('t, 'u) menv \<Rightarrow> (('t, 'u) mpsc, 't option) comp" where
  "mpsc_try_iter_next env = bindM (mpsc_try_recv env) (\<lambda>r. case r of
     Inr x \<Rightarrow> ret (Some x)
   | Inl _ \<Rightarrow> ret None)"

definition mpsc_receiver_len :: "(('t, 'u) mpsc, usize) comp" where
  "mpsc_receiver_len = chan_len"

definition mpsc_receiver_is_empty :: "(('t, 'u) mpsc, bool) comp" where
  "mpsc_receiver_is_empty = chan_is_empty"

definition mpsc_receiver_is_closed :: "(('t, 'u) mpsc, bool) comp" where
  "mpsc_receiver_is_closed = gets mpsc_disconnected"

definition mpsc_receiver_close :: "('t, 'u) menv \<Rightarrow> (('t, 'u) mpsc, bool) comp" where
  "mpsc_receiver_close env = bindM mpsc_receiver_is_closed (\<lambda>c.
     if c then ret False else thenM (mpsc_close env) (ret True))"

definition mpsc_receiver_drop :: "('t, 'u) menv \<Rightarrow> (('t, 'u) mpsc, unit) comp" where
  "mpsc_receiver_drop env = thenM (modify (\<lambda>s. s\<lparr>receiver_alive := False\<rparr>))
     (with_guard (mpsc_drain env) (thenM (wake_senders env) (mpsc_clear_recv_waker env)))"

section \<open>The recv future\<close>

definition mpsc_recv_poll :: "('t, 'u) menv \<Rightarrow> waker \<Rightarrow> (('t, 'u) mpsc \<times> bool, 't option poll) comp" where
  "mpsc_recv_poll env cx = bindM (on_fst (mpsc_poll_recv env cx)) (\<lambda>polled.
     if is_ready polled then thenM (on_snd (modify (\<lambda>_. True))) (ret polled) else ret polled)"

definition mpsc_recv_is_terminated :: "(('t, 'u) mpsc \<times> bool, bool) comp" where
  "mpsc_recv_is_terminated = on_snd (gets (\<lambda>done. done))"

definition mpsc_recv_drop :: "('t, 'u) menv \<Rightarrow> (('t, 'u) mpsc \<times> bool, unit) comp" where
  "mpsc_recv_drop env = bindM (on_snd (gets (\<lambda>done. done))) (\<lambda>done.
     if \<not> done then on_fst (mpsc_clear_recv_waker env) else ret ())"

section \<open>The send future\<close>

type_synonym ('t, 'u) send_state = "('t, 'u) mpsc \<times> 't send_fut"

definition mpsc_send_new :: "'t \<Rightarrow> 't send_fut" where
  "mpsc_send_new x = send_new x"

abbreviation send_closed :: "('t, 'u) mpsc \<Rightarrow> bool" where
  "send_closed s \<equiv> \<not> receiver_alive s \<or> closed s"

definition mpsc_send_commit :: "('t, 'u) menv \<Rightarrow> 't send_error + unit \<Rightarrow> (('t, 'u) send_state, ('t send_error + unit) poll) comp" where
  "mpsc_send_commit env result =
     thenM (on_snd (modify (\<lambda>f. f\<lparr>sf_done := True, sf_outcome := Some result\<rparr>)))
    (bindM take_waker_id (\<lambda>i.
     thenM (case i of Some j \<Rightarrow> on_fst (remove_send_waker env j) | None \<Rightarrow> ret ())
    (thenM (if result = Inr () then on_fst (mpsc_wake_receiver env) else ret ())
    (bindM take_outcome (\<lambda>out.
     bindM (expect ''committed outcome'' out) (\<lambda>v. ret (Ready v)))))))"

definition mpsc_send_poll :: "('t, 'u) menv \<Rightarrow> waker \<Rightarrow> (('t, 'u) send_state, ('t send_error + unit) poll) comp" where
  "mpsc_send_poll env cx = send_poll (\<lambda>s. \<not> receiver_alive s \<or> closed s) (mpsc_send_commit env) env cx"

definition mpsc_send_is_terminated :: "(('t, 'u) send_state, bool) comp" where
  "mpsc_send_is_terminated = on_snd (gets sf_done)"

definition mpsc_send_drop :: "('t, 'u) menv \<Rightarrow> (('t, 'u) send_state, unit) comp" where
  "mpsc_send_drop env = send_drop env"

end
