(* ===== verification/Promises.thy ===== *)
theory Promises
  imports Parking
begin

text \<open>
  Promises that hold from one call to the next but not at every step inside a call. Closing a channel,
  for instance, breaks the promise to parked senders until the same call has woken them. The locale
  \<open>keeping\<close> says which relations \<open>G\<close> between an earlier and a later state can be carried along the steps of
  a channel whose senders park; the promise that no parked sender is forgotten is defined here for
  both channels.
\<close>

section \<open>Steps that keep a promise\<close>

definition kept :: "(('t, 'u, 'z) core_scheme \<Rightarrow> ('t, 'u, 'z) core_scheme \<Rightarrow> bool)
    \<Rightarrow> (('t, 'u, 'z) core_scheme \<Rightarrow> ('t, 'u, 'z) core_scheme \<Rightarrow> bool) \<Rightarrow> ('t, 'u, 'z) core_scheme \<Rightarrow> ('t, 'u, 'z) core_scheme \<Rightarrow> bool" where
  "kept step G s s' \<longleftrightarrow> step\<^sup>*\<^sup>* s s' \<and> G s s'"

locale keeping = unparking inv step
  for inv :: "('t, 'u, 'z) core_scheme \<Rightarrow> bool"
    and step :: "('t, 'u, 'z) core_scheme \<Rightarrow> ('t, 'u, 'z) core_scheme \<Rightarrow> bool" +
  fixes G :: "('t, 'u, 'z) core_scheme \<Rightarrow> ('t, 'u, 'z) core_scheme \<Rightarrow> bool"
  assumes keep_refl: "G s s"
    and keep_trans: "step\<^sup>*\<^sup>* s t \<Longrightarrow> step\<^sup>*\<^sup>* t u \<Longrightarrow> G s t \<Longrightarrow> G t u \<Longrightarrow> G s u"
    and keep_event: "neutral e \<Longrightarrow> G s (s\<lparr>log := log s @ [e]\<rparr>)"
    and keep_woken: "all_woken (send_wakers s) (new_log s s') \<Longrightarrow> G (s\<lparr>send_wakers := []\<rparr>) s' \<Longrightarrow> G s s'"
    and keep_withdrawn: "G s (withdraw_send i s)"
begin

lemma kept_refl: "kept step G s s"
  by (simp add: kept_def keep_refl)

lemma kept_trans: "kept step G s t \<Longrightarrow> kept step G t u \<Longrightarrow> kept step G s u"
  unfolding kept_def using keep_trans by (meson rtranclp_trans)

lemma kept_star: "(kept step G)\<^sup>*\<^sup>* s s' \<longleftrightarrow> kept step G s s'"
proof
  show "(kept step G)\<^sup>*\<^sup>* s s' \<Longrightarrow> kept step G s s'"
    by (induction rule: rtranclp_induct) (auto intro: kept_refl kept_trans)
qed blast

lemma kept_unparking: "unparking inv (kept step G)"
proof (unfold_locales, goal_cases)
  case (1 s s')
  then show ?case using inv_steps by (auto simp: kept_def)
next
  case (2 s s')
  then show ?case using steps_log by (auto simp: kept_def)
next
  case (3 e s)
  then show ?case using step_emit keep_event by (auto simp: kept_def)
next
  case (6 s s')
  then show ?case unfolding kept_star by (auto simp: kept_def intro: take_steps keep_woken)
next
  case (7 s i)
  show ?case using unpark_step by (auto simp: kept_def keep_withdrawn)
qed (auto intro: idle_inv take_inv)

end

section \<open>A parked sender is not forgotten\<close>

text \<open>
  A sender waits: it is parked under \<open>i\<close> with the waker \<open>w\<close>, and cannot proceed. It is let go when it
  was woken or withdrew.
\<close>

definition sender_waits :: "(('t, 'u, 'z) core_scheme \<Rightarrow> bool) \<Rightarrow> u64 \<Rightarrow> waker \<Rightarrow> ('t, 'u, 'z) core_scheme \<Rightarrow> bool" where
  "sender_waits is_closed i w s \<longleftrightarrow> (i, w) \<in> set (send_wakers s) \<and> at_capacity s \<and> \<not> is_closed s"

definition sender_let_go :: "u64 \<Rightarrow> waker \<Rightarrow> ('t, 'u, 'z) core_scheme \<Rightarrow> ('t, 'u, 'z) core_scheme \<Rightarrow> bool" where
  "sender_let_go i w s s' \<longleftrightarrow> Woke w \<in> set (new_log s s') \<or> SendWithdrawn i \<in> set (new_log s s')"

definition heeds :: "(('t, 'u, 'z) core_scheme \<Rightarrow> bool) \<Rightarrow> u64 \<Rightarrow> waker \<Rightarrow> ('t, 'u, 'z) core_scheme \<Rightarrow> ('t, 'u, 'z) core_scheme \<Rightarrow> bool" where
  "heeds is_closed i w s s' \<longleftrightarrow> sender_let_go i w s s'
     \<or> ((i, w) \<in> set (send_wakers s) \<longrightarrow> (i, w) \<in> set (send_wakers s'))
       \<and> (sender_waits is_closed i w s \<longrightarrow> sender_waits is_closed i w s')"

lemma heedsI:
  "set (send_wakers s) \<subseteq> set (send_wakers s') \<Longrightarrow> (sender_waits c i w s \<Longrightarrow> at_capacity s' \<and> \<not> c s') \<Longrightarrow> heeds c i w s s'"
  by (auto simp: heeds_def sender_waits_def)

lemma heeds_refl: "heeds c i w s s"
  by (simp add: heeds_def)

lemma heeds_woken: "all_woken (send_wakers s) (new_log s s') \<Longrightarrow> heeds c i w s s'"
  by (auto simp: heeds_def sender_let_go_def sender_waits_def all_woken_def)

lemma heeds_stays:
  "heeds c i w s s' \<Longrightarrow> (i, w) \<in> set (send_wakers s) \<Longrightarrow> (i, w) \<in> set (send_wakers s') \<or> sender_let_go i w s s'"
  by (auto simp: heeds_def)

lemma heeds_withdrawn:
  assumes "c (withdraw_send j s) = c s"
  shows "heeds c i w s (withdraw_send j s)"
  using withdraw_send_keeps [of i w s j] assms by (auto simp: heeds_def sender_waits_def sender_let_go_def)

context unparking
begin

lemma let_go_later:
  assumes "step\<^sup>*\<^sup>* s t" and "step\<^sup>*\<^sup>* t u" and "sender_let_go i w s t \<or> sender_let_go i w t u"
  shows "sender_let_go i w s u"
  using assms(3) new_log_mono [OF assms(1,2)] by (auto simp: sender_let_go_def)

lemma heeds_trans:
  assumes "step\<^sup>*\<^sup>* s t" and "step\<^sup>*\<^sup>* t u" and "heeds c i w s t" and "heeds c i w t u"
  shows "heeds c i w s u"
  using assms(3,4) let_go_later [OF assms(1,2), of i w] by (auto simp: heeds_def)

text \<open>Closing the channel in one step, and waking later those who are still parked.\<close>

lemma let_go_closed:
  assumes "step s c" and "send_wakers c = send_wakers s" and "step\<^sup>*\<^sup>* c t" and "step\<^sup>*\<^sup>* t s'"
    and "heeds is_closed i w c t" and "all_woken (send_wakers t) (new_log t s')" and "(i, w) \<in> set (send_wakers s)"
  shows "sender_let_go i w s s'"
proof -
  have sc: "step\<^sup>*\<^sup>* s c" and cs: "step\<^sup>*\<^sup>* c s'" using assms(1,3,4) by auto
  from assms(7) have "(i, w) \<in> set (send_wakers t) \<or> sender_let_go i w c t"
    using heeds_stays [OF assms(5)] assms(2) by simp
  with assms(6) have "sender_let_go i w t s' \<or> sender_let_go i w c t"
    by (auto simp: sender_let_go_def all_woken_def)
  then show ?thesis using let_go_later [OF assms(3,4)] let_go_later [OF sc cs] by blast
qed

lemma heeds_closed:
  assumes "step s c" and "send_wakers c = send_wakers s" and "step\<^sup>*\<^sup>* c t" and "step\<^sup>*\<^sup>* t s'"
    and "heeds is_closed i w c t" and "all_woken (send_wakers t) (new_log t s')"
  shows "heeds is_closed i w s s'"
  using let_go_closed [OF assms] by (cases "(i, w) \<in> set (send_wakers s)") (simp_all add: heeds_def sender_waits_def)

end

end
