(* ===== verification/Mpsc_Steps.thy ===== *)
theory Mpsc_Steps
  imports Mpsc Promises
begin

text \<open>
  The atomic steps of an \<open>mpsc\<close> channel and its invariant.

  An atomic step is what the code does between two calls of user code. The sender's side,
  \<open>sstep\<close>, is what any code that holds a \<open>Sender\<close> can do; the receiver's side, \<open>rstep\<close>, needs the
  \<open>Receiver\<close>. Operations of the receiver borrow it mutably, so user code that runs inside one is
  restricted to \<open>sstep\<close>; user code that runs inside an operation of a sender may do both.

  The flag \<open>q\<close> allows quiet pushes, which do not wake the receiver in the same step. Only the
  \<open>Send\<close> future makes them: it drops its own waker, user code, between the push and the wake.
\<close>

section \<open>Steps\<close>

definition wake_recv :: "('t, 'u) mpsc \<Rightarrow> ('t, 'u) mpsc" where
  "wake_recv s = (case recv_waker s of
     None \<Rightarrow> s
   | Some w \<Rightarrow> s\<lparr>recv_waker := None, log := log s @ [Woke w]\<rparr>)"

inductive sstep :: "bool \<Rightarrow> ('t, 'u) mpsc \<Rightarrow> ('t, 'u) mpsc \<Rightarrow> bool" for q where
  push: "receiver_alive s \<Longrightarrow> \<not> closed s \<Longrightarrow> \<not> at_capacity s \<Longrightarrow> flavor_inv f \<Longrightarrow> flavor_list f = queue s @ [x]
    \<Longrightarrow> flavor_capacity f = capacity s \<Longrightarrow> sstep q s (wake_recv (s\<lparr>flavor := f, log := log s @ [Pushed x]\<rparr>))"
| push_quiet: "q \<Longrightarrow> receiver_alive s \<Longrightarrow> \<not> closed s \<Longrightarrow> \<not> at_capacity s \<Longrightarrow> flavor_inv f
    \<Longrightarrow> flavor_list f = queue s @ [x] \<Longrightarrow> flavor_capacity f = capacity s
    \<Longrightarrow> sstep q s (s\<lparr>flavor := f, log := log s @ [Pushed x]\<rparr>)"
| wake: "sstep q s (wake_recv s)"
| close: "sstep q s (wake_recv (s\<lparr>closed := True\<rparr>))"
| clone: "senders s \<noteq> 0 \<Longrightarrow> senders s + 1 \<noteq> 0 \<Longrightarrow> sstep q s (s\<lparr>senders := senders s + 1\<rparr>)"
| drop_sender: "1 < senders s \<Longrightarrow> sstep q s (s\<lparr>senders := senders s - 1\<rparr>)"
| drop_last: "senders s = 1 \<Longrightarrow> sstep q s (wake_recv (s\<lparr>senders := 0\<rparr>))"
| park: "sstep q s (s\<lparr>next_send_id := next_send_id s + 1, send_wakers := send_wakers s @ [(next_send_id s, w)],
    log := log s @ [SendParked (next_send_id s)]\<rparr>)"
| unpark: "sstep q s (withdraw_send i s)"
| take: "sstep q s (s\<lparr>send_wakers := []\<rparr>)"
| event: "neutral e \<Longrightarrow> sstep q s (s\<lparr>log := log s @ [e]\<rparr>)"
| user: "sstep q s (s\<lparr>usr := u\<rparr>)"

inductive rstep :: "('t, 'u) mpsc \<Rightarrow> ('t, 'u) mpsc \<Rightarrow> bool" where
  pop: "queue s = x # xs \<Longrightarrow> flavor_inv f \<Longrightarrow> flavor_list f = xs \<Longrightarrow> flavor_capacity f = capacity s
    \<Longrightarrow> rstep s (s\<lparr>flavor := f, log := log s @ [Popped x]\<rparr>)"
| register: "\<not> mpsc_terminal s \<Longrightarrow> rstep s (s\<lparr>recv_waker := Some w\<rparr>)"
| clear: "rstep s (s\<lparr>recv_waker := None\<rparr>)"
| drop_receiver: "rstep s (s\<lparr>receiver_alive := False\<rparr>)"

definition mstep :: "bool \<Rightarrow> ('t, 'u) mpsc \<Rightarrow> ('t, 'u) mpsc \<Rightarrow> bool" where
  "mstep q s s' \<longleftrightarrow> sstep q s s' \<or> rstep s s'"

inductive_cases sstepE: "sstep q s s'"
inductive_cases rstepE: "rstep s s'"

section \<open>The invariant\<close>

text \<open>
  No cell is borrowed; the queue is well formed; what was pushed is what was popped followed by
  what is queued (nothing lost, duplicated or reordered); a disconnected channel holds no
  receiver waker; and parked senders have distinct ids, which come from a counter that has not
  wrapped, as long as fewer than \<open>2 ^ 64\<close> registrations were made.
\<close>

definition mpsc_inv :: "('t, 'u) mpsc \<Rightarrow> bool" where
  "mpsc_inv s \<longleftrightarrow> idle s \<and> flavor_inv (flavor s)
     \<and> pushed (log s) = popped (log s) @ queue s
     \<and> (mpsc_disconnected s \<longrightarrow> recv_waker s = None)
     \<and> ids_ok (send_parks (log s)) (map fst (send_wakers s)) (next_send_id s)"

lemma wake_recv_simps [simp]:
  "borrows (wake_recv s) = borrows s" "flavor (wake_recv s) = flavor s" "senders (wake_recv s) = senders s"
  "closed (wake_recv s) = closed s" "receiver_alive (wake_recv s) = receiver_alive s"
  "send_wakers (wake_recv s) = send_wakers s" "next_send_id (wake_recv s) = next_send_id s"
  "recv_waker (wake_recv s) = None" "pushed (log (wake_recv s)) = pushed (log s)"
  "popped (log (wake_recv s)) = popped (log s)" "send_parks (log (wake_recv s)) = send_parks (log s)"
  "usr (wake_recv s) = usr s"
  by (simp_all add: wake_recv_def split: option.splits)

lemma wake_recv_log: "log (wake_recv s) = log s @ (case recv_waker s of None \<Rightarrow> [] | Some w \<Rightarrow> [Woke w])"
  by (simp add: wake_recv_def split: option.splits)

lemma idle_wake_recv [simp]: "idle (wake_recv s) = idle s"
  by (simp add: idle_def)

lemma withdraw_send_mpsc [simp]:
  "receiver_alive (withdraw_send i s) = receiver_alive s" "recv_waker (withdraw_send i s) = recv_waker s"
  by (simp_all add: withdraw_send_def)

lemma idle_mpsc_update [simp]:
  "idle (s\<lparr>recv_waker := w\<rparr>) = idle s" "idle (s\<lparr>receiver_alive := b\<rparr>) = idle s"
  by (simp_all add: idle_def)

lemma sstep_inv:
  assumes "sstep q s s'" and "mpsc_inv s"
  shows "mpsc_inv s'"
  using assms(1)
proof cases
  case (park w)
  then show ?thesis
    using assms(2) ids_ok_park [of "send_parks (log s)" "map fst (send_wakers s)" "next_send_id s"]
    by (simp add: mpsc_inv_def mpsc_disconnected_def)
qed (use assms(2) in \<open>auto simp: mpsc_inv_def mpsc_disconnected_def intro: ids_ok_remove ids_ok_take\<close>)

lemma rstep_inv:
  assumes "rstep s s'" and "mpsc_inv s"
  shows "mpsc_inv s'"
  using assms(1)
proof cases
  case (register w)
  then show ?thesis
    using assms(2) by (auto simp: mpsc_inv_def mpsc_terminal_def mpsc_disconnected_def)
qed (use assms(2) in \<open>auto simp: mpsc_inv_def mpsc_disconnected_def\<close>)

lemma sstep_log: "sstep q s s' \<Longrightarrow> \<exists>es. log s' = log s @ es"
  by (erule sstepE) (auto simp: wake_recv_log withdraw_send_log split: option.splits)

lemma rstep_log: "rstep s s' \<Longrightarrow> \<exists>es. log s' = log s @ es"
  by (erule rstepE) auto

lemma mpsc_idle: "mpsc_inv s \<Longrightarrow> idle s"
  and mpsc_flavor: "mpsc_inv s \<Longrightarrow> flavor_inv (flavor s)"
  by (simp_all add: mpsc_inv_def)

lemma mpsc_take_inv: "mpsc_inv s \<Longrightarrow> mpsc_inv (s\<lparr>send_wakers := []\<rparr>)"
  using sstep_inv [OF sstep.take] .

lemma mstep_sstep: "sstep q s s' \<Longrightarrow> mstep q s s'"
  and mstep_rstep: "rstep s s' \<Longrightarrow> mstep q s s'"
  by (simp_all add: mstep_def)

lemmas mpsc_start_step = converse_rtranclp_into_rtranclp [of "sstep q" for q] converse_rtranclp_into_rtranclp [of "mstep q" for q]

interpretation sender_side: unparking mpsc_inv "sstep q" for q
  by unfold_locales
    (auto simp: mpsc_idle mpsc_take_inv intro: sstep_inv sstep.event sstep.unpark
      mpsc_start_step(1) [OF sstep.take] dest: sstep_log)

interpretation both_sides: unparking mpsc_inv "mstep q" for q
  by unfold_locales
    (auto simp: mstep_def mpsc_idle mpsc_take_inv intro: sstep_inv rstep_inv sstep.event sstep.unpark
      mpsc_start_step(2) [OF mstep_sstep [OF sstep.take]] dest: sstep_log rstep_log)

end
