(* ===== verification/Mpsc_Sender.thy ===== *)
theory Mpsc_Sender
  imports Mpsc_Steps
begin

text \<open>
  The operations of an \<open>mpsc\<close> sender against the steps: what each does, on every branch, and that
  with any admissible user code in between it is a sequence of steps.

  The proofs are done once, for every step relation that contains the sender's steps
  (\<open>mpsc_sender\<close>): the sender's side alone and both sides together are the two instances.
\<close>

section \<open>Computations on an idle channel\<close>

lemma wp_take_recv_waker:
  assumes "idle s"
  shows "wp A (borrow_mut RecvWakerCell (\<lambda>s. (Ret (recv_waker s), s\<lparr>recv_waker := v\<rparr>))) Q E s
    = Q (recv_waker s) (s\<lparr>recv_waker := v\<rparr>)"
  by (subst wp_borrow_mut) (use assms in \<open>auto intro!: flag_freeI simp: wp_def\<close>)

lemma wp_mpsc_wake_receiver:
  assumes "idle s"
  shows "wp A (mpsc_wake_receiver env) Q E s = (case recv_waker s of
    None \<Rightarrow> Q () s | Some w \<Rightarrow> wp A (wake_cb env w) Q E (wake_recv s))"
  unfolding mpsc_wake_receiver_def
  using assms
  by (auto simp: wp_simps wp_borrow_gets wp_take_recv_waker wake_def wake_recv_def split: option.splits)

lemma enqueued_push: "enqueued x s t \<Longrightarrow> \<not> send_closed s \<Longrightarrow> \<not> at_capacity s \<Longrightarrow> sstep q s (wake_recv t)"
  by (auto simp: enqueued_def intro: sstep.push)

lemma enqueued_push_quiet: "enqueued x s t \<Longrightarrow> \<not> send_closed s \<Longrightarrow> \<not> at_capacity s \<Longrightarrow> sstep True s t"
  by (auto simp: enqueued_def intro: sstep.push_quiet)

section \<open>The sender's contract\<close>

locale mpsc_sender = unparking mpsc_inv step for step :: "('t, 'u) mpsc \<Rightarrow> ('t, 'u) mpsc \<Rightarrow> bool" +
  fixes q :: bool
  assumes sstep_step: "sstep q s s' \<Longrightarrow> gentle s s' \<Longrightarrow> step s s'"
    and close_woken: "senders_woken step (wake_recv (s\<lparr>closed := True\<rparr>)) s' \<Longrightarrow> step\<^sup>*\<^sup>* s s'"
begin

lemma steps_start: "sstep q s t \<Longrightarrow> gentle s t \<Longrightarrow> step\<^sup>*\<^sup>* t s' \<Longrightarrow> step\<^sup>*\<^sup>* s s'"
  by (blast intro: converse_rtranclp_into_rtranclp sstep_step)

text \<open>Waking the receiver takes its waker, if there is one, and then runs it.\<close>

lemma wake_receiver_steps:
  assumes u: "user_code A mpsc_inv step env" and s: "idle s" "mpsc_inv (wake_recv s)"
  shows "wp A (mpsc_wake_receiver env) (\<lambda>_ s'. step\<^sup>*\<^sup>* (wake_recv s) s') (\<lambda>_ s'. step\<^sup>*\<^sup>* (wake_recv s) s') s"
  unfolding wp_mpsc_wake_receiver [OF s(1)]
proof (cases "recv_waker s")
  case None
  then have "wake_recv s = s" by (simp add: wake_recv_def)
  with None show "case recv_waker s of None \<Rightarrow> step\<^sup>*\<^sup>* (wake_recv s) s
      | Some w \<Rightarrow> wp A (wake_cb env w) (\<lambda>_. step\<^sup>*\<^sup>* (wake_recv s)) (\<lambda>_. step\<^sup>*\<^sup>* (wake_recv s)) (wake_recv s)"
    by simp
next
  case (Some w)
  then show "case recv_waker s of None \<Rightarrow> step\<^sup>*\<^sup>* (wake_recv s) s
      | Some w \<Rightarrow> wp A (wake_cb env w) (\<lambda>_. step\<^sup>*\<^sup>* (wake_recv s)) (\<lambda>_. step\<^sup>*\<^sup>* (wake_recv s)) (wake_recv s)"
    using guar_from [OF user_codeD(1) [OF u] _ s(2)] by simp
qed

lemma guar_wake_receiver:
  assumes "user_code A mpsc_inv step env"
  shows "guar A mpsc_inv step (mpsc_wake_receiver env)"
proof (rule guarI)
  fix s :: "('t, 'u) mpsc" assume s: "mpsc_inv s"
  have "step\<^sup>*\<^sup>* s s'" if "step\<^sup>*\<^sup>* (wake_recv s) s'" for s'
    by (rule steps_start [OF sstep.wake _ that]) simp
  then show "wp A (mpsc_wake_receiver env) (\<lambda>_. step\<^sup>*\<^sup>* s) (\<lambda>_. step\<^sup>*\<^sup>* s) s"
    using s by (intro wp_conseq [OF wake_receiver_steps [OF assms]])
      (auto intro: mpsc_idle sstep_inv sstep.wake)
qed

end

text \<open>The senders park and are woken as in any channel.\<close>

sublocale mpsc_sender \<subseteq> parking mpsc_inv step
  by unfold_locales (auto intro: sstep_step sstep.park)

context mpsc_sender
begin

text \<open>\<open>try_push\<close> appends the item, or hands it back and changes nothing.\<close>

lemma try_push_steps:
  assumes "OutOfMemory \<in> A" and s: "mpsc_inv s"
    and "at_capacity s \<Longrightarrow> Q (Inl x) s"
    and "\<And>t. \<not> at_capacity s \<Longrightarrow> enqueued x s t \<Longrightarrow> Q (Inr ()) t"
  shows "wp A (chan_try_push x) Q E s"
  by (rule wp_chan_try_push [OF mpsc_idle [OF s] mpsc_flavor [OF s] assms(1)])
    (use assms(3,4) in \<open>auto simp: enqueued_def\<close>)

lemma try_send_steps:
  assumes env: "admissible A mpsc_inv step env" and s: "mpsc_inv s"
  shows "wp A (mpsc_try_send env x)
    (\<lambda>r s'. if send_closed s then r = Inl (Closed x) \<and> s' = s
       else if at_capacity s then r = Inl (Full x) \<and> s' = s
       else r = Inr () \<and> (\<exists>t. enqueued x s t \<and> step\<^sup>*\<^sup>* (wake_recv t) s'))
    (\<lambda>_ s'. \<not> send_closed s \<and> \<not> at_capacity s \<and> (\<exists>t. enqueued x s t \<and> step\<^sup>*\<^sup>* (wake_recv t) s')) s"
proof (cases "send_closed s")
  case True
  then show ?thesis by (auto simp: mpsc_try_send_def wp_simps)
next
  case False
  from env have u: "user_code A mpsc_inv step env" and o: "OutOfMemory \<in> A"
    by (auto simp: admissible_def)
  show ?thesis
    unfolding mpsc_try_send_def wp_simps
    using False
  proof (simp, intro try_push_steps [OF o s], goal_cases)
    case (2 t)
    then have "mpsc_inv (wake_recv t)" using s enqueued_push [of x s t q] sstep_inv by blast
    with 2 have "wp A (mpsc_wake_receiver env) (\<lambda>_. step\<^sup>*\<^sup>* (wake_recv t)) (\<lambda>_. step\<^sup>*\<^sup>* (wake_recv t)) t"
      using s by (intro wake_receiver_steps [OF u]) (auto simp: enqueued_idle mpsc_idle)
    with 2 show ?case by (auto simp: wp_simps elim!: wp_conseq)
  qed (auto simp: wp_simps)
qed

lemma guar_try_send:
  assumes "admissible A mpsc_inv step env"
  shows "guar A mpsc_inv step (mpsc_try_send env x)"
proof (rule guarI)
  fix s :: "('t, 'u) mpsc" assume s: "mpsc_inv s"
  have "step\<^sup>*\<^sup>* s s'" if "\<not> send_closed s" "\<not> at_capacity s" "enqueued x s t" "step\<^sup>*\<^sup>* (wake_recv t) s'" for s' t
    by (rule steps_start [OF enqueued_push [OF that(3,1,2)] _ that(4)]) (use that(3) in \<open>auto simp: enqueued_def\<close>)
  with s show "wp A (mpsc_try_send env x) (\<lambda>_. step\<^sup>*\<^sup>* s) (\<lambda>_. step\<^sup>*\<^sup>* s) s"
    by (intro wp_conseq [OF try_send_steps [OF assms s]]) (auto split: if_splits)
qed

text \<open>
  Closing takes the receiver's waker in the step that sets the flag, wakes it, and then wakes
  every sender still parked, also when wakers panic.
\<close>

lemma close_steps:
  assumes env: "admissible A mpsc_inv step env" and s: "mpsc_inv s"
  shows "wp A (mpsc_close env)
    (\<lambda>_ s'. if closed s then s' = s else senders_woken step (wake_recv (s\<lparr>closed := True\<rparr>)) s')
    (\<lambda>_ s'. \<not> closed s \<and> senders_woken step (wake_recv (s\<lparr>closed := True\<rparr>)) s') s"
proof (cases "closed s")
  case True
  then show ?thesis by (simp add: mpsc_close_def wp_simps)
next
  case False
  let ?c = "wake_recv (s\<lparr>closed := True\<rparr>)"
  from env have u: "user_code A mpsc_inv step env" and i: "isolates A env"
    by (auto simp: admissible_def)
  have c: "mpsc_inv ?c" using s sstep_inv [OF sstep.close] by blast
  have "wp A (wake_both env (mpsc_wake_receiver env)) (\<lambda>_ s'. senders_woken step ?c s' \<and> True)
      (\<lambda>_ s'. senders_woken step ?c s' \<and> True) (s\<lparr>closed := True\<rparr>)"
    using wake_receiver_steps [OF u, of "s\<lparr>closed := True\<rparr>"] c s
    by (intro wake_both_steps [OF u i c]) (simp_all add: mpsc_idle)
  with False show ?thesis by (simp add: mpsc_close_def wp_simps)
qed

lemma guar_close:
  assumes "admissible A mpsc_inv step env"
  shows "guar A mpsc_inv step (mpsc_close env)"
proof (rule guarI)
  fix s :: "('t, 'u) mpsc" assume s: "mpsc_inv s"
  from s show "wp A (mpsc_close env) (\<lambda>_. step\<^sup>*\<^sup>* s) (\<lambda>_. step\<^sup>*\<^sup>* s) s"
    by (intro wp_conseq [OF close_steps [OF assms s]]) (auto intro: close_woken split: if_splits)
qed

text \<open>The remaining operations of the handle.\<close>

lemma guar_sender_close:
  assumes "admissible A mpsc_inv step env"
  shows "guar A mpsc_inv step (mpsc_sender_close env)"
  unfolding mpsc_sender_close_def mpsc_sender_is_closed_def
  using guar_close [OF assms] by (auto intro!: guar_intros)

lemma sender_clone_step:
  assumes "senders s \<noteq> 0" and "senders s + 1 \<noteq> 0"
  shows "wp A mpsc_sender_clone (\<lambda>_ s'. step s s' \<and> s' = s\<lparr>senders := senders s + 1\<rparr>) (\<lambda>_ _. False) s"
  using assms by (simp add: mpsc_sender_clone_def incr_senders_def wp_simps sstep_step sstep.clone)

lemma sender_drop_steps:
  assumes u: "user_code A mpsc_inv step env" and s: "mpsc_inv s" and n: "senders s \<noteq> 0"
  shows "wp A (mpsc_sender_drop env)
    (\<lambda>_ s'. if senders s = 1 then step\<^sup>*\<^sup>* (wake_recv (s\<lparr>senders := 0\<rparr>)) s' else s' = s\<lparr>senders := senders s - 1\<rparr>)
    (\<lambda>_ s'. senders s = 1 \<and> step\<^sup>*\<^sup>* (wake_recv (s\<lparr>senders := 0\<rparr>)) s') s"
proof (cases "senders s = 1")
  case True
  then have "mpsc_inv (wake_recv (s\<lparr>senders := 0\<rparr>))" using s sstep_inv [OF sstep.drop_last] by blast
  with True s show ?thesis
    using wake_receiver_steps [OF u, of "s\<lparr>senders := 0\<rparr>"]
    by (simp add: mpsc_sender_drop_def decr_senders_def wp_simps mpsc_idle)
next
  case False
  then show ?thesis by (simp add: mpsc_sender_drop_def decr_senders_def wp_simps)
qed

lemma sender_drop_guar:
  assumes u: "user_code A mpsc_inv step env" and s: "mpsc_inv s" and n: "senders s \<noteq> 0"
  shows "wp A (mpsc_sender_drop env) (\<lambda>_. step\<^sup>*\<^sup>* s) (\<lambda>_. step\<^sup>*\<^sup>* s) s"
proof -
  have "step s (s\<lparr>senders := senders s - 1\<rparr>)" if "senders s \<noteq> 1"
    by (rule sstep_step [OF sstep.drop_sender [OF word_gt_one [OF n that]]]) simp
  then show ?thesis
    by (intro wp_conseq [OF sender_drop_steps [OF assms]])
      (auto split: if_splits intro: steps_start [OF sstep.drop_last])
qed

lemma send_drop_call:
  assumes u: "user_code A mpsc_inv step env" and s: "mpsc_inv s"
  shows "wp A (mpsc_send_drop env) (\<lambda>_ (s', f'). step\<^sup>*\<^sup>* s s') (\<lambda>_ (s', f'). step\<^sup>*\<^sup>* s s') (s, f)"
  unfolding mpsc_send_drop_def by (rule wp_conseq [OF send_drop_steps [OF assms]]) auto

text \<open>Committing an outcome.\<close>

lemma commit_steps:
  assumes u: "user_code A mpsc_inv step env" and t: "mpsc_inv t"
  shows "wp A (mpsc_send_commit env r)
    (\<lambda>p (s', f'). p = Ready r \<and> f' = f\<lparr>sf_done := True, sf_waker_id := None, sf_outcome := None\<rparr>
       \<and> step\<^sup>*\<^sup>* t s' \<and> (r = Inr () \<longrightarrow> (\<exists>v. step\<^sup>*\<^sup>* t v \<and> step\<^sup>*\<^sup>* (wake_recv v) s')))
    (\<lambda>_ (s', f'). f' = f\<lparr>sf_done := True, sf_waker_id := None, sf_outcome := Some r\<rparr> \<and> step\<^sup>*\<^sup>* t s') (t, f)"
proof -
  have wake: "wp A (mpsc_wake_receiver env) (\<lambda>_ s'. step\<^sup>*\<^sup>* t s' \<and> (\<exists>v. step\<^sup>*\<^sup>* t v \<and> step\<^sup>*\<^sup>* (wake_recv v) s'))
      (\<lambda>_ s'. step\<^sup>*\<^sup>* t s') v" if v: "step\<^sup>*\<^sup>* t v" for v
  proof -
    have iv: "mpsc_inv v" using v t inv_steps by blast
    have "step\<^sup>*\<^sup>* t s'" if "step\<^sup>*\<^sup>* (wake_recv v) s'" for s'
      using v steps_start [OF sstep.wake _ that] by simp
    then show ?thesis
      using v by (intro wp_conseq [OF wake_receiver_steps [OF u mpsc_idle [OF iv] sstep_inv [OF sstep.wake iv]]]) auto
  qed
  have remove: "wp A (remove_send_waker env j) (\<lambda>_. step\<^sup>*\<^sup>* t) (\<lambda>_. step\<^sup>*\<^sup>* t) t" for j
    by (rule guar_from [OF guar_remove_send_waker [OF u] _ t]) simp
  show ?thesis
    unfolding mpsc_send_commit_def
    by (cases "sf_waker_id f"; cases "r = Inr ()")
      (auto simp: wp_simps intro!: wp_conseq [OF remove] wp_conseq [OF wake])
qed

end

text \<open>The two instances: the sender's steps alone, and the steps of both sides.\<close>

interpretation sender_ops: mpsc_sender "sstep q" q for q
  by unfold_locales (auto intro: sstep.close converse_rtranclp_into_rtranclp dest!: sender_side.senders_woken_steps)

interpretation shared_ops: mpsc_sender "mstep q" q for q
  by unfold_locales
    (auto intro: mstep_sstep sstep.close converse_rtranclp_into_rtranclp dest!: both_sides.senders_woken_steps)

text \<open>
  The send future, whose pushes are quiet: its own waker is dropped before the receiver is woken.
  The step relation is any that allows quiet pushes.
\<close>

locale mpsc_sending = mpsc_sender step True
  for step :: "('t, 'u) mpsc \<Rightarrow> ('t, 'u) mpsc \<Rightarrow> bool"
begin

lemma quiet_push:
  assumes "mpsc_inv s" and "\<not> send_closed s" and "\<not> at_capacity s" and "enqueued x s t"
  shows "step s t" and "mpsc_inv t"
proof -
  show "step s t"
    by (rule sstep_step [OF enqueued_push_quiet [OF assms(4,2,3)]]) (use assms(4) in \<open>auto simp: enqueued_def\<close>)
  then show "mpsc_inv t" by (rule inv_step [OF assms(1)])
qed

lemma quiet_settled:
  "mpsc_inv s \<Longrightarrow> \<not> send_closed s \<Longrightarrow> \<not> at_capacity s \<Longrightarrow> enqueued x s t \<Longrightarrow> step\<^sup>*\<^sup>* t s' \<Longrightarrow> step\<^sup>*\<^sup>* s s'"
  by (rule converse_rtranclp_into_rtranclp [of step, OF quiet_push(1)])

end

sublocale mpsc_sending \<subseteq> send_future mpsc_inv step send_closed mpsc_send_commit "step\<^sup>*\<^sup>*"
  "\<lambda>t s'. \<exists>v. step\<^sup>*\<^sup>* t v \<and> step\<^sup>*\<^sup>* (wake_recv v) s'" "\<lambda>A. admissible A mpsc_inv step"
proof (unfold_locales, goal_cases)
  case (1 s)
  then show ?case by (simp add: mpsc_inv_def)
next
  case (3 A env s x t f)
  then have "user_code A mpsc_inv step env" by (simp add: admissible_def)
  note t = quiet_push(2) [OF 3(2-5)]
  from commit_steps [OF \<open>user_code A mpsc_inv step env\<close> t, of "Inr ()"] show ?case
    by (rule wp_conseq) (use inv_steps t in auto)
next
  case (4 A env t e f)
  then have "user_code A mpsc_inv step env" by (simp add: admissible_def)
  from commit_steps [OF this 4(2), of "Inl e"] show ?case by simp
qed

text \<open>Where quiet pushes are steps, every poll of a \<open>Send\<close> future is made of steps.\<close>

context mpsc_sending
begin

lemma send_poll_call:
  assumes env: "admissible A mpsc_inv step env" and s: "mpsc_inv s" and f: "send_ok f"
  shows "wp A (mpsc_send_poll env w) (\<lambda>_ (s', f'). step\<^sup>*\<^sup>* s s') (\<lambda>_ (s', f'). step\<^sup>*\<^sup>* s s') (s, f)"
  unfolding mpsc_send_poll_def
  by (rule wp_conseq [OF send_poll_any [OF env s f, where Q = "step\<^sup>*\<^sup>* s" and E = "step\<^sup>*\<^sup>* s"]])
    (use send_result_steps [OF quiet_settled s] in auto)

end

interpretation sender_send: mpsc_sending "sstep True"
  by unfold_locales

interpretation mpsc_send: mpsc_sending "mstep True"
  by unfold_locales

end
