(* ===== verification/Mpsc_Receiver.thy ===== *)
theory Mpsc_Receiver
  imports Mpsc_Sender
begin

text \<open>
  The operations of the \<open>mpsc\<close> receiver. They borrow the receiver mutably, so the user code they
  call can act on the channel only by the sender's steps: it cannot receive, and it cannot touch
  the receiver's waker other than by waking it. The first section says what such steps preserve.
\<close>

section \<open>What the sender's side cannot change\<close>

text \<open>The registered waker stays, or it was woken.\<close>

definition waker_kept :: "('t, 'u) mpsc \<Rightarrow> ('t, 'u) mpsc \<Rightarrow> bool" where
  "waker_kept s s' \<longleftrightarrow> recv_waker s' = recv_waker s
     \<or> recv_waker s' = None \<and> (\<forall>w. recv_waker s = Some w \<longrightarrow> Woke w \<in> set (new_log s s'))"

lemma sstep_keeps:
  assumes "sstep q s s'"
  shows "receiver_alive s' = receiver_alive s" and "popped (log s') = popped (log s)"
    and "capacity s' = capacity s" and "closed s \<longrightarrow> closed s'" and "senders s = 0 \<longrightarrow> senders s' = 0"
    and "\<exists>ys. queue s' = queue s @ ys" and "send_closed s \<longrightarrow> queue s' = queue s"
    and "waker_kept s s'"
proof -
  show "receiver_alive s' = receiver_alive s" using assms by cases simp_all
  show "popped (log s') = popped (log s)" using assms by cases simp_all
  show "capacity s' = capacity s" using assms by cases simp_all
  show "closed s \<longrightarrow> closed s'" using assms by cases simp_all
  show "senders s = 0 \<longrightarrow> senders s' = 0" using assms by cases auto
  show "\<exists>ys. queue s' = queue s @ ys" using assms by cases simp_all
  show "send_closed s \<longrightarrow> queue s' = queue s" using assms by cases simp_all
  show "waker_kept s s'" using assms
    by cases (simp_all add: waker_kept_def new_log_def wake_recv_log split: option.splits)
qed

lemma ssteps_keep:
  assumes "(sstep q)\<^sup>*\<^sup>* s s'"
  shows "receiver_alive s' = receiver_alive s" and "popped (log s') = popped (log s)"
    and "capacity s' = capacity s" and "closed s \<longrightarrow> closed s'" and "senders s = 0 \<longrightarrow> senders s' = 0"
    and "\<exists>ys. queue s' = queue s @ ys" and "send_closed s \<longrightarrow> queue s' = queue s"
    and "waker_kept s s'"
  using assms
proof (induction rule: rtranclp_induct)
  case (step t u)
  note k = sstep_keeps [OF step.hyps(2)]
  { case 1 show ?case using step.IH(1) k(1) by simp }
  { case 2 show ?case using step.IH(2) k(2) by simp }
  { case 3 show ?case using step.IH(3) k(3) by simp }
  { case 4 show ?case using step.IH(4) k(4) by simp }
  { case 5 show ?case using step.IH(5) k(5) by simp }
  { case 6 show ?case using step.IH(6) k(6) by auto }
  { case 7 show ?case using step.IH(1,4,7) k(7) by auto }
  { case 8
    have "set (new_log s t) \<subseteq> set (new_log s u)" "set (new_log t u) \<subseteq> set (new_log s u)"
      using sender_side.new_log_mono [OF step.hyps(1), of u] step.hyps(2) by blast+
    then show ?case using step.IH(8) k(8) unfolding waker_kept_def by auto }
qed (auto simp: waker_kept_def)

lemma disconnected_stable: "(sstep q)\<^sup>*\<^sup>* s s' \<Longrightarrow> mpsc_disconnected s \<Longrightarrow> mpsc_disconnected s'"
  using ssteps_keep(4,5) [of q s s'] by (auto simp: mpsc_disconnected_def)

text \<open>What no step of either side undoes.\<close>

lemma mstep_keeps:
  assumes "mstep q s s'"
  shows "capacity s' = capacity s" and "closed s \<longrightarrow> closed s'" and "\<not> receiver_alive s \<longrightarrow> \<not> receiver_alive s'"
    and "senders s = 0 \<longrightarrow> senders s' = 0" and "send_closed s \<longrightarrow> pushed (log s') = pushed (log s)"
proof -
  consider "sstep q s s'" | "rstep s s'" using assms by (auto simp: mstep_def)
  note this [case_names sender receiver]
  then have "capacity s' = capacity s \<and> (closed s \<longrightarrow> closed s') \<and> (\<not> receiver_alive s \<longrightarrow> \<not> receiver_alive s')
    \<and> (senders s = 0 \<longrightarrow> senders s' = 0) \<and> (send_closed s \<longrightarrow> pushed (log s') = pushed (log s))"
  proof cases
    case sender
    note k = sstep_keeps [OF sender]
    from sender have "send_closed s \<longrightarrow> pushed (log s') = pushed (log s)" by cases simp_all
    with k show ?thesis by simp
  next
    case receiver
    then show ?thesis by cases simp_all
  qed
  then show "capacity s' = capacity s" and "closed s \<longrightarrow> closed s'" and "\<not> receiver_alive s \<longrightarrow> \<not> receiver_alive s'"
    and "senders s = 0 \<longrightarrow> senders s' = 0" and "send_closed s \<longrightarrow> pushed (log s') = pushed (log s)"
    by simp_all
qed

lemma msteps_keep:
  assumes "(mstep q)\<^sup>*\<^sup>* s s'"
  shows "capacity s' = capacity s" and "closed s \<longrightarrow> closed s'" and "\<not> receiver_alive s \<longrightarrow> \<not> receiver_alive s'"
    and "senders s = 0 \<longrightarrow> senders s' = 0" and "send_closed s \<longrightarrow> pushed (log s') = pushed (log s)"
  using assms
proof (induction rule: rtranclp_induct)
  case (step t u)
  note k = mstep_keeps [OF step.hyps(2)]
  { case 1 show ?case using step.IH(1) k(1) by simp }
  { case 2 show ?case using step.IH(2) k(2) by simp }
  { case 3 show ?case using step.IH(3) k(3) by simp }
  { case 4 show ?case using step.IH(4) k(4) by simp }
  { case 5 show ?case using step.IH(2,3,5) k(5) by auto }
qed auto

section \<open>Receiving\<close>

lemma mstep_of_sstep: "(sstep q)\<^sup>*\<^sup>* s s' \<Longrightarrow> (mstep q)\<^sup>*\<^sup>* s s'"
  by (erule rtranclp_mono [THEN predicate2D, rotated]) (auto simp: mstep_def)

text \<open>The state right after the item at the head of the queue was taken.\<close>

definition dequeued :: "'t \<Rightarrow> ('t, 'u) mpsc \<Rightarrow> ('t, 'u) mpsc \<Rightarrow> bool" where
  "dequeued x s t \<longleftrightarrow> (\<exists>f. queue s = x # flavor_list f \<and> flavor_inv f \<and> flavor_capacity f = capacity s
     \<and> t = s\<lparr>flavor := f, log := log s @ [Popped x]\<rparr>)"

lemma dequeued_rstep: "dequeued x s t \<Longrightarrow> rstep s t"
  by (auto simp: dequeued_def intro: rstep.pop)

lemma mpsc_pop_steps:
  assumes "mpsc_inv s" and "queue s = [] \<Longrightarrow> Q None s" and "\<And>x t. dequeued x s t \<Longrightarrow> Q (Some x) t"
  shows "wp A chan_pop Q E s"
  by (rule wp_chan_pop) (use assms in \<open>auto simp: mpsc_inv_def dequeued_def\<close>)

text \<open>A disconnected channel has no receiver waker to clear, so clearing runs no user code there.\<close>

lemma clear_disconnected:
  assumes "mpsc_inv s" and "mpsc_disconnected s"
  shows "wp A (mpsc_clear_recv_waker env) Q E s = Q () s"
proof -
  have "idle s" and none: "recv_waker s = None" using assms by (auto simp: mpsc_inv_def)
  then have eq: "s\<lparr>recv_waker := None\<rparr> = s" by simp
  show ?thesis
    using \<open>idle s\<close> none
    by (simp add: mpsc_clear_recv_waker_def wp_simps wp_take_recv_waker drop_waker_option_def eq)
qed

text \<open>
  What the operations do, in terms of the steps \<open>U\<close> of the user code that runs inside them. An item was
  received between \<open>s\<close> and \<open>s'\<close>: it was the head of the queue, and every sender parked at that moment
  has been woken since.
\<close>

definition received :: "(('t, 'u) mpsc \<Rightarrow> ('t, 'u) mpsc \<Rightarrow> bool) \<Rightarrow> 't \<Rightarrow> ('t, 'u) mpsc \<Rightarrow> ('t, 'u) mpsc \<Rightarrow> bool" where
  "received U x s s' \<longleftrightarrow> (\<exists>t. dequeued x s t \<and> U\<^sup>*\<^sup>* (t\<lparr>send_wakers := []\<rparr>) s'
     \<and> all_woken (send_wakers s) (new_log t s'))"

text \<open>
  Registration: the waker is cloned, user code; if the channel is not terminal by then the clone
  \<open>v\<close> is stored, and what it replaced is dropped, user code again.
\<close>

definition registered :: "(('t, 'u) mpsc \<Rightarrow> ('t, 'u) mpsc \<Rightarrow> bool) \<Rightarrow> ('t, 'u) mpsc \<Rightarrow> waker \<Rightarrow> ('t, 'u) mpsc \<Rightarrow> bool" where
  "registered U s v s' \<longleftrightarrow> (\<exists>t. U\<^sup>*\<^sup>* s t \<and> \<not> mpsc_terminal t \<and> U\<^sup>*\<^sup>* (t\<lparr>recv_waker := Some v\<rparr>) s')"

text \<open>
  What a poll did before it ended or took an item: nothing but the registration of \<open>w\<close> and steps of
  senders. Nothing was received.
\<close>

definition awaited :: "(('t, 'u) mpsc \<Rightarrow> ('t, 'u) mpsc \<Rightarrow> bool) \<Rightarrow> waker \<Rightarrow> ('t, 'u) mpsc \<Rightarrow> ('t, 'u) mpsc \<Rightarrow> bool" where
  "awaited U w s s' \<longleftrightarrow> U\<^sup>*\<^sup>* s s' \<or> registered U s w s'"

definition recv_polled :: "(('t, 'u) mpsc \<Rightarrow> ('t, 'u) mpsc \<Rightarrow> bool) \<Rightarrow> waker \<Rightarrow> ('t, 'u) mpsc \<Rightarrow> 't option poll \<Rightarrow> ('t, 'u) mpsc \<Rightarrow> bool" where
  "recv_polled U w s p s' \<longleftrightarrow> (case p of
     Ready (Some x) \<Rightarrow> \<exists>t. awaited U w s t \<and> received U x t s'
   | Ready None \<Rightarrow> awaited U w s s' \<and> queue s' = [] \<and> mpsc_disconnected s' \<and> recv_waker s' = None
   | Pending \<Rightarrow> registered U s w s' \<and> queue s' = [] \<and> \<not> mpsc_disconnected s')"

definition recv_unwound :: "(('t, 'u) mpsc \<Rightarrow> ('t, 'u) mpsc \<Rightarrow> bool) \<Rightarrow> waker \<Rightarrow> ('t, 'u) mpsc \<Rightarrow> ('t, 'u) mpsc \<Rightarrow> bool" where
  "recv_unwound U w s s' \<longleftrightarrow> awaited U w s s'
     \<or> (\<exists>x t. awaited U w s t \<and> received U x t s' \<and> ItemDropped x \<in> set (new_log t s'))"

text \<open>The interface to that user code: it acts as senders do.\<close>

locale mpsc_receiving = unparking mpsc_inv U
  for U :: "('t, 'u) mpsc \<Rightarrow> ('t, 'u) mpsc \<Rightarrow> bool" +
  fixes q :: bool
  assumes U_sstep: "U s s' \<Longrightarrow> (sstep q)\<^sup>*\<^sup>* s s'"
begin

lemma U_ssteps: "U\<^sup>*\<^sup>* s s' \<Longrightarrow> (sstep q)\<^sup>*\<^sup>* s s'"
  by (induction rule: rtranclp_induct) (auto dest: U_sstep)

lemmas U_keep = ssteps_keep [OF U_ssteps]

text \<open>
  Waking the senders with the item in a local. When a waker unwinds, the item is dropped and lost.
\<close>

lemma deliver_steps:
  assumes env: "admissible A mpsc_inv U env" and A: "DoublePanic \<in> A"
    and s: "mpsc_inv s" and t: "dequeued x s t"
  shows "wp A (on_unwind (drop_item env x) (wake_senders env)) (\<lambda>_ s'. received U x s s')
    (\<lambda>_ s'. received U x s s' \<and> ItemDropped x \<in> set (new_log s s')) t"
proof -
  from env have u: "user_code A mpsc_inv U env" and i: "isolates A env"
    by (auto simp: admissible_def)
  have it: "mpsc_inv t" using s t by (blast intro: rstep_inv dequeued_rstep)
  have ws: "send_wakers t = send_wakers s" and l: "log t = log s @ [Popped x]" using t by (auto simp: dequeued_def)
  have rec: "received U x s s'" if "U\<^sup>*\<^sup>* (t\<lparr>send_wakers := []\<rparr>) s'" "all_woken (send_wakers t) (new_log t s')" for s'
    using that t ws by (auto simp: received_def)
  have drop: "wp A (drop_item env x) (\<lambda>_ s'. received U x s s' \<and> ItemDropped x \<in> set (new_log s s')) (\<lambda>_ _. DoublePanic \<in> A) v"
    if v: "U\<^sup>*\<^sup>* (t\<lparr>send_wakers := []\<rparr>) v" "all_woken (send_wakers t) (new_log t v)" for v
  proof -
    let ?v = "v\<lparr>log := log v @ [ItemDropped x]\<rparr>"
    have tv: "U\<^sup>*\<^sup>* t v" using v by (rule take_steps)
    have v': "U v ?v" by (rule step_emit) simp
    have iv: "mpsc_inv ?v" using inv_step [OF inv_steps [OF tv it] v'] .
    show ?thesis
      unfolding drop_item_def wp_simps
    proof (rule guar_wp [OF user_codeD(5) [OF u] iv])
      fix s' assume w: "U\<^sup>*\<^sup>* ?v s'"
      have vs: "U\<^sup>*\<^sup>* v s'" using v' w by (rule converse_rtranclp_into_rtranclp)
      have "log s' = log v @ [ItemDropped x] @ new_log ?v s'" using steps_log [OF w] by simp
      moreover have "log v = log s @ Popped x # new_log t v" using steps_log [OF tv] l by simp
      ultimately have "ItemDropped x \<in> set (new_log s s')" by (simp add: new_log_def [of s s'])
      moreover have "all_woken (send_wakers t) (new_log t s')"
        using v(2) new_log_mono(1) [OF tv vs] unfolding all_woken_def by blast
      ultimately show "received U x s s' \<and> ItemDropped x \<in> set (new_log s s')"
        using rec v(1) vs by (metis rtranclp_trans)
    qed (use A in simp)
  qed
  show ?thesis
    unfolding wp_on_unwind
    by (rule wp_conseq [OF wake_senders_wakes [OF u i it]]) (use rec drop in blast)+
qed

lemma try_recv_steps:
  assumes env: "admissible A mpsc_inv U env" and A: "DoublePanic \<in> A" and s: "mpsc_inv s"
  shows "wp A (mpsc_try_recv env)
    (\<lambda>r s'. case r of
       Inr x \<Rightarrow> received U x s s'
     | Inl e \<Rightarrow> s' = s \<and> queue s = [] \<and> e = (if mpsc_disconnected s then Disconnected else Empty))
    (\<lambda>_ s'. \<exists>x. received U x s s' \<and> ItemDropped x \<in> set (new_log s s')) s"
  unfolding mpsc_try_recv_def wp_bindM [of _ chan_pop]
proof (rule mpsc_pop_steps [OF s], goal_cases)
  case 1
  then show ?case by (simp add: wp_simps)
next
  case (2 x t)
  show ?case
    by (simp add: wp_simps del: wp_on_unwind) (rule wp_conseq [OF deliver_steps [OF env A s 2]], auto)
qed

lemma mpsc_clone_steps:
  assumes u: "user_code A mpsc_inv U env" and c: "same_clones env" and s: "mpsc_inv s"
  shows "wp A (clone_waker env w) (\<lambda>v s'. v = w \<and> U\<^sup>*\<^sup>* s s') (\<lambda>_. U\<^sup>*\<^sup>* s) s"
proof -
  have "wp A (clone_waker env w) (\<lambda>_. U\<^sup>*\<^sup>* s) (\<lambda>_. U\<^sup>*\<^sup>* s) s"
    by (rule guar_from [OF guar_user(3) [OF u] _ s]) simp
  then show ?thesis
    using c by (auto dest!: wp_clone_same)
qed

lemma register_steps:
  assumes u: "user_code A mpsc_inv U env" and c: "same_clones env" and s: "mpsc_inv s"
    and Q: "\<And>s'. mpsc_inv s' \<Longrightarrow> U\<^sup>*\<^sup>* s s' \<and> mpsc_terminal s' \<or> registered U s w s' \<Longrightarrow> Q () s'"
    and E: "\<And>p s'. mpsc_inv s' \<Longrightarrow> U\<^sup>*\<^sup>* s s' \<or> registered U s w s' \<Longrightarrow> E p s'"
  shows "wp A (mpsc_register_recv_waker env w) Q E s"
proof -
  have dropped: "wp A (drop_waker env w) Q E t" if "U\<^sup>*\<^sup>* s t" "mpsc_terminal t" for t
  proof -
    have "U\<^sup>*\<^sup>* s t' \<and> mpsc_terminal t'" if "U\<^sup>*\<^sup>* t t'" for t'
      using \<open>U\<^sup>*\<^sup>* s t\<close> \<open>mpsc_terminal t\<close> that U_keep(1,4,5) [OF that]
      by (auto simp: mpsc_terminal_def)
    then show ?thesis
      using inv_steps [OF that(1) s]
      by (intro guar_wp [OF guar_user(4) [OF u]]) (simp_all add: Q E)
  qed
  have stored: "wp A (drop_waker_option env v) Q E (t\<lparr>recv_waker := Some w\<rparr>)"
    if t: "U\<^sup>*\<^sup>* s t" "\<not> mpsc_terminal t" for t v
  proof -
    have "mpsc_inv (t\<lparr>recv_waker := Some w\<rparr>)"
      using t s inv_steps rstep_inv [OF rstep.register] by blast
    moreover have "registered U s w t'" if "U\<^sup>*\<^sup>* (t\<lparr>recv_waker := Some w\<rparr>) t'" for t'
      using t that by (auto simp: registered_def)
    ultimately show ?thesis
      by (intro guar_wp [OF guar_user(7) [OF u]]) (simp_all add: Q E)
  qed
  show ?thesis
  proof (cases "mpsc_terminal s")
    case True
    then show ?thesis using Q [OF s] by (simp add: mpsc_register_recv_waker_def wp_simps)
  next
    case False
    have idle: "idle t" if "U\<^sup>*\<^sup>* s t" for t
      using that s inv_steps by (auto simp: mpsc_inv_def)
    show ?thesis
      using False s inv_steps
      by (simp add: mpsc_register_recv_waker_def wp_simps, intro wp_conseq [OF mpsc_clone_steps [OF u c s]])
        (auto simp: wp_simps wp_take_recv_waker idle dropped stored intro: E)
  qed
qed

lemma registered_keeps:
  assumes "registered U s v s'"
  shows "receiver_alive s' = receiver_alive s" and "popped (log s') = popped (log s)"
    and "recv_waker s' = Some v \<or> Woke v \<in> set (new_log s s')" and "\<exists>ys. queue s' = queue s @ ys"
proof -
  obtain t where t: "U\<^sup>*\<^sup>* s t" and s': "U\<^sup>*\<^sup>* (t\<lparr>recv_waker := Some v\<rparr>) s'"
    using assms by (auto simp: registered_def)
  note k = U_keep [OF t] and k' = U_keep [OF s']
  show "receiver_alive s' = receiver_alive s" and "popped (log s') = popped (log s)"
    using k(1,2) k'(1,2) by simp_all
  show "\<exists>ys. queue s' = queue s @ ys" using k(6) k'(6) by auto
  have "new_log s s' = new_log s t @ new_log (t\<lparr>recv_waker := Some v\<rparr>) s'"
    using steps_log [OF t] steps_log [OF s'] by (simp add: new_log_def [of s s'])
  then show "recv_waker s' = Some v \<or> Woke v \<in> set (new_log s s')"
    using k'(8) by (auto simp: waker_kept_def)
qed

lemma awaited_keeps:
  assumes "awaited U w s s'"
  shows "receiver_alive s' = receiver_alive s" and "popped (log s') = popped (log s)"
    and "\<exists>ys. queue s' = queue s @ ys"
  using assms registered_keeps [of s w s'] U_keep [of s s'] unfolding awaited_def by metis+

lemma mpsc_poll_recv_steps:
  assumes env: "admissible A mpsc_inv U env" and c: "same_clones env" and A: "DoublePanic \<in> A"
    and s: "mpsc_inv s" and alive: "receiver_alive s"
  shows "wp A (mpsc_poll_recv env w) (recv_polled U w s) (\<lambda>_. recv_unwound U w s) s"
proof -
  from env have u: "user_code A mpsc_inv U env" by (simp add: admissible_def)
  have deliver: "wp A (on_unwind (drop_item env x) (wake_senders env))
      (\<lambda>_. recv_polled U w s (Ready (Some x))) (\<lambda>_. recv_unwound U w s) t'"
    if "awaited U w s t" "mpsc_inv t" "dequeued x t t'" for x t t'
    using that
    by (intro wp_conseq [OF deliver_steps [OF env A that(2,3)]]) (auto simp: recv_polled_def recv_unwound_def)
  have recheck: "wp A (bindM chan_pop (\<lambda>r'. case r' of
            Some x \<Rightarrow> thenM (on_unwind (drop_item env x) (wake_senders env)) (ret (Ready (Some x)))
          | None \<Rightarrow> bindM (gets mpsc_disconnected) (\<lambda>d'.
            if d' then thenM (mpsc_clear_recv_waker env) (ret (Ready None))
            else ret Pending))) (recv_polled U w s) (\<lambda>_. recv_unwound U w s) t"
    if t: "U\<^sup>*\<^sup>* s t \<and> mpsc_terminal t \<or> registered U s w t" "mpsc_inv t" for t
  proof -
    have a: "awaited U w s t" using t(1) by (auto simp: awaited_def)
    then have "mpsc_terminal t \<longleftrightarrow> mpsc_disconnected t"
      using alive awaited_keeps(1) [OF a] by (auto simp: mpsc_terminal_def mpsc_disconnected_def)
    then have "recv_polled U w s (if mpsc_disconnected t then Ready None else Pending) t" if "queue t = []"
      using that t a by (auto simp: recv_polled_def mpsc_inv_def)
    then show ?thesis
      unfolding wp_bindM [of _ chan_pop]
      by (intro mpsc_pop_steps [OF t(2)])
        (auto simp: wp_simps clear_disconnected [OF t(2)] intro: deliver [OF a t(2)] simp del: wp_on_unwind)
  qed
  have a0: "awaited U w s s" by (simp add: awaited_def)
  show ?thesis
    unfolding mpsc_poll_recv_def wp_bindM [of _ chan_pop]
  proof (rule mpsc_pop_steps [OF s], goal_cases)
    case 1
    show ?case
    proof (cases "mpsc_disconnected s")
      case True
      with 1 s a0 show ?thesis by (simp add: wp_simps clear_disconnected recv_polled_def mpsc_inv_def)
    next
      case False
      then show ?thesis
        by (simp add: wp_bindM [of _ "gets _"] wp_gets wp_thenM)
          (rule register_steps [OF u c s], auto intro: recheck simp: recv_unwound_def awaited_def)
    qed
  next
    case (2 x t)
    with a0 s show ?case
      by (simp add: wp_simps deliver del: wp_on_unwind)
  qed
qed

text \<open>The \<open>Recv\<close> future, and clearing the waker.\<close>

lemma recv_poll_steps:
  assumes "admissible A mpsc_inv U env" and "same_clones env" and "DoublePanic \<in> A"
    and "mpsc_inv s" and "receiver_alive s"
  shows "wp A (mpsc_recv_poll env w) (\<lambda>p (s', done). recv_polled U w s p s' \<and> (done \<longleftrightarrow> d \<or> is_ready p))
    (\<lambda>_ (s', done). recv_unwound U w s s' \<and> done = d) (s, d)"
  unfolding mpsc_recv_poll_def
  by (simp add: wp_simps, rule wp_conseq [OF mpsc_poll_recv_steps [OF assms]]) (auto simp: wp_simps split: poll.splits)


lemma clear_steps:
  assumes u: "user_code A mpsc_inv U env" and s: "mpsc_inv s"
    and Q: "\<And>s'. U\<^sup>*\<^sup>* (s\<lparr>recv_waker := None\<rparr>) s' \<Longrightarrow> mpsc_inv s' \<Longrightarrow> recv_waker s' = None \<Longrightarrow> Q () s'"
    and E: "\<And>p s'. U\<^sup>*\<^sup>* (s\<lparr>recv_waker := None\<rparr>) s' \<Longrightarrow> mpsc_inv s' \<Longrightarrow> recv_waker s' = None \<Longrightarrow> E p s'"
  shows "wp A (mpsc_clear_recv_waker env) Q E s"
proof -
  have inv: "mpsc_inv (s\<lparr>recv_waker := None\<rparr>)" using s rstep_inv [OF rstep.clear] by blast
  have "recv_waker s' = None" if "U\<^sup>*\<^sup>* (s\<lparr>recv_waker := None\<rparr>) s'" for s'
    using U_keep(8) [OF that] by (auto simp: waker_kept_def)
  with Q E have "wp A (drop_waker_option env (recv_waker s)) Q E (s\<lparr>recv_waker := None\<rparr>)"
    by (intro guar_wp [OF guar_user(7) [OF u] inv]) auto
  then show ?thesis
    using s by (simp add: mpsc_clear_recv_waker_def wp_simps wp_take_recv_waker mpsc_idle)
qed

end

interpretation receives: mpsc_receiving "sstep q" q for q
  by unfold_locales auto

text \<open>
  Steps \<open>V\<close> that contain the operations of the receiver: an item may leave the queue when all parked
  senders are then woken.
\<close>

locale mpsc_consuming = mpsc_receiving U q
  for U :: "('t, 'u) mpsc \<Rightarrow> ('t, 'u) mpsc \<Rightarrow> bool" and q +
  fixes V :: "('t, 'u) mpsc \<Rightarrow> ('t, 'u) mpsc \<Rightarrow> bool"
  assumes widen: "U s s' \<Longrightarrow> V\<^sup>*\<^sup>* s s'"
    and take_woken: "dequeued x s t \<Longrightarrow> U\<^sup>*\<^sup>* (t\<lparr>send_wakers := []\<rparr>) s' \<Longrightarrow> all_woken (send_wakers s) (new_log t s') \<Longrightarrow> V\<^sup>*\<^sup>* s s'"
    and register_step: "\<not> mpsc_terminal s \<Longrightarrow> V s (s\<lparr>recv_waker := Some w\<rparr>)"
    and clear_step: "V s (s\<lparr>recv_waker := None\<rparr>)"
begin

lemma widen_steps: "U\<^sup>*\<^sup>* s s' \<Longrightarrow> V\<^sup>*\<^sup>* s s'"
  by (induction rule: rtranclp_induct) (auto dest: widen)

lemma received_steps: "received U x s s' \<Longrightarrow> V\<^sup>*\<^sup>* s s'"
  unfolding received_def using take_woken by blast

lemma registered_steps: "registered U s v s' \<Longrightarrow> V\<^sup>*\<^sup>* s s'"
  unfolding registered_def using widen_steps register_step by (meson converse_rtranclp_into_rtranclp rtranclp_trans)

lemma awaited_steps: "awaited U w s s' \<Longrightarrow> V\<^sup>*\<^sup>* s s'"
  unfolding awaited_def using widen_steps registered_steps by blast

lemma polled_steps:
  "recv_polled U w s p s' \<Longrightarrow> V\<^sup>*\<^sup>* s s'" "recv_unwound U w s s' \<Longrightarrow> V\<^sup>*\<^sup>* s s'"
proof -
  have taken: "V\<^sup>*\<^sup>* s s'" if "awaited U w s t" "received U x t s'" for x t
    using awaited_steps [OF that(1)] received_steps [OF that(2)] by simp
  show "recv_polled U w s p s' \<Longrightarrow> V\<^sup>*\<^sup>* s s'"
    using taken by (auto simp: recv_polled_def intro: awaited_steps registered_steps split: poll.splits option.splits)
  show "recv_unwound U w s s' \<Longrightarrow> V\<^sup>*\<^sup>* s s'"
    using taken by (auto simp: recv_unwound_def intro: awaited_steps)
qed

lemma recv_drop_steps:
  assumes "user_code A mpsc_inv U env" and "mpsc_inv s"
  shows "wp A (mpsc_recv_drop env)
    (\<lambda>_ (s', done). done = d \<and> (if d then s' = s else V\<^sup>*\<^sup>* s s' \<and> recv_waker s' = None))
    (\<lambda>_ (s', done). done = d \<and> \<not> d \<and> V\<^sup>*\<^sup>* s s' \<and> recv_waker s' = None) (s, d)"
proof -
  have "V\<^sup>*\<^sup>* s s'" if "U\<^sup>*\<^sup>* (s\<lparr>recv_waker := None\<rparr>) s'" for s'
    using clear_step widen_steps [OF that] by (rule converse_rtranclp_into_rtranclp)
  then show ?thesis
    by (cases d) (auto simp: mpsc_recv_drop_def wp_simps intro: clear_steps [OF assms])
qed

end

lemma taken_steps:
  assumes "dequeued x s t" and "(sstep q)\<^sup>*\<^sup>* (t\<lparr>send_wakers := []\<rparr>) s'"
  shows "(mstep q)\<^sup>*\<^sup>* s s'"
proof -
  have "(sstep q)\<^sup>*\<^sup>* t s'" by (rule mpsc_start_step(1) [OF sstep.take assms(2)])
  with mpsc_start_step(2) [OF mstep_rstep [OF dequeued_rstep [OF assms(1)]]] show ?thesis by (blast intro: mstep_of_sstep)
qed

interpretation consumes: mpsc_consuming "sstep q" q "mstep q" for q
  by unfold_locales (auto intro: taken_steps mstep_sstep mstep_rstep rstep.register rstep.clear)

section \<open>Dropping the receiver\<close>

text \<open>
  Draining. Once the receiver is gone nothing is pushed any more, so the queue only shrinks and
  the fuel suffices. Every queued item is popped and its destructor run, even when destructors
  panic (a second panic while unwinding aborts).
\<close>

definition drained :: "bool \<Rightarrow> ('t, 'u) mpsc \<Rightarrow> ('t, 'u) mpsc \<Rightarrow> bool" where
  "drained q s s' \<longleftrightarrow> (mstep q)\<^sup>*\<^sup>* s s' \<and> \<not> receiver_alive s' \<and> (recv_waker s = None \<longrightarrow> recv_waker s' = None)
     \<and> (\<exists>xs. queue s = xs @ queue s' \<and> (\<forall>x \<in> set xs. ItemDropped x \<in> set (new_log s s')))"

lemma mpsc_drained_refl: "\<not> receiver_alive s \<Longrightarrow> drained q s s"
  by (simp add: drained_def)

lemma mpsc_drained_trans:
  assumes "drained q s t" and "drained q t u"
  shows "drained q s u"
proof -
  have st: "(mstep q)\<^sup>*\<^sup>* s t" and tu: "(mstep q)\<^sup>*\<^sup>* t u" using assms by (auto simp: drained_def)
  obtain xs ys where xs: "queue s = xs @ queue t" "\<forall>x \<in> set xs. ItemDropped x \<in> set (new_log s t)"
    and ys: "queue t = ys @ queue u" "\<forall>x \<in> set ys. ItemDropped x \<in> set (new_log t u)"
    using assms unfolding drained_def by blast
  have "queue s = (xs @ ys) @ queue u \<and> (\<forall>x \<in> set (xs @ ys). ItemDropped x \<in> set (new_log s u))"
    using xs ys both_sides.new_log_mono [OF st tu] by auto
  with assms st tu show ?thesis unfolding drained_def by (meson rtranclp_trans)
qed

lemma drop_popped:
  assumes u: "user_code A mpsc_inv (sstep q) env" and s: "mpsc_inv s" and dead: "\<not> receiver_alive s"
    and t: "dequeued x s t"
    and Q: "\<And>s'. drained q s s' \<Longrightarrow> mpsc_inv s' \<Longrightarrow> queue s = x # queue s' \<Longrightarrow> Q () s'"
    and E: "\<And>p s'. drained q s s' \<Longrightarrow> mpsc_inv s' \<Longrightarrow> queue s = x # queue s' \<Longrightarrow> E p s'"
  shows "wp A (drop_item env x) Q E t"
proof -
  let ?t = "t\<lparr>log := log t @ [ItemDropped x]\<rparr>"
  have q: "queue s = x # queue t" and l: "log t = log s @ [Popped x]" and w: "recv_waker t = recv_waker s"
    and al: "\<not> receiver_alive t" using t dead by (auto simp: dequeued_def)
  have st: "mstep q s t" and tt: "sstep q t ?t" using t by (auto simp: mstep_def dequeued_rstep sstep.event)
  have inv: "mpsc_inv ?t" using s t by (blast intro: rstep_inv dequeued_rstep sstep_inv [OF tt])
  have post: "drained q s s' \<and> queue s = x # queue s'" if ts: "(sstep q)\<^sup>*\<^sup>* ?t s'" for s'
  proof -
    note k = ssteps_keep [OF ts]
    have "(mstep q)\<^sup>*\<^sup>* s s'"
      using st mstep_of_sstep [OF mpsc_start_step(1) [OF tt ts]] by (rule converse_rtranclp_into_rtranclp)
    moreover have "queue s' = queue t" and "\<not> receiver_alive s'" using k(1,7) al by auto
    moreover have "recv_waker s = None \<longrightarrow> recv_waker s' = None" using k(8) w by (auto simp: waker_kept_def)
    moreover have "ItemDropped x \<in> set (new_log s s')"
      using sender_side.steps_log [OF ts] l by (simp add: new_log_def [of s s'])
    ultimately show ?thesis using q by (simp add: drained_def)
  qed
  show ?thesis
    unfolding drop_item_def wp_simps
    by (rule sender_side.guar_wp [OF sender_side.user_codeD(5) [OF u] inv]) (use post Q E in auto)
qed

lemma mpsc_drain_loop_steps:
  assumes u: "user_code A mpsc_inv (sstep q) env"
  shows "mpsc_inv s \<Longrightarrow> \<not> receiver_alive s \<Longrightarrow> length (queue s) < n \<Longrightarrow>
    wp A (mpsc_drain_loop env n) (\<lambda>_ s'. drained q s s' \<and> mpsc_inv s' \<and> queue s' = [])
      (\<lambda>_ s'. drained q s s' \<and> mpsc_inv s' \<and> length (queue s') < length (queue s)) s"
proof (induction n arbitrary: s)
  case (Suc n)
  show ?case
    unfolding mpsc_drain_loop.simps wp_bindM
  proof (rule mpsc_pop_steps [OF Suc.prems(1)], goal_cases)
    case 1
    then show ?case using Suc.prems by (simp add: wp_simps mpsc_drained_refl)
  next
    case (2 x t)
    show ?case
      unfolding option.case wp_simps
    proof (rule drop_popped [OF u Suc.prems(1,2) 2], goal_cases)
      case (1 s')
      then have "\<not> receiver_alive s'" "length (queue s') < n" using Suc.prems(3) by (auto simp: drained_def)
      from Suc.IH [OF 1(2) this] show ?case
        by (rule wp_conseq) (use 1 in \<open>auto intro: mpsc_drained_trans\<close>)
    qed simp
  qed
qed simp

lemma mpsc_drain_fuel_steps:
  assumes u: "user_code A mpsc_inv (sstep q) env" and A: "DoublePanic \<in> A"
  shows "mpsc_inv s \<Longrightarrow> \<not> receiver_alive s \<Longrightarrow> length (queue s) < n \<Longrightarrow>
    wp A (mpsc_drain_fuel env n) (\<lambda>_ s'. drained q s s' \<and> mpsc_inv s' \<and> queue s' = [])
      (\<lambda>_ s'. drained q s s' \<and> mpsc_inv s' \<and> queue s' = []) s"
proof (induction n arbitrary: s)
  case (Suc n)
  show ?case
    unfolding mpsc_drain_fuel.simps wp_on_unwind
  proof (rule wp_conseq [OF mpsc_drain_loop_steps [OF u Suc.prems]], goal_cases)
    case (2 p s')
    then have s': "drained q s s'" "mpsc_inv s'" "\<not> receiver_alive s'" "length (queue s') < n"
      using Suc.prems(3) by (auto simp: drained_def)
    show ?case
      by (rule wp_conseq [OF Suc.IH [OF s'(2-4)]]) (use s'(1) A in \<open>auto intro: mpsc_drained_trans\<close>)
  qed simp
qed simp

lemma mpsc_drain_steps:
  assumes "user_code A mpsc_inv (sstep q) env" and "DoublePanic \<in> A" and "mpsc_inv s" and "\<not> receiver_alive s"
  shows "wp A (mpsc_drain env) (\<lambda>_ s'. drained q s s' \<and> mpsc_inv s' \<and> queue s' = [])
    (\<lambda>_ s'. drained q s s' \<and> mpsc_inv s' \<and> queue s' = []) s"
proof -
  have "unat (flavor_len (flavor s)) = length (queue s)"
    using assms(3) by (auto simp: mpsc_inv_def intro: flavor.len)
  then show ?thesis
    using mpsc_drain_fuel_steps [OF assms, of "Suc (length (queue s))"] by (simp add: mpsc_drain_def wp_def)
qed

text \<open>
  Dropping the receiver, whether or not user code unwinds: the channel is closed for sends, all
  parked senders are woken, and every queued item is gone and was destroyed.
\<close>

definition receiver_gone :: "bool \<Rightarrow> ('t, 'u) mpsc \<Rightarrow> ('t, 'u) mpsc \<Rightarrow> bool" where
  "receiver_gone q s s' \<longleftrightarrow> (mstep q)\<^sup>*\<^sup>* s s' \<and> mpsc_inv s' \<and> \<not> receiver_alive s' \<and> queue s' = []
     \<and> all_woken (send_wakers s) (new_log s s') \<and> (\<forall>x \<in> set (queue s). ItemDropped x \<in> set (new_log s s'))"

text \<open>
  On the way: the receiver is gone, every sender that was parked has been woken, and the queue is
  still to be drained.
\<close>

definition unattended :: "bool \<Rightarrow> ('t, 'u) mpsc \<Rightarrow> ('t, 'u) mpsc \<Rightarrow> bool" where
  "unattended q s t \<longleftrightarrow> (mstep q)\<^sup>*\<^sup>* s t \<and> mpsc_inv t \<and> \<not> receiver_alive t \<and> queue t = queue s
     \<and> all_woken (send_wakers s) (new_log s t)"

lemma unattended_woken:
  assumes s: "mpsc_inv s"
    and t: "(sstep q)\<^sup>*\<^sup>* (s\<lparr>receiver_alive := False, send_wakers := []\<rparr>) t" "all_woken (send_wakers s) (new_log s t)"
  shows "unattended q s t"
proof -
  let ?s = "s\<lparr>receiver_alive := False\<rparr>"
  have s0: "mpsc_inv ?s" "mstep q s ?s" using s rstep_inv [OF rstep.drop_receiver] by (auto simp: mstep_def rstep.drop_receiver)
  have st: "(sstep q)\<^sup>*\<^sup>* ?s t" using t(1) mpsc_start_step(1) [OF sstep.take [of q ?s]] by simp
  with t(2) ssteps_keep(1,7) [OF st] sender_side.inv_steps [OF st s0(1)]
    converse_rtranclp_into_rtranclp [of "mstep q", OF s0(2) mstep_of_sstep [OF st]]
  show ?thesis by (simp add: unattended_def)
qed

lemma unattended_cleared:
  assumes t: "unattended q s t" and v: "(sstep q)\<^sup>*\<^sup>* (t\<lparr>recv_waker := None\<rparr>) v"
  shows "unattended q s v"
proof -
  have "mstep q t (t\<lparr>recv_waker := None\<rparr>)" by (simp add: mstep_def rstep.clear)
  then have tv: "(mstep q)\<^sup>*\<^sup>* t v" using mstep_of_sstep [OF v] by (rule converse_rtranclp_into_rtranclp)
  with t show ?thesis
    using ssteps_keep(1,7) [OF v] both_sides.new_log_mono(1) [OF _ tv, of s] both_sides.inv_steps [OF tv]
    by (auto simp: unattended_def all_woken_def)
qed

lemma unattended_drained:
  assumes u: "user_code A mpsc_inv (sstep q) env" and A: "DoublePanic \<in> A" and t: "unattended q s t"
  shows "wp A (mpsc_drain env) (\<lambda>_ s'. receiver_gone q s s' \<and> (recv_waker t = None \<longrightarrow> recv_waker s' = None))
    (\<lambda>_ s'. receiver_gone q s s') t"
proof -
  have gone: "receiver_gone q s s'" if d: "drained q t s'" "mpsc_inv s'" "queue s' = []" for s'
  proof -
    have ts: "(mstep q)\<^sup>*\<^sup>* t s'" and st: "(mstep q)\<^sup>*\<^sup>* s t" using d t by (auto simp: drained_def unattended_def)
    have "\<forall>x \<in> set (queue s). ItemDropped x \<in> set (new_log t s')" using d t by (auto simp: drained_def unattended_def)
    with t d st ts both_sides.new_log_mono [OF st ts] show ?thesis
      by (auto simp: receiver_gone_def drained_def unattended_def all_woken_def)
  qed
  have "mpsc_inv t" "\<not> receiver_alive t" using t by (simp_all add: unattended_def)
  from mpsc_drain_steps [OF u A this] show ?thesis
    by (rule wp_conseq) (use gone in \<open>auto simp: drained_def\<close>)
qed

lemma receiver_drop_steps:
  assumes env: "admissible A mpsc_inv (sstep q) env" and A: "DoublePanic \<in> A" and s: "mpsc_inv s"
  shows "wp A (mpsc_receiver_drop env) (\<lambda>_ s'. receiver_gone q s s' \<and> recv_waker s' = None)
    (\<lambda>_ s'. receiver_gone q s s') s"
proof -
  from env have u: "user_code A mpsc_inv (sstep q) env" and i: "isolates A env"
    by (auto simp: admissible_def)
  let ?s = "s\<lparr>receiver_alive := False\<rparr>"
  have s0: "mpsc_inv ?s" using s rstep_inv [OF rstep.drop_receiver] by blast
  note drain = unattended_drained [OF u A]
  have clear: "wp A (mpsc_clear_recv_waker env)
      (\<lambda>_. wp A (mpsc_drain env) (\<lambda>_ s'. receiver_gone q s s' \<and> recv_waker s' = None) (\<lambda>_ s'. receiver_gone q s s'))
      (\<lambda>p. wp A (mpsc_drain env) (\<lambda>_ s'. receiver_gone q s s') (\<lambda>_ _. DoublePanic \<in> A)) t" if t: "unattended q s t" for t
    using t A unattended_cleared [OF t]
    by (intro receives.clear_steps [OF u]) (auto simp: unattended_def [of q s t] intro!: wp_conseq [OF drain])
  have woken: "unattended q s t"
    if "(sstep q)\<^sup>*\<^sup>* (?s\<lparr>send_wakers := []\<rparr>) t \<and> all_woken (send_wakers ?s) (new_log ?s t)" for t
    using that by (intro unattended_woken [OF s]) (simp_all add: new_log_def)
  show ?thesis
    unfolding mpsc_receiver_drop_def wp_thenM [of _ "modify _"] wp_modify wp_with_guard wp_thenM
    by (rule wp_conseq [OF sender_side.wake_senders_wakes [OF u i s0]])
      (use woken clear A in \<open>auto intro!: wp_conseq [OF drain]\<close>)
qed


end
