(* ===== verification/Mpsc_Calls.thy ===== *)
theory Mpsc_Calls
  imports Mpsc_Receiver
begin

text \<open>
  What a program can do with the handles of an \<open>mpsc\<close> channel: the calls of \<open>src/mpsc/channel.rs\<close>,
  \<open>src/mpsc/send.rs\<close> and \<open>src/mpsc/recv.rs\<close>, whether a call returns or unwinds, with user code inside
  that makes such calls in turn. Every call is a sequence of channel steps.
\<close>

section \<open>Loud steps\<close>

text \<open>
  The sender's steps that keep the promise to a parked receiver: either its waker stays where it is
  and there is nothing new for it to see, or it has been woken. A poll of a \<open>Send\<close> future keeps that
  promise as a whole, although its push alone does not.
\<close>

definition minds :: "('t, 'u) mpsc \<Rightarrow> ('t, 'u) mpsc \<Rightarrow> bool" where
  "minds s s' \<longleftrightarrow> (\<forall>w. recv_waker s = Some w \<longrightarrow>
     recv_waker s' = Some w \<and> queue s' = queue s \<and> (mpsc_disconnected s' \<longrightarrow> mpsc_disconnected s)
     \<or> Woke w \<in> set (new_log s s'))"

definition lstep :: "('t, 'u) mpsc \<Rightarrow> ('t, 'u) mpsc \<Rightarrow> bool" where
  "lstep = kept (sstep True) minds"

lemma lstep_iff: "lstep s s' \<longleftrightarrow> (sstep True)\<^sup>*\<^sup>* s s' \<and> minds s s'"
  by (simp add: lstep_def kept_def)

lemma quiet_step: "sstep False s s' \<Longrightarrow> sstep q s s'"
  by (erule sstep.cases) (auto intro: sstep.intros)

lemma sstep_minds: "sstep False s s' \<Longrightarrow> minds s s'"
  by (erule sstep.cases) (auto simp: minds_def mpsc_disconnected_def new_log_def wake_recv_log)

lemma lstep_of_sstep: "sstep False s s' \<Longrightarrow> lstep s s'"
  using quiet_step [of s s' True] by (auto simp: lstep_iff intro: sstep_minds)

lemma minds_trans:
  assumes "(sstep True)\<^sup>*\<^sup>* s t" and "(sstep True)\<^sup>*\<^sup>* t u" and "minds s t" and "minds t u"
  shows "minds s u"
  unfolding minds_def
proof (intro allI impI)
  note mono = sender_side.new_log_mono [OF assms(1,2)]
  fix w assume "recv_waker s = Some w"
  with assms(3) consider "Woke w \<in> set (new_log s t)"
    | "recv_waker t = Some w" "queue t = queue s" "mpsc_disconnected t \<longrightarrow> mpsc_disconnected s"
    by (auto simp: minds_def)
  then show "recv_waker u = Some w \<and> queue u = queue s \<and> (mpsc_disconnected u \<longrightarrow> mpsc_disconnected s) \<or> Woke w \<in> set (new_log s u)"
  proof cases
    case 1
    with mono(1) show ?thesis by blast
  next
    case 2
    with assms(4) have "recv_waker u = Some w \<and> queue u = queue t \<and> (mpsc_disconnected u \<longrightarrow> mpsc_disconnected t)
        \<or> Woke w \<in> set (new_log t u)" by (auto simp: minds_def)
    with 2 mono(2) show ?thesis by auto
  qed
qed

interpretation minding: keeping mpsc_inv "sstep True" minds
proof (unfold_locales, goal_cases)
  case (2 s t u)
  then show ?case by (rule minds_trans)
next
  case (4 s s')
  then show ?case by (simp add: minds_def mpsc_disconnected_def new_log_def)
next
  case (5 s i)
  show ?case by (rule sstep_minds [OF sstep.unpark])
qed (auto simp: minds_def mpsc_disconnected_def)

lemmas lsteps = minding.kept_star [folded lstep_def]
  and lstep_trans = minding.kept_trans [folded lstep_def]

lemma lsteps_ssteps: "lstep\<^sup>*\<^sup>* s s' \<Longrightarrow> (sstep True)\<^sup>*\<^sup>* s s'"
  by (simp add: lsteps lstep_iff)

interpretation loud: unparking mpsc_inv lstep
  unfolding lstep_def by (rule minding.kept_unparking)

interpretation loud_ops: mpsc_sender lstep False
proof (unfold_locales, goal_cases)
  case (2 s s')
  then show ?case
    using lstep_trans [OF lstep_of_sstep [OF sstep.close]] loud.senders_woken_steps by (auto simp: lsteps)
qed (rule lstep_of_sstep)

text \<open>A poll of a \<open>Send\<close> future that returns is loud, whatever happens in between.\<close>

interpretation loud_send: send_future mpsc_inv lstep send_closed mpsc_send_commit "(sstep True)\<^sup>*\<^sup>*"
  "\<lambda>t s'. \<exists>v. lstep\<^sup>*\<^sup>* t v \<and> lstep\<^sup>*\<^sup>* (wake_recv v) s'" "\<lambda>A. admissible A mpsc_inv lstep"
proof (unfold_locales, goal_cases)
  case (1 s)
  then show ?case by (simp add: mpsc_inv_def)
next
  case (3 A env s x t f)
  then have "user_code A mpsc_inv lstep env" by (simp add: admissible_def)
  moreover have t: "mpsc_inv t" using enqueued_push_quiet [of x s t] 3 sstep_inv by blast
  ultimately show ?case
    by (intro wp_conseq [OF loud_ops.commit_steps [of A env t "Inr ()" f]]) (use t loud.inv_steps lsteps_ssteps in auto)
next
  case (4 A env t e f)
  then have "user_code A mpsc_inv lstep env" by (simp add: admissible_def)
  from loud_ops.commit_steps [OF this 4(2), of "Inl e"] show ?case by simp
qed

lemma woken_minds:
  assumes "enqueued x s t" and t: "(sstep True)\<^sup>*\<^sup>* s t" and v: "lstep t v" and s': "lstep (wake_recv v) s'"
  shows "lstep s s'"
proof -
  have tv: "(sstep True)\<^sup>*\<^sup>* t v" and vs: "(sstep True)\<^sup>*\<^sup>* v s'" and vw: "(sstep True)\<^sup>*\<^sup>* v (wake_recv v)"
    and ws: "(sstep True)\<^sup>*\<^sup>* (wake_recv v) s'"
    using v s' sstep.wake [of True v] by (auto simp: lstep_iff intro: converse_rtranclp_into_rtranclp)
  have st: "(sstep True)\<^sup>*\<^sup>* s v" using t tv by simp
  have "Woke w \<in> set (new_log s s')" if w: "recv_waker s = Some w" for w
  proof -
    have "recv_waker t = Some w" using assms(1) w by (auto simp: enqueued_def)
    with v have "recv_waker v = Some w \<or> Woke w \<in> set (new_log t v)" by (auto simp: lstep_iff minds_def)
    then have "Woke w \<in> set (new_log t s')"
    proof
      assume "recv_waker v = Some w"
      then have "Woke w \<in> set (new_log v (wake_recv v))" by (simp add: new_log_def wake_recv_log)
      then show ?thesis
        using sender_side.new_log_mono(1) [OF vw ws] sender_side.new_log_mono(2) [OF tv vs] by blast
    next
      assume "Woke w \<in> set (new_log t v)"
      then show ?thesis using sender_side.new_log_mono(1) [OF tv vs] by blast
    qed
    then show ?thesis using sender_side.new_log_mono(2) [OF t, of s'] tv vs by (auto intro: rtranclp_trans)
  qed
  with st vs show ?thesis by (auto simp: lstep_iff minds_def)
qed

lemma loud_send_poll:
  assumes env: "admissible A mpsc_inv lstep env" and s: "mpsc_inv s" and f: "send_ok f"
  shows "wp A (mpsc_send_poll env w) (\<lambda>_ (s', f'). lstep s s') (\<lambda>_ (s', f'). (sstep True)\<^sup>*\<^sup>* s s') (s, f)"
proof -
  have quiet: "(sstep True)\<^sup>*\<^sup>* s0 t" if "enqueued x s0 t" "\<not> send_closed s0" "\<not> at_capacity s0" for x s0 t
    using enqueued_push_quiet [OF that] by blast
  have sent: "lstep s s'" if r: "send_result lstep send_closed (sstep True)\<^sup>*\<^sup>* x s r s'"
    and w: "r = Inr () \<Longrightarrow> \<exists>t. pushes lstep send_closed x s t \<and> (\<exists>v. lstep\<^sup>*\<^sup>* t v \<and> lstep\<^sup>*\<^sup>* (wake_recv v) s')" for x r s'
  proof (cases r)
    case (Inl e)
    with r show ?thesis by (auto simp: send_result_def lsteps intro: lstep_trans)
  next
    case (Inr u)
    with w obtain s0 t v where s0: "lstep s s0" "\<not> send_closed s0" "\<not> at_capacity s0" "enqueued x s0 t"
      and v: "lstep t v" "lstep (wake_recv v) s'"
      by (auto simp: pushes_def lsteps)
    from woken_minds [OF s0(4) quiet [OF s0(4,2,3)] v] show ?thesis by (rule lstep_trans [OF s0(1)])
  qed
  have unwound: "(sstep True)\<^sup>*\<^sup>* s s'" if r: "send_result lstep send_closed (sstep True)\<^sup>*\<^sup>* x s r s'" for x r s'
  proof (cases r)
    case (Inl e)
    with r show ?thesis by (auto simp: send_result_def lsteps lstep_iff)
  next
    case (Inr u)
    with r obtain s0 t where s0: "lstep s s0" "\<not> send_closed s0" "\<not> at_capacity s0" "enqueued x s0 t" "(sstep True)\<^sup>*\<^sup>* t s'"
      by (auto simp: send_result_def pushes_def lsteps)
    then have "(sstep True)\<^sup>*\<^sup>* s s0" by (simp add: lstep_iff)
    with quiet [OF s0(4,2,3)] s0(5) show ?thesis by simp
  qed
  have "wp A (mpsc_send_poll env w) (\<lambda>_ (s', f'). lstep s s' \<and> send_ok f') (\<lambda>_ (s', f'). (sstep True)\<^sup>*\<^sup>* s s' \<and> send_ok f') (s, f)"
    unfolding mpsc_send_poll_def
  proof (rule loud_send.send_poll_any [OF env s f], goal_cases)
    case (2 x r s')
    show ?case by (rule sent [OF 2(1)]) (use 2(2) in blast)
  qed (use unwound lsteps_ssteps in \<open>simp_all add: lsteps\<close>)
  then show ?thesis by (rule wp_conseq) auto
qed

section \<open>Calls\<close>

text \<open>
  Which handles running code can reach. The receiver is borrowed mutably by its operations, so the
  user code inside one reaches senders only; \<open>close\<close> is the exception, it takes a shared reference.
  \<open>CarefulSenders\<close> are senders none of whose polls of a \<open>Send\<close> future unwinds.
\<close>

datatype mpsc_reach = AllHandles | AllSenders | CarefulSenders

inductive mpsc_call :: "mpsc_reach \<Rightarrow> ('t, 'u) mpsc \<Rightarrow> ('t, 'u) mpsc \<Rightarrow> bool" where
  user: "mpsc_call e s (s\<lparr>usr := u\<rparr>)"
| dropped: "d = ItemDropped x \<or> d = WakerDropped w \<Longrightarrow> mpsc_call e s (s\<lparr>log := log s @ [d]\<rparr>)"
| try_send: "admissible UNIV mpsc_inv (mpsc_call e) env \<Longrightarrow> mpsc_try_send env x s = (r, s') \<Longrightarrow> finished r
    \<Longrightarrow> mpsc_call e s s'"
| send_poll: "admissible UNIV mpsc_inv (mpsc_call e) env \<Longrightarrow> send_ok f \<Longrightarrow> mpsc_send_poll env w (s, f) = (p, (s', f'))
    \<Longrightarrow> finished p \<Longrightarrow> (e = CarefulSenders \<Longrightarrow> \<exists>v. p = Ret v) \<Longrightarrow> mpsc_call e s s'"
| send_drop: "admissible UNIV mpsc_inv (mpsc_call e) env \<Longrightarrow> mpsc_send_drop env (s, f) = (u, (s', f')) \<Longrightarrow> finished u
    \<Longrightarrow> mpsc_call e s s'"
| sender_close: "admissible UNIV mpsc_inv (mpsc_call e) env \<Longrightarrow> mpsc_sender_close env s = (b, s') \<Longrightarrow> finished b
    \<Longrightarrow> mpsc_call e s s'"
| sender_clone: "senders s \<noteq> 0 \<Longrightarrow> senders s + 1 \<noteq> 0 \<Longrightarrow> mpsc_sender_clone s = (u, s') \<Longrightarrow> mpsc_call e s s'"
| sender_drop: "admissible UNIV mpsc_inv (mpsc_call e) env \<Longrightarrow> senders s \<noteq> 0 \<Longrightarrow> mpsc_sender_drop env s = (u, s')
    \<Longrightarrow> finished u \<Longrightarrow> mpsc_call e s s'"
| try_recv: "admissible UNIV mpsc_inv (mpsc_call AllSenders) env \<Longrightarrow> mpsc_try_recv env s = (v, s') \<Longrightarrow> finished v
    \<Longrightarrow> mpsc_call AllHandles s s'"
| try_iter_next: "admissible UNIV mpsc_inv (mpsc_call AllSenders) env \<Longrightarrow> mpsc_try_iter_next env s = (y, s') \<Longrightarrow> finished y
    \<Longrightarrow> mpsc_call AllHandles s s'"
| poll_next: "admissible UNIV mpsc_inv (mpsc_call AllSenders) env \<Longrightarrow> same_clones env \<Longrightarrow> receiver_alive s
    \<Longrightarrow> mpsc_poll_next env w s = (c, s') \<Longrightarrow> finished c \<Longrightarrow> mpsc_call AllHandles s s'"
| recv_poll: "admissible UNIV mpsc_inv (mpsc_call AllSenders) env \<Longrightarrow> same_clones env \<Longrightarrow> receiver_alive s
    \<Longrightarrow> mpsc_recv_poll env w (s, d) = (c, (s', d')) \<Longrightarrow> finished c \<Longrightarrow> mpsc_call AllHandles s s'"
| recv_drop: "admissible UNIV mpsc_inv (mpsc_call AllSenders) env \<Longrightarrow> mpsc_recv_drop env (s, d) = (u, (s', d'))
    \<Longrightarrow> finished u \<Longrightarrow> mpsc_call AllHandles s s'"
| receiver_close: "admissible UNIV mpsc_inv (mpsc_call e) env \<Longrightarrow> mpsc_receiver_close env s = (b, s') \<Longrightarrow> finished b
    \<Longrightarrow> mpsc_call e s s'"
| receiver_drop: "admissible UNIV mpsc_inv (mpsc_call AllSenders) env \<Longrightarrow> mpsc_receiver_drop env s = (u, s')
    \<Longrightarrow> finished u \<Longrightarrow> mpsc_call AllHandles s s'"

section \<open>Calls as steps\<close>

text \<open>
  A family \<open>R\<close> of step relations, one for each reach, along which calls can be followed. A poll of a \<open>Send\<close>
  future is required to be made of steps as a whole: whether its push alone is one differs.
\<close>

locale mpsc_calls =
  fixes R :: "mpsc_reach \<Rightarrow> ('t, 'u) mpsc \<Rightarrow> ('t, 'u) mpsc \<Rightarrow> bool"
  assumes sending: "mpsc_sender (R e) False"
    and polling: "admissible UNIV mpsc_inv (R e) env \<Longrightarrow> mpsc_inv s \<Longrightarrow> send_ok f
      \<Longrightarrow> wp UNIV (mpsc_send_poll env w) (\<lambda>_ (s', f'). (R e)\<^sup>*\<^sup>* s s')
        (\<lambda>_ (s', f'). e \<noteq> CarefulSenders \<longrightarrow> (R e)\<^sup>*\<^sup>* s s') (s, f)"
    and consumer: "mpsc_consuming (R AllSenders) True (R AllHandles)"
    and gone: "receiver_gone True s s' \<Longrightarrow> (R AllHandles)\<^sup>*\<^sup>* s s'"

sublocale mpsc_calls \<subseteq> reached: mpsc_sender "R e" False for e
  by (rule sending)

sublocale mpsc_calls \<subseteq> taken: mpsc_consuming "R AllSenders" True "R AllHandles"
  by (rule consumer)

context mpsc_calls
begin

lemma sender_calls:
  assumes "admissible UNIV mpsc_inv (R e) env" and "mpsc_inv s"
  shows "wp UNIV (mpsc_send_drop env) (\<lambda>_ (s', f'). (R e)\<^sup>*\<^sup>* s s') (\<lambda>_ (s', f'). (R e)\<^sup>*\<^sup>* s s') (s, f)"
    and "senders s \<noteq> 0 \<Longrightarrow> wp UNIV (mpsc_sender_drop env) (\<lambda>_. (R e)\<^sup>*\<^sup>* s) (\<lambda>_. (R e)\<^sup>*\<^sup>* s) s"
proof -
  have u: "user_code UNIV mpsc_inv (R e) env" using assms(1) by (simp add: admissible_def)
  show "wp UNIV (mpsc_send_drop env) (\<lambda>_ (s', f'). (R e)\<^sup>*\<^sup>* s s') (\<lambda>_ (s', f'). (R e)\<^sup>*\<^sup>* s s') (s, f)"
    by (rule reached.send_drop_call [OF u assms(2)])
  show "senders s \<noteq> 0 \<Longrightarrow> wp UNIV (mpsc_sender_drop env) (\<lambda>_. (R e)\<^sup>*\<^sup>* s) (\<lambda>_. (R e)\<^sup>*\<^sup>* s) s"
    by (rule reached.sender_drop_guar [OF u assms(2)])
qed

lemma receiver_close_call:
  assumes "admissible UNIV mpsc_inv (R e) env"
  shows "guar UNIV mpsc_inv (R e) (mpsc_receiver_close env)"
  unfolding mpsc_receiver_close_def mpsc_receiver_is_closed_def
  using reached.guar_close [OF assms] by (auto intro!: reached.guar_intros)

text \<open>The operations of the receiver, with user code that reaches the senders.\<close>

lemma receive_calls:
  assumes env: "admissible UNIV mpsc_inv (R AllSenders) env" and s: "mpsc_inv s"
  shows "wp UNIV (mpsc_try_recv env) (\<lambda>_. (R AllHandles)\<^sup>*\<^sup>* s) (\<lambda>_. (R AllHandles)\<^sup>*\<^sup>* s) s"
    and "wp UNIV (mpsc_try_iter_next env) (\<lambda>_. (R AllHandles)\<^sup>*\<^sup>* s) (\<lambda>_. (R AllHandles)\<^sup>*\<^sup>* s) s"
    and "wp UNIV (mpsc_receiver_drop env) (\<lambda>_. (R AllHandles)\<^sup>*\<^sup>* s) (\<lambda>_. (R AllHandles)\<^sup>*\<^sup>* s) s"
    and "wp UNIV (mpsc_recv_drop env) (\<lambda>_ (s', d'). (R AllHandles)\<^sup>*\<^sup>* s s') (\<lambda>_ (s', d'). (R AllHandles)\<^sup>*\<^sup>* s s') (s, d)"
proof -
  show recv: "wp UNIV (mpsc_try_recv env) (\<lambda>_. (R AllHandles)\<^sup>*\<^sup>* s) (\<lambda>_. (R AllHandles)\<^sup>*\<^sup>* s) s"
    by (rule wp_conseq [OF taken.try_recv_steps [OF env _ s]]) (auto intro: taken.received_steps split: sum.splits)
  show "wp UNIV (mpsc_try_iter_next env) (\<lambda>_. (R AllHandles)\<^sup>*\<^sup>* s) (\<lambda>_. (R AllHandles)\<^sup>*\<^sup>* s) s"
    unfolding mpsc_try_iter_next_def wp_bindM [of _ "mpsc_try_recv _"]
    by (rule wp_conseq [OF recv]) (auto simp: wp_simps split: sum.split)
  have "admissible UNIV mpsc_inv (sstep True) env"
    using env by (rule admissible_by_steps) (auto intro: sstep_inv taken.U_sstep)
  from receiver_drop_steps [OF this _ s]
  show "wp UNIV (mpsc_receiver_drop env) (\<lambda>_. (R AllHandles)\<^sup>*\<^sup>* s) (\<lambda>_. (R AllHandles)\<^sup>*\<^sup>* s) s"
    by (rule wp_conseq) (auto intro: gone)
  have "user_code UNIV mpsc_inv (R AllSenders) env" using env by (simp add: admissible_def)
  from taken.recv_drop_steps [OF this s, of d]
  show "wp UNIV (mpsc_recv_drop env) (\<lambda>_ (s', d'). (R AllHandles)\<^sup>*\<^sup>* s s') (\<lambda>_ (s', d'). (R AllHandles)\<^sup>*\<^sup>* s s') (s, d)"
    by (rule wp_conseq) (auto split: if_splits)
qed

lemma poll_calls:
  assumes "admissible UNIV mpsc_inv (R AllSenders) env" and "same_clones env" and "mpsc_inv s" and "receiver_alive s"
  shows "wp UNIV (mpsc_poll_next env w) (\<lambda>_. (R AllHandles)\<^sup>*\<^sup>* s) (\<lambda>_. (R AllHandles)\<^sup>*\<^sup>* s) s"
    and "wp UNIV (mpsc_recv_poll env w) (\<lambda>_ (s', d'). (R AllHandles)\<^sup>*\<^sup>* s s') (\<lambda>_ (s', d'). (R AllHandles)\<^sup>*\<^sup>* s s') (s, d)"
proof -
  show "wp UNIV (mpsc_poll_next env w) (\<lambda>_. (R AllHandles)\<^sup>*\<^sup>* s) (\<lambda>_. (R AllHandles)\<^sup>*\<^sup>* s) s"
    unfolding mpsc_poll_next_def
    by (rule wp_conseq [OF taken.mpsc_poll_recv_steps [OF assms(1,2) _ assms(3,4)]]) (auto intro: taken.polled_steps)
  show "wp UNIV (mpsc_recv_poll env w) (\<lambda>_ (s', d'). (R AllHandles)\<^sup>*\<^sup>* s s') (\<lambda>_ (s', d'). (R AllHandles)\<^sup>*\<^sup>* s s') (s, d)"
    by (rule wp_conseq [OF taken.recv_poll_steps [OF assms(1,2) _ assms(3,4)]]) (auto intro: taken.polled_steps)
qed

text \<open>The induction is over the nesting of calls: the user code inside a call makes calls of its own.\<close>

lemma inner_calls:
  assumes "admissible UNIV mpsc_inv (\<lambda>s s'. mpsc_call e s s' \<and> (mpsc_inv s \<longrightarrow> (R e)\<^sup>*\<^sup>* s s')) env"
  shows "admissible UNIV mpsc_inv (R e) env"
  using assms by (rule admissible_by_steps) (auto intro: reached.inv_step)

lemma call_steps: "mpsc_call e s s' \<Longrightarrow> mpsc_inv s \<Longrightarrow> (R e)\<^sup>*\<^sup>* s s'"
proof (induction rule: mpsc_call.induct)
  case (user e s u)
  show ?case by (rule reached.steps_start [OF sstep.user _ rtranclp.rtrancl_refl]) simp
next
  case (dropped d x w e s)
  then show ?case by (intro reached.steps_start [OF sstep.event _ rtranclp.rtrancl_refl]) auto
next
  case (try_send e env x s r s')
  from guar_finished [OF reached.guar_try_send [OF inner_calls [OF try_send.IH]] try_send.prems try_send.hyps]
  show ?case .
next
  case (send_poll e env f w s p s' f')
  from polling [OF inner_calls [OF send_poll.IH] send_poll.prems send_poll.hyps(1), of w] send_poll.hyps(2-4)
  show ?case by (cases p) (auto simp: wp_def)
next
  case (send_drop e env s f u s' f')
  from wp_finished [OF sender_calls(1) [OF inner_calls [OF send_drop.IH] send_drop.prems] send_drop.hyps]
  show ?case by simp
next
  case (sender_close e env s b s')
  from guar_finished [OF reached.guar_sender_close [OF inner_calls [OF sender_close.IH]] sender_close.prems sender_close.hyps]
  show ?case .
next
  case (sender_clone s u s' e)
  then show ?case
    using sstep.clone [of s False] by (auto simp: mpsc_sender_clone_def incr_senders_def comp_eval intro: reached.steps_start)
next
  case (sender_drop e env s u s')
  from wp_finished [OF sender_calls(2) [OF inner_calls [OF sender_drop.IH] sender_drop.prems sender_drop.hyps(1)] sender_drop.hyps(2,3)]
  show ?case .
next
  case (try_recv env s v s')
  from wp_finished [OF receive_calls(1) [OF inner_calls [OF try_recv.IH] try_recv.prems] try_recv.hyps]
  show ?case by simp
next
  case (try_iter_next env s y s')
  from wp_finished [OF receive_calls(2) [OF inner_calls [OF try_iter_next.IH] try_iter_next.prems] try_iter_next.hyps]
  show ?case by simp
next
  case (poll_next env s w c s')
  from wp_finished [OF poll_calls(1) [OF inner_calls [OF poll_next.IH] poll_next.hyps(1) poll_next.prems poll_next.hyps(2)]
    poll_next.hyps(3,4)]
  show ?case by simp
next
  case (recv_poll env s w d c s' d')
  from wp_finished [OF poll_calls(2) [OF inner_calls [OF recv_poll.IH] recv_poll.hyps(1) recv_poll.prems recv_poll.hyps(2)]
    recv_poll.hyps(3,4)]
  show ?case by simp
next
  case (recv_drop env s d u s' d')
  from wp_finished [OF receive_calls(4) [OF inner_calls [OF recv_drop.IH] recv_drop.prems] recv_drop.hyps]
  show ?case by simp
next
  case (receiver_close e env s b s')
  from guar_finished [OF receiver_close_call [OF inner_calls [OF receiver_close.IH]] receiver_close.prems receiver_close.hyps]
  show ?case .
next
  case (receiver_drop env s u s')
  from wp_finished [OF receive_calls(3) [OF inner_calls [OF receiver_drop.IH] receiver_drop.prems] receiver_drop.hyps]
  show ?case by simp
qed

lemma calls_steps: "(mpsc_call e)\<^sup>*\<^sup>* s s' \<Longrightarrow> mpsc_inv s \<Longrightarrow> (R e)\<^sup>*\<^sup>* s s'"
proof (induction rule: rtranclp_induct)
  case (step t u)
  then have "(R e)\<^sup>*\<^sup>* t u" using call_steps reached.inv_steps by blast
  with step show ?case by simp
qed simp

lemma calls_admissible:
  "admissible A mpsc_inv (mpsc_call e) env \<Longrightarrow> admissible A mpsc_inv (R e) env"
  by (erule admissible_by_steps) (auto intro: reached.inv_step call_steps)

end

section \<open>The steps of each reach\<close>

fun mpsc_reach_step :: "mpsc_reach \<Rightarrow> ('t, 'u) mpsc \<Rightarrow> ('t, 'u) mpsc \<Rightarrow> bool" where
  "mpsc_reach_step AllHandles = mstep True"
| "mpsc_reach_step AllSenders = sstep True"
| "mpsc_reach_step CarefulSenders = lstep"

lemma mpsc_sender_quiet: "mpsc_sender step True \<Longrightarrow> mpsc_sender step False"
  unfolding mpsc_sender_def mpsc_sender_axioms_def using quiet_step by blast

interpretation mcalls: mpsc_calls mpsc_reach_step
proof (rule mpsc_calls.intro, goal_cases)
  case (1 e)
  show ?case
    by (cases e) (simp_all add: mpsc_sender_quiet shared_ops.mpsc_sender_axioms sender_ops.mpsc_sender_axioms loud_ops.mpsc_sender_axioms)
next
  case (2 e env s f w)
  show ?case
  proof (cases e)
    case AllHandles
    with 2 mpsc_send.send_poll_call [of UNIV env s f w] show ?thesis by simp
  next
    case AllSenders
    with 2 sender_send.send_poll_call [of UNIV env s f w] show ?thesis by simp
  next
    case CarefulSenders
    with 2 loud_send_poll [of UNIV env s f w] show ?thesis by (auto simp: lsteps elim!: wp_conseq)
  qed
next
  case 3
  show ?case using consumes.mpsc_consuming_axioms [of True] by simp
qed (simp add: receiver_gone_def)

end
