(* ===== verification/Mpsc_Promises.thy ===== *)
theory Mpsc_Promises
  imports Mpsc_Calls
begin

text \<open>
  Promises of the \<open>mpsc\<close> channel. The locale \<open>mpsc_promise\<close> states what a relation \<open>G\<close> between an
  earlier and a later state has to satisfy, piece by piece, for every sequence of calls to satisfy it.
  Two promises are instances: a parked sender is not forgotten, and the queue of a channel whose
  receiver is gone is empty.
\<close>

section \<open>The interface\<close>

text \<open>The steps that the promise restricts; that polls of \<open>Send\<close> futures return does not matter here.\<close>

fun side_step :: "mpsc_reach \<Rightarrow> ('t, 'u) mpsc \<Rightarrow> ('t, 'u) mpsc \<Rightarrow> bool" where
  "side_step AllHandles = mstep True"
| "side_step AllSenders = sstep True"
| "side_step CarefulSenders = sstep True"

abbreviation mpsc_promised :: "(('t, 'u) mpsc \<Rightarrow> ('t, 'u) mpsc \<Rightarrow> bool) \<Rightarrow> mpsc_reach \<Rightarrow> ('t, 'u) mpsc \<Rightarrow> ('t, 'u) mpsc \<Rightarrow> bool" where
  "mpsc_promised G e \<equiv> kept (side_step e) G"

lemma side_msteps: "(side_step e)\<^sup>*\<^sup>* s s' \<Longrightarrow> (mstep True)\<^sup>*\<^sup>* s s'"
  by (cases e) (auto intro: mstep_of_sstep)

lemma side_sstep: "sstep True s s' \<Longrightarrow> side_step e s s'"
  by (cases e) (auto intro: mstep_sstep)

lemma side_unparking: "unparking mpsc_inv (side_step e)"
  by (cases e) (simp_all add: both_sides.unparking_axioms sender_side.unparking_axioms)

locale mpsc_promise =
  fixes G :: "('t, 'u) mpsc \<Rightarrow> ('t, 'u) mpsc \<Rightarrow> bool"
  assumes G_refl: "G s s"
    and G_trans: "(mstep True)\<^sup>*\<^sup>* s t \<Longrightarrow> (mstep True)\<^sup>*\<^sup>* t u \<Longrightarrow> G s t \<Longrightarrow> G t u \<Longrightarrow> G s u"
    and G_gentle: "sstep True s s' \<Longrightarrow> gentle s s' \<Longrightarrow> G s s'"
    and G_woken: "all_woken (send_wakers s) (new_log s s') \<Longrightarrow> G (s\<lparr>send_wakers := []\<rparr>) s' \<Longrightarrow> G s s'"
    and G_withdrawn: "G s (withdraw_send i s)"
    and G_closed: "(mstep True)\<^sup>*\<^sup>* (wake_recv (s\<lparr>closed := True\<rparr>)) t \<Longrightarrow> (mstep True)\<^sup>*\<^sup>* t s'
      \<Longrightarrow> G (wake_recv (s\<lparr>closed := True\<rparr>)) t \<Longrightarrow> G t s' \<Longrightarrow> all_woken (send_wakers t) (new_log t s') \<Longrightarrow> G s s'"
    and G_taken: "dequeued x s t \<Longrightarrow> G (t\<lparr>send_wakers := []\<rparr>) s' \<Longrightarrow> all_woken (send_wakers s) (new_log s s') \<Longrightarrow> G s s'"
    and G_waker: "G s (s\<lparr>recv_waker := v\<rparr>)"
    and G_gone: "receiver_gone True s s' \<Longrightarrow> G s s'"

sublocale mpsc_promise \<subseteq> keep: keeping mpsc_inv "side_step e" G for e
proof (rule keeping.intro [OF side_unparking], unfold_locales, goal_cases)
  case (2 s t u)
  then show ?case using G_trans side_msteps by blast
next
  case (3 ev s)
  then show ?case by (intro G_gentle sstep.event) simp_all
qed (auto intro: G_refl G_woken G_withdrawn)

context mpsc_promise
begin

lemmas promised_star = keep.kept_star and promised_unparking = keep.kept_unparking

lemma promised_sender: "mpsc_sender (mpsc_promised G e) True"
proof (rule mpsc_sender.intro [OF promised_unparking], unfold_locales, goal_cases)
  case (1 s s')
  then show ?case by (auto simp: kept_def intro: side_sstep G_gentle)
next
  case (2 s s')
  let ?c = "wake_recv (s\<lparr>closed := True\<rparr>)"
  obtain t where t: "mpsc_promised G e ?c t" "mpsc_promised G e (t\<lparr>send_wakers := []\<rparr>) s'" "all_woken (send_wakers t) (new_log t s')"
    using 2 by (auto simp: senders_woken_def promised_star)
  then have "(mpsc_promised G e)\<^sup>*\<^sup>* t s'"
    using unparking.take_steps [OF promised_unparking] by blast
  then have ts: "mpsc_promised G e t s'" by (simp add: promised_star)
  have "(side_step e)\<^sup>*\<^sup>* s ?c" using side_sstep [OF sstep.close] by blast
  with t(1) ts have "(side_step e)\<^sup>*\<^sup>* s s'" by (auto simp: kept_def)
  moreover have "G s s'"
    using t(1,3) ts by (intro G_closed [of s t s']) (auto simp: kept_def intro: side_msteps)
  ultimately show ?case unfolding promised_star by (simp add: kept_def)
qed

lemma promised_sending: "mpsc_sending (mpsc_promised G e)"
  unfolding mpsc_sending_def by (rule promised_sender)

lemma promised_consuming: "mpsc_consuming (mpsc_promised G AllSenders) True (mpsc_promised G AllHandles)"
proof (rule mpsc_consuming.intro, goal_cases)
  case 1
  show ?case by (rule mpsc_receiving.intro [OF promised_unparking], unfold_locales) (simp add: kept_def)
next
  case 2
  show ?case
  proof (unfold_locales, goal_cases)
    case (1 s s')
    then show ?case unfolding promised_star by (auto simp: kept_def intro: mstep_of_sstep)
  next
    case (2 x s t s')
    have steps: "(sstep True)\<^sup>*\<^sup>* (t\<lparr>send_wakers := []\<rparr>) s'" and g: "G (t\<lparr>send_wakers := []\<rparr>) s'"
      using 2(2) unfolding promised_star by (auto simp: kept_def)
    have "log t = log s @ [Popped x]" using 2(1) by (auto simp: dequeued_def)
    then have "set (new_log t s') \<subseteq> set (new_log s s')" by (simp add: new_log_def set_drop_subset_set_drop)
    with 2(3) have "all_woken (send_wakers s) (new_log s s')" unfolding all_woken_def by blast
    with G_taken [OF 2(1) g] taken_steps [OF 2(1) steps] show ?case unfolding promised_star by (simp add: kept_def)
  qed (auto simp: kept_def intro: G_waker mstep_rstep rstep.register rstep.clear)
qed

end

sublocale mpsc_promise \<subseteq> mpsc_calls "mpsc_promised G"
proof (rule mpsc_calls.intro, goal_cases)
  case (1 e)
  show ?case by (rule mpsc_sender_quiet [OF promised_sender])
next
  case (2 e env s f w)
  from mpsc_sending.send_poll_call [OF promised_sending 2] show ?case by (rule wp_conseq) auto
next
  case 3
  show ?case by (rule promised_consuming)
next
  case (4 s s')
  then show ?case unfolding promised_star by (auto simp: kept_def receiver_gone_def intro: G_gone)
qed

section \<open>A parked sender is not forgotten\<close>

lemma mpsc_heeds_gentle:
  assumes "sstep True s s'" and "gentle s s'"
  shows "heeds send_closed i w s s'"
proof (rule heedsI)
  show "set (send_wakers s) \<subseteq> set (send_wakers s')" using assms(2) by simp
  show "at_capacity s' \<and> \<not> send_closed s'" if "sender_waits send_closed i w s"
    using assms that by cases (auto simp: sender_waits_def)
qed

interpretation mheed: mpsc_promise "heeds send_closed i w" for i w
proof (unfold_locales, goal_cases)
  case (2 s t u)
  then show ?case by (rule both_sides.heeds_trans)
next
  case (3 s s')
  then show ?case by (rule mpsc_heeds_gentle)
next
  case (5 s j)
  then show ?case by (rule heeds_withdrawn) simp
next
  case (6 s t s')
  then show ?case using both_sides.heeds_closed [OF mstep_sstep [OF sstep.close]] by simp
next
  case (8 s v)
  show ?case by (rule heedsI) (auto simp: sender_waits_def)
next
  case (9 s s')
  then show ?case by (intro heeds_woken) (simp add: receiver_gone_def)
qed (auto intro: heeds_refl heeds_woken)

lemma mpsc_calls_heed:
  assumes "(mpsc_call e)\<^sup>*\<^sup>* s s'" and "mpsc_inv s" and "sender_waits send_closed i w s"
  shows "sender_waits send_closed i w s' \<or> sender_let_go i w s s'"
  using mheed.calls_steps [OF assms(1,2), of i w] assms(3)
  unfolding mheed.promised_star by (auto simp: kept_def heeds_def)

text \<open>A call that closes the channel wakes the receiver in the step that closes it, and lets every parked sender go.\<close>

lemma mpsc_close_lets_go:
  assumes "senders_woken (mpsc_promised (heeds send_closed i w) e) (wake_recv (s\<lparr>closed := True\<rparr>)) s'"
  shows "(mstep True)\<^sup>*\<^sup>* (wake_recv (s\<lparr>closed := True\<rparr>)) s'"
    and "(i, w) \<in> set (send_wakers s) \<Longrightarrow> sender_let_go i w s s'"
proof -
  let ?c = "wake_recv (s\<lparr>closed := True\<rparr>)"
  obtain t where t: "mpsc_promised (heeds send_closed i w) e ?c t" "all_woken (send_wakers t) (new_log t s')"
    and ts: "mpsc_promised (heeds send_closed i w) e (t\<lparr>send_wakers := []\<rparr>) s'"
    using assms unfolding senders_woken_def mheed.promised_star by blast
  have ct: "(mstep True)\<^sup>*\<^sup>* ?c t" using t(1) by (auto simp: kept_def intro: side_msteps)
  have "(mstep True)\<^sup>*\<^sup>* (t\<lparr>send_wakers := []\<rparr>) s'" using ts by (auto simp: kept_def intro: side_msteps)
  then have s': "(mstep True)\<^sup>*\<^sup>* t s'" using t(2) by (rule both_sides.take_steps)
  from ct s' show "(mstep True)\<^sup>*\<^sup>* ?c s'" by simp
  show "sender_let_go i w s s'" if "(i, w) \<in> set (send_wakers s)"
    by (rule both_sides.let_go_closed [OF mstep_sstep [OF sstep.close] _ ct s' _ t(2) that, of send_closed])
      (use t(1) in \<open>simp_all add: kept_def\<close>)
qed

lemma mpsc_close_lets_all_go:
  assumes env: "admissible A mpsc_inv (mpsc_call e) env" and s: "mpsc_inv s" and c: "\<not> closed s"
  shows "wp A (mpsc_close env)
    (\<lambda>_ s'. (mstep True)\<^sup>*\<^sup>* (wake_recv (s\<lparr>closed := True\<rparr>)) s' \<and> (\<forall>(i, w) \<in> set (send_wakers s). sender_let_go i w s s'))
    (\<lambda>_ s'. (mstep True)\<^sup>*\<^sup>* (wake_recv (s\<lparr>closed := True\<rparr>)) s' \<and> (\<forall>(i, w) \<in> set (send_wakers s). sender_let_go i w s s')) s"
proof -
  let ?P = "\<lambda>i w s'. (mstep True)\<^sup>*\<^sup>* (wake_recv (s\<lparr>closed := True\<rparr>)) s' \<and> ((i, w) \<in> set (send_wakers s) \<longrightarrow> sender_let_go i w s s')"
  have "wp A (mpsc_close env) (\<lambda>_. ?P i w) (\<lambda>_. ?P i w) s" for i w
    by (rule wp_conseq [OF mheed.reached.close_steps [OF mheed.calls_admissible [OF env, of i w] s]])
      (use c in \<open>auto intro: mpsc_close_lets_go\<close>)
  from wp_all [OF wp_all [OF this]] show ?thesis by (rule wp_conseq) auto
qed

section \<open>A channel without its receiver is empty\<close>

definition mpsc_nothing_left :: "('t, 'u) mpsc \<Rightarrow> bool" where
  "mpsc_nothing_left s \<longleftrightarrow> (\<not> receiver_alive s \<longrightarrow> queue s = [])"

lemma nothing_left_sstep: "sstep True s s' \<Longrightarrow> mpsc_nothing_left s \<Longrightarrow> mpsc_nothing_left s'"
  using sstep_keeps(1,7) [of True s s'] by (auto simp: mpsc_nothing_left_def)

interpretation mempty: mpsc_promise "\<lambda>s s'. mpsc_nothing_left s \<longrightarrow> mpsc_nothing_left s'"
proof (unfold_locales, goal_cases)
  case (3 s s')
  then show ?case using nothing_left_sstep by blast
next
  case (7 x s t s')
  then show ?case by (auto simp: mpsc_nothing_left_def dequeued_def)
next
  case (9 s s')
  then show ?case by (simp add: mpsc_nothing_left_def receiver_gone_def)
qed (auto simp: mpsc_nothing_left_def)

lemma mpsc_calls_empty:
  assumes "(mpsc_call e)\<^sup>*\<^sup>* s s'" and "mpsc_inv s" and "mpsc_nothing_left s"
  shows "mpsc_nothing_left s'"
  using mempty.calls_steps [OF assms(1,2)] assms(3) unfolding mempty.promised_star by (simp add: kept_def)

end
