(* ===== verification/Mpsc_Theorems.thy ===== *)
theory Mpsc_Theorems
  imports Mpsc_Promises Storage_Theorems
begin

text \<open>
  The properties of the \<open>mpsc\<close> channel. Each quantifies over the user code: any callbacks that act
  on the channel by its own steps, nested to any depth, panicking or not.
\<close>

section \<open>Sample channels\<close>

definition sample :: "(nat, unit) mpsc" where
  "sample = mpsc_new (flavor_bounded 2) ()"

lemma mpsc_new_inv:
  assumes "flavor_inv f" and "flavor_list f = []"
  shows "mpsc_inv (mpsc_new f u)"
  using assms by (simp add: mpsc_inv_def mpsc_new_def idle_def ids_ok_new)

lemma mpsc_bounded_new:
  assumes "mpsc_bounded cap u = Ret s0" and "unat cap \<le> 2 ^ 63"
  shows "mpsc_inv s0" and "capacity s0 = Some (unat cap)" and "queue s0 = []"
proof -
  have pos: "0 < unat cap" and s0: "s0 = mpsc_new (flavor_bounded cap) u"
    using assms(1) by (auto simp: mpsc_bounded_def unat_gt_0 word_gt_0 split: if_splits)
  note spec = flavor_bounded_spec [OF pos assms(2)]
  show "mpsc_inv s0" unfolding s0 by (rule mpsc_new_inv) (simp_all add: spec)
  show "capacity s0 = Some (unat cap)" and "queue s0 = []" by (simp_all add: s0 mpsc_new_def spec)
qed

lemma mpsc_unbounded_new:
  assumes "mpsc_unbounded al u = Ret (s0 :: ('t, 'u) mpsc)" and "allocator_ok al"
  shows "mpsc_inv s0" and "queue s0 = []"
proof -
  obtain f :: "'t flavor" where f: "flavor_unbounded al = Ret f" "flavor_inv f" "flavor_list f = []"
    using flavor_unbounded_spec [OF assms(2), where 't = 't] assms(1) by (auto simp: mpsc_unbounded_def)
  then have s0: "s0 = mpsc_new f u" using assms(1) by (simp add: mpsc_unbounded_def)
  show "mpsc_inv s0" unfolding s0 by (rule mpsc_new_inv [OF f(2,3)])
  show "queue s0 = []" by (simp add: s0 mpsc_new_def f)
qed

text \<open>The constructors of a channel exclude each other.\<close>

lemma mpsc_constructors:
  assumes "mpsc_bounded cap u = Ret s0 \<and> unat cap \<le> 2 ^ 63 \<or> mpsc_unbounded al u = Ret s0 \<and> allocator_ok al"
  shows "mpsc_inv s0" and "queue s0 = []" and "mpsc_bounded cap u = Ret s0 \<Longrightarrow> capacity s0 = Some (unat cap)"
  using assms mpsc_bounded_new [of cap u s0] mpsc_unbounded_new [of al u s0]
  by (auto simp: mpsc_bounded_def mpsc_unbounded_def mpsc_new_def flavor_bounded_def flavor_unbounded_def
      split: if_splits outcome.splits)

lemma sample_bounded: "mpsc_bounded 2 () = Ret sample"
  by (simp add: mpsc_bounded_def sample_def)

lemma sample_inv: "mpsc_inv sample"
  using mpsc_bounded_new(1) [OF sample_bounded] by simp

lemma sample_sel [simp]:
  "receiver_alive sample" "\<not> closed sample" "queue sample = []" "capacity sample = Some 2"
  "recv_waker sample = None" "senders sample = 1" "log sample = []" "send_wakers sample = []"
  "idle sample"
  using mpsc_bounded_new [OF sample_bounded] by (simp_all add: sample_def mpsc_new_def idle_def)

text \<open>The same channel after one message was sent, and after the receiver polled it in vain.\<close>

definition sample_sent :: "(nat, unit) mpsc" where
  "sample_sent = snd (mpsc_try_send (quiet_env True) 7 sample)"

definition sample_parked :: "(nat, unit) mpsc" where
  "sample_parked = snd (mpsc_poll_recv (quiet_env True) 5 sample)"

lemma sample_runs:
  "mpsc_try_send (quiet_env True) 7 sample = (Ret (Inr ()), sample_sent)"
  "mpsc_poll_recv (quiet_env True) 5 sample = (Ret Pending, sample_parked)"
proof -
  have "fst (mpsc_try_send (quiet_env True) 7 sample) = Ret (Inr ())"
    and "fst (mpsc_poll_recv (quiet_env True) 5 sample) = Ret Pending" by code_simp+
  then show "mpsc_try_send (quiet_env True) 7 sample = (Ret (Inr ()), sample_sent)"
    and "mpsc_poll_recv (quiet_env True) 5 sample = (Ret Pending, sample_parked)"
    by (simp_all add: sample_sent_def sample_parked_def prod_eq_iff)
qed

lemma sample_sent_steps: "(mstep q)\<^sup>*\<^sup>* sample sample_sent"
  by (rule guar_run [OF shared_ops.guar_try_send sample_inv sample_runs(1), of UNIV])
    (simp add: admissible_quiet)

lemma sample_sent_inv: "mpsc_inv sample_sent"
  using both_sides.inv_steps [OF sample_sent_steps sample_inv] .

lemma mpsc_send_new_ok [simp]: "send_ok (mpsc_send_new x)"
  by (simp add: mpsc_send_new_def send_new_def send_ok_def)

section \<open>Order, loss and capacity\<close>

text \<open>
  C2. Whatever calls the producers and the consumer make on a channel, bounded or unbounded, returning
  or unwinding, with user code inside that makes calls of its own, the items that were taken out of
  its queue, followed by those still queued, are exactly the items that were put in, in that order:
  nothing is lost in the queue, duplicated or reordered. The queue of a bounded channel never exceeds
  the capacity, it is empty once the receiver is gone, so that no item is stranded there, and no cell
  is left borrowed.
\<close>

theorem mpsc_fifo:
  assumes "mpsc_bounded cap u = Ret s0 \<and> unat cap \<le> 2 ^ 63 \<or> mpsc_unbounded al u = Ret s0 \<and> allocator_ok al"
    and "(mpsc_call AllHandles)\<^sup>*\<^sup>* s0 s"
  shows "pushed (log s) = popped (log s) @ queue s \<and> (mpsc_bounded cap u = Ret s0 \<longrightarrow> length (queue s) \<le> unat cap)
    \<and> (\<not> receiver_alive s \<longrightarrow> queue s = []) \<and> idle s"
proof -
  note s0 = mpsc_constructors [OF assms(1)]
  have steps: "(mstep True)\<^sup>*\<^sup>* s0 s" using mcalls.calls_steps [OF assms(2) s0(1)] by simp
  have "mpsc_inv s" using both_sides.inv_steps [OF steps s0(1)] .
  moreover have "capacity s = Some (unat cap)" if "mpsc_bounded cap u = Ret s0"
    using msteps_keep(1) [OF steps] s0(3) [OF that] by simp
  moreover have "mpsc_nothing_left s0" using s0(2) by (simp add: mpsc_nothing_left_def)
  then have "mpsc_nothing_left s" by (rule mpsc_calls_empty [OF assms(2) s0(1)])
  ultimately show ?thesis
    using flavor.within_cap [of "flavor s" "unat cap"] by (auto simp: mpsc_inv_def mpsc_nothing_left_def)
qed

lemma sample_calls: "(mpsc_call e)\<^sup>*\<^sup>* sample sample_sent"
proof -
  have "mpsc_call e sample sample_sent" by (rule mpsc_call.try_send [OF admissible_quiet sample_runs(1)]) simp_all
  then show ?thesis by (rule r_into_rtranclp)
qed

text \<open>An unbounded channel, its blocks from the sample allocator, and one message sent on it.\<close>

definition unbounded_sample :: "(nat, unit) mpsc" where
  "unbounded_sample = (case mpsc_unbounded bump_alloc () of Ret s \<Rightarrow> s | _ \<Rightarrow> sample)"

definition unbounded_sent :: "(nat, unit) mpsc" where
  "unbounded_sent = snd (mpsc_try_send (quiet_env True) 7 unbounded_sample)"

lemma unbounded_sample_runs:
  "mpsc_unbounded bump_alloc () = Ret unbounded_sample"
  "mpsc_try_send (quiet_env True) 7 unbounded_sample = (Ret (Inr ()), unbounded_sent)"
proof -
  have "case mpsc_unbounded bump_alloc () of Ret (s :: (nat, unit) mpsc) \<Rightarrow> True | _ \<Rightarrow> False"
    and "fst (mpsc_try_send (quiet_env True) 7 unbounded_sample) = Ret (Inr ())" by code_simp+
  then show "mpsc_unbounded bump_alloc () = Ret unbounded_sample"
    and "mpsc_try_send (quiet_env True) 7 unbounded_sample = (Ret (Inr ()), unbounded_sent)"
    by (simp_all add: unbounded_sample_def unbounded_sent_def prod_eq_iff split: outcome.splits)
qed

theorem mpsc_fifo_witness:
  "pushed (log sample_sent) = popped (log sample_sent) @ queue sample_sent \<and> length (queue sample_sent) \<le> 2
    \<and> pushed (log unbounded_sent) = popped (log unbounded_sent) @ queue unbounded_sent"
proof -
  have "(mpsc_call AllHandles)\<^sup>*\<^sup>* unbounded_sample unbounded_sent"
    by (intro r_into_rtranclp mpsc_call.try_send [OF admissible_quiet unbounded_sample_runs(2)]) simp_all
  from mpsc_fifo [OF _ this, of _ "()" bump_alloc] mpsc_fifo [OF _ sample_calls, of 2 "()"] show ?thesis
    by (simp add: unbounded_sample_runs(1) bump_alloc_ok sample_bounded)
qed

text \<open>
  A channel that is closed for sends (its receiver is gone, or it was closed from either side)
  stays so, and nothing is ever put into its queue again, by no call and no re-entrant callback.
\<close>

theorem mpsc_closed_is_final:
  assumes "mpsc_inv s" and "send_closed s" and "(mpsc_call AllHandles)\<^sup>*\<^sup>* s s'"
  shows "send_closed s' \<and> pushed (log s') = pushed (log s)"
proof -
  have "(mstep True)\<^sup>*\<^sup>* s s'" using mcalls.calls_steps [OF assms(3,1)] by simp
  with assms(2) msteps_keep(2,3,5) [of True s s'] show ?thesis by auto
qed

definition sample_closed :: "(nat, unit) mpsc" where
  "sample_closed = snd (mpsc_sender_close (quiet_env True) sample_sent)"

lemma sample_close: "mpsc_sender_close (quiet_env True) sample_sent = (Ret True, sample_closed)"
proof -
  have "fst (mpsc_sender_close (quiet_env True) sample_sent) = Ret True" by code_simp
  then show ?thesis by (simp add: sample_closed_def prod_eq_iff)
qed

lemma sample_closed_inv: "mpsc_inv sample_closed"
  by (rule both_sides.inv_steps [OF guar_run [OF shared_ops.guar_sender_close sample_sent_inv sample_close] sample_sent_inv, of UNIV])
    (simp add: admissible_quiet)

theorem mpsc_closed_is_final_witness:
  "closed sample_closed \<and> pushed (log (snd (mpsc_try_recv (quiet_env True) sample_closed))) = [7]"
proof -
  have run: "fst (mpsc_try_recv (quiet_env True) sample_closed) = Ret (Inr 7)" and c: "closed sample_closed"
    and p: "pushed (log sample_closed) = [7]" by code_simp+
  have "mpsc_call AllHandles sample_closed (snd (mpsc_try_recv (quiet_env True) sample_closed))"
    by (rule mpsc_call.try_recv [OF admissible_quiet, where v = "Ret (Inr 7)"]) (simp_all add: prod_eq_iff run)
  then have "(mpsc_call AllHandles)\<^sup>*\<^sup>* sample_closed (snd (mpsc_try_recv (quiet_env True) sample_closed))"
    by (rule r_into_rtranclp)
  from mpsc_closed_is_final [OF sample_closed_inv _ this] c p show ?thesis by simp
qed

section \<open>Every operation is made of steps\<close>

text \<open>
  C9. The operations on the sending side are safe under re-entrancy: \<open>try_send\<close>, \<open>close\<close>, \<open>Clone\<close> and
  \<open>Drop\<close> of a \<open>Sender\<close>, the poll of a well-formed \<open>Send\<close> future and its \<open>Drop\<close>, and the functions under them
  that wake, park and withdraw. From any state that satisfies the invariant, with any admissible user
  code running inside (wakers that send, receive, close or panic), each is a sequence of channel steps,
  returned or unwound: it never double-borrows a cell, never touches uninitialised or freed memory, aborts
  only for the reasons allowed, and so keeps the invariant. A sender that is cloned or dropped exists,
  and their number does not wrap; a poll of \<open>Send\<close> needs the steps that push and wake later (\<open>q\<close>).
\<close>

theorem mpsc_sender_ops_safe:
  assumes "admissible A mpsc_inv (mstep q) env" and "mpsc_inv s"
  shows "guar A mpsc_inv (mstep q) (mpsc_try_send env x) \<and> guar A mpsc_inv (mstep q) (mpsc_sender_close env)
    \<and> guar A mpsc_inv (mstep q) (mpsc_close env) \<and> guar A mpsc_inv (mstep q) (wake_senders env)
    \<and> guar A mpsc_inv (mstep q) (mpsc_wake_receiver env) \<and> guar A mpsc_inv (mstep q) (add_send_waker env w)
    \<and> guar A mpsc_inv (mstep q) (remove_send_waker env i)
    \<and> (senders s \<noteq> 0 \<longrightarrow> senders s + 1 \<noteq> 0
         \<longrightarrow> wp A mpsc_sender_clone (\<lambda>_ s'. mstep q s s' \<and> s' = s\<lparr>senders := senders s + 1\<rparr>) (\<lambda>_ _. False) s)
    \<and> (senders s \<noteq> 0 \<longrightarrow> wp A (mpsc_sender_drop env) (\<lambda>_. (mstep q)\<^sup>*\<^sup>* s) (\<lambda>_. (mstep q)\<^sup>*\<^sup>* s) s)
    \<and> (q \<longrightarrow> send_ok f \<longrightarrow> wp A (mpsc_send_poll env w)
         (\<lambda>_ (s', f'). (mstep q)\<^sup>*\<^sup>* s s') (\<lambda>_ (s', f'). (mstep q)\<^sup>*\<^sup>* s s') (s, f))
    \<and> wp A (mpsc_send_drop env) (\<lambda>_ (s', f'). (mstep q)\<^sup>*\<^sup>* s s') (\<lambda>_ (s', f'). (mstep q)\<^sup>*\<^sup>* s s') (s, f)"
proof -
  have u: "user_code A mpsc_inv (mstep q) env" and i: "isolates A env" using assms(1) by (auto simp: admissible_def)
  have "wp A (mpsc_send_poll env w) (\<lambda>_ (s', f'). (mstep q)\<^sup>*\<^sup>* s s') (\<lambda>_ (s', f'). (mstep q)\<^sup>*\<^sup>* s s') (s, f)"
    if "q" and "send_ok f"
    using mpsc_send.send_poll_call [OF _ assms(2) that(2)] assms(1) that(1) by simp
  then show ?thesis
    by (intro conjI impI shared_ops.guar_try_send shared_ops.guar_sender_close shared_ops.guar_close
        both_sides.guar_wake_senders shared_ops.guar_wake_receiver shared_ops.guar_add_send_waker
        both_sides.guar_remove_send_waker shared_ops.sender_clone_step shared_ops.sender_drop_guar
        shared_ops.send_drop_call assms u i) simp_all
qed

text \<open>Callbacks that re-enter the channel and panic: waking sends another message, one level less deep.\<close>

fun nested_env :: "nat \<Rightarrow> ((nat, unit) mpsc, nat) env" where
  "nested_env 0 = quiet_env True"
| "nested_env (Suc n) = (quiet_env True)\<lparr>wake_cb := \<lambda>w. bindM (mpsc_try_send (nested_env n) w) (\<lambda>r.
     if r = Inr () then ret () else panic (UserPanic w))\<rparr>"

lemma nested_senders: "admissible UNIV mpsc_inv (sstep q) (nested_env n)"
proof (induction n)
  case (Suc n)
  show ?case
    using sender_ops.guar_try_send [OF Suc.IH]
    by (auto intro!: admissible_wake_cb admissible_quiet sender_side.guar_intros)
qed (simp add: admissible_quiet)

lemma nested_admissible: "admissible UNIV mpsc_inv (mstep q) (nested_env n)"
  by (rule admissible_mono [OF nested_senders [of q]]) (rule mstep_sstep)

theorem mpsc_sender_ops_safe_witness:
  "guar UNIV mpsc_inv (mstep True) (mpsc_try_send (nested_env 3) 7)
    \<and> wp UNIV (mpsc_sender_drop (nested_env 3)) (\<lambda>_. (mstep True)\<^sup>*\<^sup>* sample_sent) (\<lambda>_. (mstep True)\<^sup>*\<^sup>* sample_sent) sample_sent"
proof -
  have "senders sample_sent \<noteq> 0" by code_simp
  with mpsc_sender_ops_safe [OF nested_admissible [of True 3] sample_sent_inv] show ?thesis by blast
qed

text \<open>
  C10. The operations of the receiver are safe under re-entrancy too, with user code that acts on
  the channel by the sender's steps: receiving, polling, closing and dropping are sequences of
  channel steps, returned or unwound, without fault.
\<close>

theorem mpsc_receiver_ops_safe:
  assumes "admissible A mpsc_inv (sstep q) env" and "same_clones env" and "DoublePanic \<in> A"
    and "mpsc_inv s" and "receiver_alive s"
  shows "wp A (mpsc_try_recv env) (\<lambda>_. (mstep q)\<^sup>*\<^sup>* s) (\<lambda>_. (mstep q)\<^sup>*\<^sup>* s) s
    \<and> wp A (mpsc_poll_recv env w) (\<lambda>_. (mstep q)\<^sup>*\<^sup>* s) (\<lambda>_. (mstep q)\<^sup>*\<^sup>* s) s
    \<and> wp A (mpsc_receiver_close env) (\<lambda>_. (mstep q)\<^sup>*\<^sup>* s) (\<lambda>_. (mstep q)\<^sup>*\<^sup>* s) s
    \<and> wp A (mpsc_receiver_drop env) (\<lambda>_. (mstep q)\<^sup>*\<^sup>* s) (\<lambda>_. (mstep q)\<^sup>*\<^sup>* s) s"
proof (intro conjI)
  show "wp A (mpsc_try_recv env) (\<lambda>_. (mstep q)\<^sup>*\<^sup>* s) (\<lambda>_. (mstep q)\<^sup>*\<^sup>* s) s"
    by (rule wp_conseq [OF receives.try_recv_steps [OF assms(1,3,4)]]) (auto intro: consumes.received_steps split: sum.splits)
  show "wp A (mpsc_poll_recv env w) (\<lambda>_. (mstep q)\<^sup>*\<^sup>* s) (\<lambda>_. (mstep q)\<^sup>*\<^sup>* s) s"
    by (rule wp_conseq [OF receives.mpsc_poll_recv_steps [OF assms]]) (auto intro: consumes.polled_steps)
  show "wp A (mpsc_receiver_close env) (\<lambda>_. (mstep q)\<^sup>*\<^sup>* s) (\<lambda>_. (mstep q)\<^sup>*\<^sup>* s) s"
    unfolding mpsc_receiver_close_def mpsc_receiver_is_closed_def
    by (rule sender_side.guar_wp [OF _ assms(4)])
      (use sender_ops.guar_close [OF assms(1)] in \<open>auto intro!: sender_side.guar_intros intro: mstep_of_sstep\<close>)
  show "wp A (mpsc_receiver_drop env) (\<lambda>_. (mstep q)\<^sup>*\<^sup>* s) (\<lambda>_. (mstep q)\<^sup>*\<^sup>* s) s"
    by (rule wp_conseq [OF receiver_drop_steps [OF assms(1,3,4)]]) (auto simp: receiver_gone_def)
qed

text \<open>User code for the receiver's operations: wakers that send.\<close>

definition sending_env :: "((nat, unit) mpsc, nat) env" where
  "sending_env = (quiet_env True)\<lparr>wake_cb := \<lambda>w. thenM (mpsc_try_send (quiet_env True) w) (panic (UserPanic w))\<rparr>"

lemma sending_admissible: "admissible UNIV mpsc_inv (sstep q) sending_env" "same_clones sending_env"
proof -
  have "guar UNIV mpsc_inv (sstep q) (mpsc_try_send (quiet_env True) w)" for w :: nat
    by (intro sender_ops.guar_try_send admissible_quiet) simp
  then show "admissible UNIV mpsc_inv (sstep q) sending_env"
    unfolding sending_env_def by (intro admissible_wake_cb admissible_quiet sender_side.guar_intros) auto
  show "same_clones sending_env" by (simp add: same_clones_def sending_env_def quiet_env_def ret_def)
qed

theorem mpsc_receiver_ops_safe_witness:
  "wp UNIV (mpsc_try_recv sending_env) (\<lambda>_. (mstep True)\<^sup>*\<^sup>* sample) (\<lambda>_. (mstep True)\<^sup>*\<^sup>* sample) sample
    \<and> wp UNIV (mpsc_receiver_drop sending_env) (\<lambda>_. (mstep True)\<^sup>*\<^sup>* sample) (\<lambda>_. (mstep True)\<^sup>*\<^sup>* sample) sample"
  using mpsc_receiver_ops_safe [OF sending_admissible(1) [of True] sending_admissible(2) _ sample_inv] by simp

lemma sample_parked_steps: "(mstep q)\<^sup>*\<^sup>* sample sample_parked"
  using wp_RetD [OF receives.mpsc_poll_recv_steps [of UNIV q "quiet_env True" sample 5] sample_runs(2)] sample_inv
  by (auto simp: admissible_quiet clones_quiet recv_polled_def dest: consumes.registered_steps)

lemma sample_parked_inv: "mpsc_inv sample_parked"
  using both_sides.inv_steps [OF sample_parked_steps sample_inv] .

section \<open>Sending\<close>

text \<open>The log entry that waking the receiver of \<open>s\<close> makes.\<close>

definition recv_wake :: "('t, 'u) mpsc \<Rightarrow> 't event list" where
  "recv_wake s = (case recv_waker s of None \<Rightarrow> [] | Some w \<Rightarrow> [Woke w])"

lemma new_log_wake:
  assumes "enqueued x s t" and "(mstep q)\<^sup>*\<^sup>* (wake_recv t) s'"
  shows "\<exists>es. new_log s s' = Pushed x # recv_wake s @ es"
proof -
  have "recv_waker t = recv_waker s" using assms(1) by (auto simp: enqueued_def)
  then have "log s' = log s @ Pushed x # recv_wake s @ new_log (wake_recv t) s'"
    using both_sides.steps_log [OF assms(2)] enqueued_log [OF assms(1)]
    by (simp add: wake_recv_log recv_wake_def)
  then show ?thesis by (simp add: new_log_def [of s s'])
qed

text \<open>
  \<open>Sender::try_send\<close> on every branch. It returns \<open>Closed\<close> with the item when the receiver is gone
  or the channel was closed, \<open>Full\<close> with the item when the queue is at capacity, and changes nothing
  then. Otherwise the item is put into the queue and the parked receiver, if there is one, is woken
  right after, before anything else happens; this also when its waker panics.
\<close>

theorem mpsc_try_send_spec:
  assumes "admissible A mpsc_inv (mstep q) env" and "mpsc_inv s"
  shows "wp A (mpsc_try_send env x)
    (\<lambda>r s'. r = (if send_closed s then Inl (Closed x) else if at_capacity s then Inl (Full x) else Inr ())
       \<and> (if r = Inr () then \<exists>es. new_log s s' = Pushed x # recv_wake s @ es else s' = s))
    (\<lambda>_ s'. \<not> send_closed s \<and> \<not> at_capacity s \<and> (\<exists>es. new_log s s' = Pushed x # recv_wake s @ es)) s"
  by (rule wp_conseq [OF shared_ops.try_send_steps [OF assms]]) (auto split: if_splits dest: new_log_wake)

theorem mpsc_try_send_spec_witness:
  "wp UNIV (mpsc_try_send (nested_env 2) 8) (\<lambda>r s'. r = Inr () \<and> (\<exists>es. new_log sample_parked s' = Pushed 8 # Woke 5 # es))
    (\<lambda>_ s'. \<exists>es. new_log sample_parked s' = Pushed 8 # Woke 5 # es) sample_parked"
proof -
  have "recv_wake sample_parked = [Woke 5]" "\<not> send_closed sample_parked" "\<not> at_capacity sample_parked"
    by code_simp+
  then show ?thesis
    by (intro wp_conseq [OF mpsc_try_send_spec [OF nested_admissible [of True 2] sample_parked_inv]]) auto
qed

text \<open>
  After a push whose receiver is then woken: who was parked before has been woken, as the sender's
  steps leave a registration where it is or log that they woke it.
\<close>

lemma pushed_woken:
  assumes "pushes (sstep True) send_closed x s t" and "(sstep True)\<^sup>*\<^sup>* t v" and "(sstep True)\<^sup>*\<^sup>* (wake_recv v) s'"
    and w: "recv_waker s = Some w"
  shows "Woke w \<in> set (new_log s s')"
proof -
  obtain s0 where "(sstep True)\<^sup>*\<^sup>* s s0" "enqueued x s0 t" "\<not> send_closed s0" "\<not> at_capacity s0"
    using assms(1) by (auto simp: pushes_def)
  then have sv: "(sstep True)\<^sup>*\<^sup>* s v" using enqueued_push_quiet [of x s0 t] assms(2) by (meson rtranclp.rtrancl_into_rtrancl rtranclp_trans)
  have vw: "(sstep True)\<^sup>*\<^sup>* v (wake_recv v)" using sstep.wake by blast
  have vs: "(sstep True)\<^sup>*\<^sup>* v s'" using vw assms(3) by simp
  from ssteps_keep(8) [OF sv] w have "recv_waker v = Some w \<or> Woke w \<in> set (new_log s v)" by (auto simp: waker_kept_def)
  moreover have "Woke w \<in> set (new_log v (wake_recv v))" if "recv_waker v = Some w"
    using that by (simp add: new_log_def wake_recv_log)
  ultimately show ?thesis
    using sender_side.new_log_mono [OF sv vs] sender_side.new_log_mono(1) [OF vw assms(3)] by blast
qed

text \<open>
  C24. Polling a \<open>Send\<close> future that still holds its message. \<open>Ready(Ok)\<close>: the message was put into the
  queue of an open channel that had room; and if the receiver was parked when the poll began, its waker
  was called before the poll returned, provided that user code inside the poll acts on senders only (code
  that holds the receiver may withdraw the registration itself). \<open>Ready(Err)\<close>: the channel was closed and
  the message is handed back. \<open>Pending\<close>: the queue is full, the channel open, the message still in the
  future, and a clone of the task's waker registered under the id the future keeps. When user code
  unwinds, the message is still in the future, or the outcome has been recorded there.
\<close>

theorem mpsc_send_poll_spec:
  assumes "admissible A mpsc_inv (mstep True) env" and "mpsc_inv s"
    and "sf_item f = Some x" and "\<not> sf_done f" and "sf_outcome f = None"
  shows "wp A (mpsc_send_poll env cx)
    (\<lambda>p (s', f'). mpsc_inv s' \<and> (case p of
       Ready (Inr _) \<Rightarrow> (\<exists>t. pushes (mstep True) send_closed x s t \<and> (mstep True)\<^sup>*\<^sup>* t s') \<and> send_ok f'
         \<and> (admissible A mpsc_inv (sstep True) env \<longrightarrow> (\<forall>v. recv_waker s = Some v \<longrightarrow> Woke v \<in> set (new_log s s')))
     | Ready (Inl e) \<Rightarrow> e = SendError x \<and> send_closed s' \<and> send_ok f'
     | Pending \<Rightarrow> at_capacity s' \<and> \<not> send_closed s' \<and> (\<exists>i w. f' = f\<lparr>sf_waker_id := Some i\<rparr> \<and> (i, w) \<in> set (send_wakers s')
         \<and> (same_clones env \<longrightarrow> w = cx))))
    (\<lambda>_ (s', f'). mpsc_inv s' \<and> (f' = f\<lparr>sf_waker_id := None\<rparr>
       \<or> (\<exists>r. sf_outcome f' = Some r \<and> sf_item f' = None \<and> sf_done f' \<and> send_result (mstep True) send_closed (mstep True)\<^sup>*\<^sup>* x s r s'))) (s, f)"
  (is "wp A _ ?Q ?E (s, f)")
proof -
  let ?W = "\<lambda>p (s', f'). \<forall>u v. p = Ready (Inr u) \<longrightarrow> admissible A mpsc_inv (sstep True) env
      \<longrightarrow> recv_waker s = Some v \<longrightarrow> Woke v \<in> set (new_log s s')"
  have sent: "wp A (mpsc_send_poll env cx) (\<lambda>p (s', f'). mpsc_inv s' \<and> (case p of
       Ready (Inr _) \<Rightarrow> (\<exists>t. pushes (mstep True) send_closed x s t \<and> (mstep True)\<^sup>*\<^sup>* t s') \<and> send_ok f'
     | Ready (Inl e) \<Rightarrow> e = SendError x \<and> send_closed s' \<and> send_ok f'
     | Pending \<Rightarrow> at_capacity s' \<and> \<not> send_closed s' \<and> (\<exists>i w. f' = f\<lparr>sf_waker_id := Some i\<rparr> \<and> (i, w) \<in> set (send_wakers s')
         \<and> (same_clones env \<longrightarrow> w = cx)))) ?E (s, f)"
    unfolding mpsc_send_poll_def
  proof (rule mpsc_send.send_poll_steps [OF assms(1) _ assms(3-5)], goal_cases)
    case 1
    show ?case by (rule assms(2))
  next
    case (2 r s')
    show ?case
    proof (cases r)
      case (Inl e)
      with 2(1) obtain t where "e = SendError x" "send_closed t" "(mstep True)\<^sup>*\<^sup>* t s'"
        by (auto simp: send_result_def)
      with Inl 2(2) msteps_keep(2,3) [of True t s'] assms(5) show ?thesis by (auto simp: send_ok_def)
    next
      case (Inr u)
      with 2 assms(5) show ?thesis by (auto simp: send_ok_def)
    qed
  qed auto
  have woken: "wp A (mpsc_send_poll env cx) ?W (\<lambda>_ _. True) (s, f)" if env: "admissible A mpsc_inv (sstep True) env"
    unfolding mpsc_send_poll_def
    by (rule sender_send.send_poll_steps [OF env assms(2-5)]) (auto dest: pushed_woken [simplified])
  have "wp A (mpsc_send_poll env cx) ?W (\<lambda>_ _. True) (s, f)"
  proof (cases "admissible A mpsc_inv (sstep True) env")
    case False
    with sent show ?thesis by (elim wp_conseq) auto
  qed (rule woken)
  from wp_conj [OF sent this] show ?thesis by (rule wp_conseq) (auto split: poll.splits sum.splits)
qed

definition parked_send :: "nat send_fut" where
  "parked_send = \<lparr>sf_item = Some 9, sf_done = False, sf_waker_id = Some 0, sf_outcome = None\<rparr>"

theorem mpsc_send_poll_spec_witness:
  "wp UNIV (mpsc_send_poll (nested_env 2) 4) (\<lambda>p (s', f'). mpsc_inv s' \<and> (\<forall>e. p = Ready (Inl e) \<longrightarrow> e = SendError 9)
      \<and> (\<forall>u. p = Ready (Inr u) \<longrightarrow> Woke 5 \<in> set (new_log sample_parked s')))
    (\<lambda>_ (s', f'). mpsc_inv s') (sample_parked, parked_send)"
proof -
  have "recv_waker sample_parked = Some 5" by code_simp
  with nested_senders [of True 2] show ?thesis
    by (intro wp_conseq [OF mpsc_send_poll_spec [OF nested_admissible [of True 2] sample_parked_inv, of parked_send 9]])
      (auto simp: parked_send_def split: sum.splits)
qed

text \<open>
  The outcome of a send is never lost to a panic. If a poll unwinds after the message was put
  into the queue, or after the channel was found closed, then the next poll, from whatever state the
  channel is in by then, returns that outcome at once and runs no user code; and the future never
  sends the message twice, because it no longer holds it.
\<close>

theorem mpsc_send_outcome_replayed:
  assumes "admissible A mpsc_inv (mstep True) env" and "mpsc_inv s"
    and "sf_item f = Some x" and "\<not> sf_done f" and "sf_outcome f = None"
    and "mpsc_send_poll env cx (s, f) = (Panic p, (s', f'))" and "sf_done f'"
  shows "\<exists>r. send_result (mstep True) send_closed (mstep True)\<^sup>*\<^sup>* x s r s' \<and> sf_item f' = None
    \<and> mpsc_send_poll env' cx' (s'', f') = (Ret (Ready r), (s'', f'\<lparr>sf_outcome := None\<rparr>))"
proof -
  have "wp A (mpsc_send_poll env cx) (\<lambda>_ _. True) (\<lambda>_ (s', f'). sf_done f' \<longrightarrow> sf_item f' = None
      \<and> (\<exists>r. sf_outcome f' = Some r \<and> send_result (mstep True) send_closed (mstep True)\<^sup>*\<^sup>* x s r s')) (s, f)"
    unfolding mpsc_send_poll_def
    by (rule mpsc_send.send_poll_steps [OF assms(1) _ assms(3-5)]) (use assms(2,4) in auto)
  from wp_PanicD [OF this assms(6)] assms(7) obtain r where "sf_item f' = None" "sf_outcome f' = Some r"
    "send_result (mstep True) send_closed (mstep True)\<^sup>*\<^sup>* x s r s'"
    by auto
  then show ?thesis by (auto simp: mpsc_send_poll_def send_poll_replay)
qed

text \<open>A receiver's waker that panics when it is woken.\<close>

definition panicking_env :: "((nat, unit) mpsc, nat) env" where
  "panicking_env = (quiet_env True)\<lparr>wake_cb := \<lambda>w. panic (UserPanic w)\<rparr>"

lemma panicking_admissible: "OutOfMemory \<in> A \<Longrightarrow> admissible A mpsc_inv R panicking_env"
  unfolding panicking_env_def by (rule admissible_wake_cb) (auto simp: admissible_quiet guar_def wp_simps)

theorem mpsc_send_outcome_replayed_witness:
  "\<exists>s' f'. mpsc_send_poll panicking_env 4 (sample_parked, mpsc_send_new 9) = (Panic (UserPanic 5), (s', f'))
    \<and> (\<exists>r. send_result (mstep True) send_closed (mstep True)\<^sup>*\<^sup>* 9 sample_parked r s'
         \<and> mpsc_send_poll panicking_env 4 (s', f') = (Ret (Ready r), (s', f'\<lparr>sf_outcome := None\<rparr>)))"
proof -
  obtain o' s' f' where run: "mpsc_send_poll panicking_env 4 (sample_parked, mpsc_send_new 9) = (o', (s', f'))"
    by (metis surj_pair)
  have "fst (mpsc_send_poll panicking_env 4 (sample_parked, mpsc_send_new 9)) = Panic (UserPanic 5)"
    and "sf_done (snd (snd (mpsc_send_poll panicking_env 4 (sample_parked, mpsc_send_new 9))))" by code_simp+
  with run have "o' = Panic (UserPanic 5)" and "sf_done f'" by simp_all
  with mpsc_send_outcome_replayed [OF panicking_admissible [of UNIV] sample_parked_inv, of "mpsc_send_new 9" 9 4]
  show ?thesis using run by (fastforce simp: mpsc_send_new_def send_new_def)
qed

text \<open>
  A \<open>Send\<close> future that has returned its outcome is fused: every later poll is \<open>Pending\<close>, changes
  neither the channel nor the future and runs no user code, and dropping it touches nothing.
\<close>

theorem mpsc_send_fused:
  assumes "sf_done f" and "sf_outcome f = None" and "sf_waker_id f = None"
  shows "mpsc_send_poll env cx (s, f) = (Ret Pending, (s, f)) \<and> mpsc_send_drop env (s, f) = (Ret (), (s, f))
    \<and> mpsc_send_is_terminated (s, f) = (Ret True, (s, f))"
proof -
  have "f\<lparr>sf_waker_id := None\<rparr> = f" using assms by simp
  then show ?thesis
    using assms by (simp add: mpsc_send_poll_def mpsc_send_drop_def mpsc_send_is_terminated_def send_poll_done
        send_drop_def take_waker_id_def comp_eval)
qed

theorem mpsc_send_fused_witness:
  "mpsc_send_poll (nested_env 1) 4 (sample, (mpsc_send_new 9)\<lparr>sf_item := None, sf_done := True\<rparr>)
    = (Ret Pending, (sample, (mpsc_send_new 9)\<lparr>sf_item := None, sf_done := True\<rparr>))"
  using mpsc_send_fused [of "(mpsc_send_new 9)\<lparr>sf_item := None, sf_done := True\<rparr>" "nested_env 1" 4 sample]
  by (simp add: mpsc_send_new_def send_new_def)

section \<open>Receiving\<close>

lemma received_effect:
  assumes "received (sstep q) x s s'"
  shows "popped (log s') = popped (log s) @ [x]" and "\<exists>ys zs. queue s = x # ys \<and> queue s' = ys @ zs"
    and "all_woken (send_wakers s) (new_log s s')" and "receiver_alive s' = receiver_alive s"
proof -
  obtain t where t: "dequeued x s t" and s': "(sstep q)\<^sup>*\<^sup>* (t\<lparr>send_wakers := []\<rparr>) s'"
    and w: "all_woken (send_wakers s) (new_log t s')"
    using assms by (auto simp: received_def)
  note k = ssteps_keep [OF s']
  show "popped (log s') = popped (log s) @ [x]" and "\<exists>ys zs. queue s = x # ys \<and> queue s' = ys @ zs"
    and "receiver_alive s' = receiver_alive s"
    using t k(1,2,6) by (auto simp: dequeued_def)
  have "log t = log s @ [Popped x]" using t by (auto simp: dequeued_def)
  then have "set (new_log t s') \<subseteq> set (new_log s s')" by (simp add: new_log_def set_drop_subset_set_drop)
  with w show "all_woken (send_wakers s) (new_log s s')" unfolding all_woken_def by blast
qed

text \<open>
  \<open>Receiver::try_recv\<close> on every branch. An item that comes back is the oldest queued one, it was
  delivered exactly once, the queue lost nothing else, and every sender parked at that moment has
  been woken. On an empty queue the answer is \<open>Disconnected\<close> if the channel was closed or has no
  senders, else \<open>Empty\<close>, and nothing changes.
\<close>

theorem mpsc_try_recv_spec:
  assumes "admissible A mpsc_inv (sstep q) env" and "DoublePanic \<in> A" and "mpsc_inv s"
  shows "wp A (mpsc_try_recv env)
    (\<lambda>r s'. case r of
       Inr x \<Rightarrow> popped (log s') = popped (log s) @ [x] \<and> (\<exists>ys zs. queue s = x # ys \<and> queue s' = ys @ zs)
         \<and> all_woken (send_wakers s) (new_log s s')
     | Inl e \<Rightarrow> s' = s \<and> queue s = [] \<and> e = (if mpsc_disconnected s then Disconnected else Empty))
    (\<lambda>_ s'. \<exists>x. popped (log s') = popped (log s) @ [x] \<and> ItemDropped x \<in> set (new_log s s')
       \<and> all_woken (send_wakers s) (new_log s s')) s"
  by (rule wp_conseq [OF receives.try_recv_steps [OF assms]]) (auto dest: received_effect split: sum.splits)

theorem mpsc_try_recv_spec_witness:
  "wp UNIV (mpsc_try_recv sending_env) (\<lambda>r s'. \<forall>e. r \<noteq> Inl e) (\<lambda>_ _. True) sample_sent"
proof -
  have "queue sample_sent \<noteq> []" by code_simp
  then show ?thesis
    by (intro wp_conseq [OF mpsc_try_recv_spec [OF sending_admissible(1) [of True] _ sample_sent_inv]])
      (auto split: sum.splits)
qed

text \<open>
  C22. Polling the receiver. An item that comes back was the head of the queue, with everything
  before it already received. \<open>Ready(None)\<close> means the queue is empty, the channel disconnected, and no
  waker is retained. \<open>Pending\<close> means the queue is empty, the channel is connected, and the task's waker
  is registered, or was woken while the poll ran.
\<close>

theorem mpsc_poll_recv_spec:
  assumes "admissible A mpsc_inv (sstep q) env" and "same_clones env" and "DoublePanic \<in> A"
    and "mpsc_inv s" and "receiver_alive s"
  shows "wp A (mpsc_poll_recv env w)
    (\<lambda>p s'. mpsc_inv s' \<and> (case p of
       Ready (Some x) \<Rightarrow> popped (log s') = popped (log s) @ [x]
     | Ready None \<Rightarrow> popped (log s') = popped (log s) \<and> queue s' = [] \<and> mpsc_disconnected s' \<and> recv_waker s' = None
     | Pending \<Rightarrow> popped (log s') = popped (log s) \<and> queue s' = [] \<and> \<not> mpsc_disconnected s'
         \<and> (recv_waker s' = Some w \<or> Woke w \<in> set (new_log s s'))))
    (\<lambda>_ s'. mpsc_inv s' \<and> (popped (log s') = popped (log s)
       \<or> (\<exists>x. popped (log s') = popped (log s) @ [x] \<and> ItemDropped x \<in> set (log s')))) s"
proof -
  have inv: "mpsc_inv t" if "awaited (sstep q) w s t" for t
    using consumes.awaited_steps [OF that] assms(4) both_sides.inv_steps by blast
  then have inv_r: "mpsc_inv t" if "registered (sstep q) s w t" for t
    using that by (simp add: awaited_def)
  have inv': "mpsc_inv s'" if "awaited (sstep q) w s t" "received (sstep q) x t s'" for x t s'
    using inv [OF that(1)] consumes.received_steps [OF that(2)] both_sides.inv_steps by blast
  have dropped: "ItemDropped x \<in> set (log s')" if "ItemDropped x \<in> set (new_log t s')" for x t and s' :: "('a, 'b) mpsc"
    using that by (auto simp: new_log_def dest: in_set_dropD)
  show ?thesis
    by (rule wp_conseq [OF receives.mpsc_poll_recv_steps [OF assms]])
      (auto simp: recv_polled_def recv_unwound_def receives.awaited_keeps(2) receives.registered_keeps(2) received_effect(1)
        intro: inv inv' inv_r dropped dest: receives.registered_keeps(3) split: poll.splits option.splits)
qed

theorem mpsc_poll_recv_spec_witness:
  "wp UNIV (mpsc_poll_recv sending_env 5) (\<lambda>p s'. p = Ready None \<longrightarrow> mpsc_disconnected s') (\<lambda>_ s'. mpsc_inv s') sample_sent"
proof -
  have "receiver_alive sample_sent" by code_simp
  then show ?thesis
    by (intro wp_conseq [OF mpsc_poll_recv_spec [OF sending_admissible(1) [of True] sending_admissible(2) _ sample_sent_inv]])
      auto
qed

section \<open>Wakeups\<close>

text \<open>
  C4. No wakeup of the receiver is lost. After a poll returned \<open>Pending\<close>, and whatever calls senders then
  make, \<open>Send\<close> futures included as long as no poll of one unwinds, either the waker is still
  registered, the queue still empty and the channel still connected, so there is nothing to be
  woken for, or the waker has been woken since the poll began. The user code that runs inside the
  poll may make any calls of senders.
\<close>

theorem mpsc_no_lost_wakeup:
  assumes "admissible A mpsc_inv (mpsc_call AllSenders) env" and "same_clones env" and "DoublePanic \<in> A"
    and "mpsc_inv s" and "receiver_alive s"
    and "mpsc_poll_recv env w s = (Ret Pending, s')" and "(mpsc_call CarefulSenders)\<^sup>*\<^sup>* s' s''"
  shows "recv_waker s'' = Some w \<and> queue s'' = [] \<and> \<not> mpsc_disconnected s'' \<or> Woke w \<in> set (new_log s s'')"
proof -
  have env: "admissible A mpsc_inv (sstep True) env" using mcalls.calls_admissible [OF assms(1)] by simp
  have r: "registered (sstep True) s w s'" and e: "queue s' = []" "\<not> mpsc_disconnected s'"
    using wp_RetD [OF receives.mpsc_poll_recv_steps [OF env assms(2-5)] assms(6)] by (auto simp: recv_polled_def)
  have "lstep s' s''"
    using mcalls.calls_steps [OF assms(7) both_sides.inv_steps [OF consumes.registered_steps [OF r] assms(4)]] by (simp add: lsteps)
  then have later: "(mstep True)\<^sup>*\<^sup>* s' s''" and m: "minds s' s''" by (auto simp: lstep_iff intro: mstep_of_sstep)
  note mono = both_sides.new_log_mono [OF consumes.registered_steps [OF r] later]
  from receives.registered_keeps(3) [OF r] show ?thesis
  proof
    assume "recv_waker s' = Some w"
    with m e have "recv_waker s'' = Some w \<and> queue s'' = [] \<and> \<not> mpsc_disconnected s'' \<or> Woke w \<in> set (new_log s' s'')"
      by (auto simp: minds_def)
    with mono(2) show ?thesis by blast
  next
    assume "Woke w \<in> set (new_log s s')"
    with mono(1) show ?thesis by blast
  qed
qed

text \<open>The witness sends with a \<open>Send\<close> future.\<close>

theorem mpsc_no_lost_wakeup_witness:
  "mpsc_poll_recv (quiet_env True) 5 sample = (Ret Pending, sample_parked)
    \<and> Woke 5 \<in> set (new_log sample (fst (snd (mpsc_send_poll (quiet_env True) 4 (sample_parked, mpsc_send_new 9)))))"
proof -
  let ?r = "mpsc_send_poll (quiet_env True) 4 (sample_parked, mpsc_send_new 9)"
  have run: "fst ?r = Ret (Ready (Inr ()))" and w: "recv_waker (fst (snd ?r)) = None" by code_simp+
  then have "?r = (Ret (Ready (Inr ())), (fst (snd ?r), snd (snd ?r)))" by (simp add: prod_eq_iff)
  then have "mpsc_call CarefulSenders sample_parked (fst (snd ?r))"
    by (rule mpsc_call.send_poll [OF admissible_quiet, rotated 2]) simp_all
  then have "(mpsc_call CarefulSenders)\<^sup>*\<^sup>* sample_parked (fst (snd ?r))" by (rule r_into_rtranclp)
  from mpsc_no_lost_wakeup [OF admissible_quiet [of UNIV] clones_quiet _ sample_inv _ sample_runs(2) this]
  show ?thesis using sample_runs(2) w by simp
qed

text \<open>A channel for one message, full, and then with a sender parked on it.\<close>

definition one_sent :: "(nat, unit) mpsc" where
  "one_sent = snd (mpsc_try_send (quiet_env True) 7 (mpsc_new (flavor_bounded 1) ()))"

definition one_blocked :: "(nat, unit) mpsc" where
  "one_blocked = fst (snd (mpsc_send_poll (quiet_env True) 3 (one_sent, mpsc_send_new 8)))"

lemma one_blocked_run:
  "\<exists>f'. mpsc_send_poll (quiet_env True) 3 (one_sent, mpsc_send_new 8) = (Ret Pending, (one_blocked, f'))
    \<and> sf_waker_id f' = Some 0"
proof -
  have "fst (mpsc_send_poll (quiet_env True) 3 (one_sent, mpsc_send_new 8)) = Ret Pending"
    and "sf_waker_id (snd (snd (mpsc_send_poll (quiet_env True) 3 (one_sent, mpsc_send_new 8)))) = Some 0" by code_simp+
  then show ?thesis by (auto simp: one_blocked_def prod_eq_iff)
qed

lemma one_sent_inv: "mpsc_inv one_sent"
proof -
  let ?s = "mpsc_new (flavor_bounded 1) () :: (nat, unit) mpsc"
  have run: "fst (mpsc_try_send (quiet_env True) 7 ?s) = Ret (Inr ())" by code_simp
  have "mpsc_call AllHandles ?s one_sent"
    by (rule mpsc_call.try_send [OF admissible_quiet, where x = 7 and r = "Ret (Inr ())"]) (simp_all add: one_sent_def prod_eq_iff run)
  moreover have s: "mpsc_inv ?s" by (rule mpsc_bounded_new(1) [of 1 "()"]) (simp_all add: mpsc_bounded_def)
  ultimately show ?thesis using mcalls.reached.inv_steps [OF mcalls.call_steps s] by blast
qed

lemma one_blocked_inv: "mpsc_inv one_blocked"
proof -
  obtain f' where "mpsc_send_poll (quiet_env True) 3 (one_sent, mpsc_send_new 8) = (Ret Pending, (one_blocked, f'))"
    using one_blocked_run by blast
  then have "mpsc_call AllHandles one_sent one_blocked"
    by (rule mpsc_call.send_poll [OF admissible_quiet, rotated 2]) simp_all
  from mcalls.reached.inv_steps [OF mcalls.call_steps [OF this one_sent_inv] one_sent_inv] show ?thesis .
qed

text \<open>
  C6. No parked sender is forgotten. After a poll of a \<open>Send\<close> future returned \<open>Pending\<close>, and whatever calls
  the senders and the receiver then make, returning or unwinding, one of three things holds: the
  future's waker is still on the list, under the id the future keeps, the queue is still full and the
  channel open, so the future could not proceed; or that waker has been woken since; or the
  registration with that id has been withdrawn, which is what polling or dropping the future does. So an
  item that leaves the full queue, closing the channel and dropping the receiver each wake the sender,
  whatever the other wakers do, although a panic may cost the receiver its item.
\<close>

theorem mpsc_sender_not_forgotten:
  assumes "admissible A mpsc_inv (mpsc_call AllHandles) env" and "same_clones env" and "mpsc_inv s"
    and "sf_item f = Some x" and "\<not> sf_done f" and "sf_outcome f = None"
    and "mpsc_send_poll env w (s, f) = (Ret Pending, (s', f'))" and "(mpsc_call AllHandles)\<^sup>*\<^sup>* s' s''"
  shows "\<exists>i. sf_waker_id f' = Some i
    \<and> ((i, w) \<in> set (send_wakers s'') \<and> at_capacity s'' \<and> \<not> send_closed s''
      \<or> Woke w \<in> set (new_log s' s'') \<or> SendWithdrawn i \<in> set (new_log s' s''))"
proof -
  have env: "admissible A mpsc_inv (mstep True) env" using mcalls.calls_admissible [OF assms(1)] by simp
  have "wp A (mpsc_send_poll env w)
      (\<lambda>p (s', f'). p = Pending \<longrightarrow> mpsc_inv s' \<and> (\<exists>i. sf_waker_id f' = Some i \<and> sender_waits send_closed i w s')) (\<lambda>_ _. True) (s, f)"
    unfolding mpsc_send_poll_def
    by (rule mpsc_send.send_poll_steps [OF env assms(3-6)]) (use assms(2) in \<open>auto simp: sender_waits_def\<close>)
  from wp_RetD [OF this assms(7)] obtain i where i: "mpsc_inv s'" "sf_waker_id f' = Some i" "sender_waits send_closed i w s'" by auto
  from mpsc_calls_heed [OF assms(8) i(1,3)] i(2) show ?thesis by (auto simp: sender_waits_def sender_let_go_def)
qed

theorem mpsc_sender_not_forgotten_witness:
  "Woke 3 \<in> set (new_log one_blocked (snd (mpsc_try_recv (quiet_env True) one_blocked)))"
proof -
  let ?s = "snd (mpsc_try_recv (quiet_env True) one_blocked)"
  obtain f' where poll: "mpsc_send_poll (quiet_env True) 3 (one_sent, mpsc_send_new 8) = (Ret Pending, (one_blocked, f'))"
    and i: "sf_waker_id f' = Some 0"
    using one_blocked_run by blast
  have "fst (mpsc_try_recv (quiet_env True) one_blocked) = Ret (Inr 7)" by code_simp
  then have "mpsc_call AllHandles one_blocked ?s"
    by (intro mpsc_call.try_recv [OF admissible_quiet, where v = "Ret (Inr 7)"]) (simp_all add: prod_eq_iff)
  then have calls: "(mpsc_call AllHandles)\<^sup>*\<^sup>* one_blocked ?s" by (rule r_into_rtranclp)
  have "send_wakers ?s = []" "SendWithdrawn 0 \<notin> set (new_log one_blocked ?s)" by code_simp+
  with i mpsc_sender_not_forgotten [OF admissible_quiet [of UNIV] clones_quiet one_sent_inv _ _ _ poll calls]
  show ?thesis by (auto simp: mpsc_send_new_def send_new_def)
qed

text \<open>
  Closing from a sender, with wakers that make any calls. \<open>close\<close> answers whether this call closed the
  channel. If it did, then afterwards, whether it returns or a waker unwinds, the channel is closed, a
  parked receiver was woken first, and every sender that was parked has been woken, unless its \<open>Send\<close>
  future withdrew the registration while the call ran. A second call changes nothing.
\<close>

theorem mpsc_close_spec:
  assumes "admissible A mpsc_inv (mpsc_call e) env" and "mpsc_inv s"
  shows "wp A (mpsc_sender_close env)
    (\<lambda>r s'. r = (\<not> send_closed s) \<and> (if r then closed s' \<and> (\<exists>es. new_log s s' = recv_wake s @ es)
        \<and> (\<forall>(i, w) \<in> set (send_wakers s). sender_let_go i w s s') else s' = s))
    (\<lambda>_ s'. \<not> send_closed s \<and> closed s' \<and> (\<exists>es. new_log s s' = recv_wake s @ es)
        \<and> (\<forall>(i, w) \<in> set (send_wakers s). sender_let_go i w s s')) s"
proof -
  let ?c = "wake_recv (s\<lparr>closed := True\<rparr>)"
  have post: "closed s' \<and> (\<exists>es. new_log s s' = recv_wake s @ es)" if c: "(mstep True)\<^sup>*\<^sup>* ?c s'" for s'
  proof -
    have "log s' = log s @ recv_wake s @ new_log ?c s'"
      using both_sides.steps_log [OF c] by (simp add: wake_recv_log recv_wake_def)
    then show ?thesis using msteps_keep(2) [OF c] by (simp add: new_log_def [of s s'])
  qed
  show ?thesis
  proof (cases "send_closed s")
    case True
    then show ?thesis by (auto simp: mpsc_sender_close_def mpsc_sender_is_closed_def wp_simps)
  next
    case False
    with post show ?thesis
      by (simp add: mpsc_sender_close_def mpsc_sender_is_closed_def wp_simps)
        (rule wp_conseq [OF mpsc_close_lets_all_go [OF assms]], auto)
  qed
qed

theorem mpsc_close_spec_witness:
  "wp UNIV (mpsc_sender_close (quiet_env True)) (\<lambda>r s'. r \<and> closed s' \<and> (\<exists>es. new_log sample_parked s' = Woke 5 # es))
    (\<lambda>_ s'. closed s') sample_parked"
proof -
  have "recv_wake sample_parked = [Woke 5]" "\<not> send_closed sample_parked" by code_simp+
  with mpsc_close_spec [OF admissible_quiet [of UNIV] sample_parked_inv] show ?thesis
    by (auto elim!: wp_conseq)
qed

section \<open>Disconnecting\<close>

text \<open>
  Dropping a sender that is not the last changes only the count. Dropping the last one
  disconnects the channel for good and wakes the parked receiver in the same step, also when its
  waker panics.
\<close>

theorem mpsc_sender_drop_spec:
  assumes "user_code A mpsc_inv (mstep q) env" and "mpsc_inv s" and "senders s \<noteq> 0"
  shows "wp A (mpsc_sender_drop env)
    (\<lambda>_ s'. if senders s = 1 then senders s' = 0 \<and> (\<exists>es. new_log s s' = recv_wake s @ es)
       else s' = s\<lparr>senders := senders s - 1\<rparr>)
    (\<lambda>_ s'. senders s = 1 \<and> senders s' = 0 \<and> (\<exists>es. new_log s s' = recv_wake s @ es)) s"
proof -
  let ?c = "wake_recv (s\<lparr>senders := 0\<rparr>)"
  have "senders s' = 0 \<and> (\<exists>es. new_log s s' = recv_wake s @ es)" if c: "(mstep q)\<^sup>*\<^sup>* ?c s'" for s'
  proof -
    have "log s' = log s @ recv_wake s @ new_log ?c s'"
      using both_sides.steps_log [OF c] by (simp add: wake_recv_log recv_wake_def)
    then show ?thesis using msteps_keep(4) [OF c] by (simp add: new_log_def [of s s'])
  qed
  then show ?thesis
    by (intro wp_conseq [OF shared_ops.sender_drop_steps [OF assms]]) (auto split: if_splits)
qed

theorem mpsc_sender_drop_spec_witness:
  "wp UNIV (mpsc_sender_drop (nested_env 1)) (\<lambda>_ s'. senders s' = 0 \<and> (\<exists>es. new_log sample_parked s' = Woke 5 # es))
    (\<lambda>_ s'. senders s' = 0) sample_parked"
proof -
  have "recv_wake sample_parked = [Woke 5]" "senders sample_parked = 1" by code_simp+
  moreover have "user_code UNIV mpsc_inv (mstep True) (nested_env 1)"
    using nested_admissible [of True 1] unfolding admissible_def by blast
  ultimately show ?thesis
    by (intro wp_conseq [OF mpsc_sender_drop_spec [OF _ sample_parked_inv]]) auto
qed

text \<open>
  C29. Dropping the receiver, whatever its wakers and the items' destructors do: afterwards the
  channel is closed for sends, the queue is empty, the destructor of every queued item was run,
  and every parked sender was woken. When it returns normally no waker of the receiver is
  retained. The loop that drains the queue ends.
\<close>

theorem mpsc_receiver_drop_spec:
  assumes "admissible A mpsc_inv (sstep q) env" and "DoublePanic \<in> A" and "mpsc_inv s"
  shows "wp A (mpsc_receiver_drop env)
    (\<lambda>_ s'. mpsc_inv s' \<and> \<not> receiver_alive s' \<and> queue s' = [] \<and> all_woken (send_wakers s) (new_log s s')
       \<and> (\<forall>x \<in> set (queue s). ItemDropped x \<in> set (new_log s s')) \<and> recv_waker s' = None)
    (\<lambda>_ s'. mpsc_inv s' \<and> \<not> receiver_alive s' \<and> queue s' = [] \<and> all_woken (send_wakers s) (new_log s s')
       \<and> (\<forall>x \<in> set (queue s). ItemDropped x \<in> set (new_log s s'))) s"
  by (rule wp_conseq [OF receiver_drop_steps [OF assms]]) (auto simp: receiver_gone_def)

theorem mpsc_receiver_drop_spec_witness:
  "wp UNIV (mpsc_receiver_drop sending_env) (\<lambda>_ s'. queue s' = [] \<and> ItemDropped 7 \<in> set (new_log sample_sent s'))
    (\<lambda>_ s'. queue s' = []) sample_sent"
proof -
  have "queue sample_sent = [7]" by code_simp
  then show ?thesis
    by (intro wp_conseq [OF mpsc_receiver_drop_spec [OF sending_admissible(1) [of True] _ sample_sent_inv]]) auto
qed

text \<open>
  A channel that is disconnected (closed, or without senders) never retains a waker of the
  receiver, whatever steps led there.
\<close>

theorem mpsc_disconnected_no_waker:
  assumes "mpsc_bounded cap u = Ret s0" and "unat cap \<le> 2 ^ 63" and "(mstep q)\<^sup>*\<^sup>* s0 s" and "mpsc_disconnected s"
  shows "recv_waker s = None"
  using both_sides.inv_steps [OF assms(3) mpsc_bounded_new(1) [OF assms(1,2)]] assms(4)
  by (simp add: mpsc_inv_def)

theorem mpsc_disconnected_no_waker_witness:
  "mpsc_disconnected (wake_recv (sample_parked\<lparr>closed := True\<rparr>)) \<and> recv_waker sample_parked = Some 5
    \<and> recv_waker (wake_recv (sample_parked\<lparr>closed := True\<rparr>)) = None"
proof -
  let ?s = "wake_recv (sample_parked\<lparr>closed := True\<rparr>)"
  have "(mstep True)\<^sup>*\<^sup>* sample ?s"
    using sample_parked_steps [of True] by (rule rtranclp.rtrancl_into_rtrancl) (simp add: mstep_def sstep.close)
  moreover have "mpsc_disconnected ?s" by (simp add: mpsc_disconnected_def)
  moreover have "recv_waker sample_parked = Some 5" by code_simp
  ultimately show ?thesis using mpsc_disconnected_no_waker [OF sample_bounded] by simp
qed

text \<open>
  Registration ids. As long as fewer than \<open>2 ^ 64\<close> senders have parked, parked senders have
  distinct ids, and removing one by its id takes out that registration and no other.
\<close>

theorem mpsc_unpark_exact:
  assumes "mpsc_bounded cap u = Ret s0" and "unat cap \<le> 2 ^ 63" and "(mstep q)\<^sup>*\<^sup>* s0 s"
    and "length (send_parks (log s)) < 2 ^ 64" and "(i, w) \<in> set (send_wakers s)"
  shows "distinct (map fst (send_wakers s)) \<and> fst (registry_remove i (send_wakers s)) = Some w
    \<and> set (snd (registry_remove i (send_wakers s))) = set (send_wakers s) - {(i, w)}"
proof -
  have "mpsc_inv s" using both_sides.inv_steps [OF assms(3) mpsc_bounded_new(1) [OF assms(1,2)]] .
  then have "distinct (map fst (send_wakers s))" using assms(4) by (auto simp: mpsc_inv_def ids_ok_def)
  with registry_remove_present [OF assms(5)] show ?thesis by blast
qed

section \<open>Where panics are not contained\<close>

text \<open>
  The following are runs of the code in which a panicking callback costs more than the comments
  around it promise. In the same places the \<open>mpmc\<close> channel takes precautions that \<open>mpsc\<close> lacks.
\<close>

text \<open>
  C40. A received item is lost when a sender's waker panics. \<open>try_recv\<close> holds the popped
  item in a local while it wakes the senders, so an unwinding waker drops it: the call
  panics, the item is out of the queue, its destructor was run, and no one got it.
\<close>

theorem mpsc_recv_item_lost:
  assumes "\<And>w s. wake_cb env w s = (Panic p, s)" and "\<And>x s. item_drop_cb env x s = (Ret (), s)" and "std env"
    and "mpsc_inv s" and "queue s = x # xs" and "send_wakers s = [(i, w)]"
  shows "\<exists>s'. mpsc_try_recv env s = (Panic p, s') \<and> queue s' = xs
    \<and> log s' = log s @ [Popped x, Woke w, ItemDropped x]"
proof -
  have "wp {} (mpsc_try_recv env) (\<lambda>_ _. False)
    (\<lambda>p' s'. p' = p \<and> queue s' = xs \<and> log s' = log s @ [Popped x, Woke w, ItemDropped x]) s"
    unfolding mpsc_try_recv_def wp_bindM [of _ chan_pop]
  proof (rule mpsc_pop_steps [OF assms(4)], goal_cases)
    case (2 y t)
    then have t: "idle t" "send_wakers t = [(i, w)]" "queue t = xs" "log t = log s @ [Popped y]" "y = x"
      using assms(4-6) by (auto simp: dequeued_def mpsc_inv_def)
    have "wake_cb env w = panic p" and "item_drop_cb env x = ret ()"
      using assms(1,2) by (simp_all add: panic_def ret_def fun_eq_iff)
    with t assms(3) show ?case
      by (simp add: wp_simps wp_wake_senders wake_all_def wake_def drop_item_def)
  qed (use assms(5) in simp)
  then show ?thesis by (cases "mpsc_try_recv env s") (auto simp: wp_def split: outcome.splits)
qed

definition toxic_env :: "((nat, unit) mpsc, nat) env" where
  "toxic_env = (quiet_env True)\<lparr>wake_cb := \<lambda>_. panic (UserPanic 1)\<rparr>"

theorem mpsc_recv_item_lost_witness:
  "\<exists>s'. mpsc_try_recv toxic_env one_blocked = (Panic (UserPanic 1), s') \<and> queue s' = []
    \<and> ItemDropped 7 \<in> set (log s')"
proof -
  have "queue one_blocked = [7]" "send_wakers one_blocked = [(0, 3)]" by code_simp+
  from mpsc_recv_item_lost [OF _ _ _ one_blocked_inv this, of toxic_env "UserPanic 1"]
  show ?thesis by (auto simp: toxic_env_def quiet_env_def panic_def ret_def)
qed

text \<open>
  The waker of a sending task: when it is cloned, the receiving task runs, takes the message and parks;
  when it is dropped, it panics.
\<close>

definition handover_env :: "((nat, unit) mpsc, nat) env" where
  "handover_env = (quiet_env True)\<lparr>
     clone_cb := \<lambda>w. thenM (mpsc_try_recv (quiet_env True)) (thenM (mpsc_poll_recv (quiet_env True) 5) (ret w)),
     drop_cb := \<lambda>_. panic (UserPanic 2)\<rparr>"

definition one_lost :: "(nat, unit) mpsc" where
  "one_lost = fst (snd (mpsc_send_poll handover_env 4 (one_sent, mpsc_send_new 9)))"

text \<open>
  C39. A wakeup of the receiver is lost when a \<open>Send\<close> future's own waker panics while it is dropped.
  \<open>commit\<close> removes that waker between the push and the wake, so the panic skips the wake; the next
  poll replays the recorded \<open>Ok\<close> without waking. The message is queued and the receiver stays parked
  on it, its waker still registered. The run starts from a new channel for one message that was
  filled by \<open>try_send\<close>.
\<close>

theorem mpsc_send_lost_wakeup:
  "\<exists>f'. mpsc_send_poll handover_env 4 (one_sent, mpsc_send_new 9) = (Panic (UserPanic 2), (one_lost, f'))
    \<and> mpsc_send_poll handover_env 4 (one_lost, f') = (Ret (Ready (Inr ())), (one_lost, f'\<lparr>sf_outcome := None\<rparr>))
    \<and> queue one_lost = [9] \<and> recv_waker one_lost = Some 5 \<and> woken (log one_lost) = []"
proof -
  let ?r = "mpsc_send_poll handover_env 4 (one_sent, mpsc_send_new 9)"
  have "fst ?r = Panic (UserPanic 2)" and o: "sf_outcome (snd (snd ?r)) = Some (Inr ())"
    and q: "queue one_lost = [9]" "recv_waker one_lost = Some 5" "woken (log one_lost) = []"
    by code_simp+
  then have "?r = (Panic (UserPanic 2), (one_lost, snd (snd ?r)))" by (simp add: one_lost_def prod_eq_iff)
  moreover from o have "mpsc_send_poll handover_env 4 (one_lost, snd (snd ?r))
      = (Ret (Ready (Inr ())), (one_lost, (snd (snd ?r))\<lparr>sf_outcome := None\<rparr>))"
    by (simp add: mpsc_send_poll_def send_poll_replay)
  ultimately show ?thesis using q by blast
qed

text \<open>
  \<open>Send::is_terminated\<close> answers true while a committed outcome still waits to be replayed: a
  consumer that trusts it drops the future and never learns the outcome.
\<close>

theorem mpsc_send_terminated_with_outcome:
  "\<exists>s' f'. mpsc_send_poll panicking_env 4 (sample_parked, mpsc_send_new 9) = (Panic (UserPanic 5), (s', f'))
    \<and> mpsc_send_is_terminated (s', f') = (Ret True, (s', f')) \<and> sf_outcome f' = Some (Inr ())"
proof -
  obtain s' f' where run: "snd (mpsc_send_poll panicking_env 4 (sample_parked, mpsc_send_new 9)) = (s', f')"
    by (metis surj_pair)
  have "fst (mpsc_send_poll panicking_env 4 (sample_parked, mpsc_send_new 9)) = Panic (UserPanic 5)"
    and "sf_done (snd (snd (mpsc_send_poll panicking_env 4 (sample_parked, mpsc_send_new 9))))"
    and "sf_outcome (snd (snd (mpsc_send_poll panicking_env 4 (sample_parked, mpsc_send_new 9)))) = Some (Inr ())"
    by code_simp+
  with run show ?thesis by (auto simp: prod_eq_iff mpsc_send_is_terminated_def comp_eval)
qed

text \<open>
  The channel after that, with another sender parked on it: a parked sender and a registered receiver
  at the same time.
\<close>

definition one_stuck :: "(nat, unit) mpsc" where
  "one_stuck = fst (snd (mpsc_send_poll (quiet_env True) 6 (one_lost, mpsc_send_new 10)))"

text \<open>
  Dropping the receiver retains its waker when a parked sender's waker panics: the unwinding
  skips the call that clears it, and only the drain is guarded.
\<close>

theorem mpsc_receiver_drop_retains_waker:
  "fst (mpsc_receiver_drop toxic_env one_stuck) = Panic (UserPanic 1)
    \<and> recv_waker (snd (mpsc_receiver_drop toxic_env one_stuck)) = Some 5
    \<and> \<not> receiver_alive (snd (mpsc_receiver_drop toxic_env one_stuck))"
proof -
  have "fst (mpsc_receiver_drop toxic_env one_stuck) = Panic (UserPanic 1)" by code_simp
  moreover have "recv_waker (snd (mpsc_receiver_drop toxic_env one_stuck)) = Some 5" by code_simp
  moreover have "\<not> receiver_alive (snd (mpsc_receiver_drop toxic_env one_stuck))" by code_simp
  ultimately show ?thesis by blast
qed

end
