(* ===== verification/Mpmc.thy ===== *)
theory Mpmc
  imports Send_Future
begin

text \<open>
  The multi-producer, multi-consumer channel: the core of \<open>src/mpmc/chan.rs\<close>, the handles of
  \<open>src/mpmc/channel.rs\<close>, the constructors of \<open>src/mpmc/mod.rs\<close> and the futures of
  \<open>src/mpmc/send.rs\<close> and \<open>src/mpmc/recv.rs\<close>.

  The state extends the common core by the redelivery slot, the count of receivers and the list of
  parked receivers. The id under which a stream or a \<open>Recv\<close> future is registered belongs to that
  object and is threaded beside the channel.
\<close>

section \<open>The channel core\<close>

record ('t, 'u) mpmc = "('t, 'u) core" +
  redelivery :: "'t option"
  receivers :: usize
  recv_wakers :: "(u64 \<times> waker) list"
  next_recv_id :: u64

type_synonym ('t, 'u) cmenv = "(('t, 'u) mpmc, 't) env"

definition mpmc_new :: "'t flavor \<Rightarrow> 'u \<Rightarrow> ('t, 'u) mpmc" where
  "mpmc_new f u = \<lparr>borrows = free_cells, log = [], flavor = f, senders = 1, closed = False,
     send_wakers = [], next_send_id = 0, usr = u, redelivery = None, receivers = 1,
     recv_wakers = [], next_recv_id = 0\<rparr>"

definition mpmc_len :: "(('t, 'u) mpmc, usize) comp" where
  "mpmc_len = bindM (borrow FlavorCell (gets (\<lambda>s. flavor_len (flavor s)))) (\<lambda>n.
     bindM (borrow RedeliveryCell (gets (\<lambda>s. redelivery s \<noteq> None))) (\<lambda>p.
     ret (n + (if p then 1 else 0))))"

definition mpmc_is_empty :: "(('t, 'u) mpmc, bool) comp" where
  "mpmc_is_empty = bindM (borrow RedeliveryCell (gets (\<lambda>s. redelivery s = None))) (\<lambda>none.
     if none then borrow FlavorCell (gets (\<lambda>s. flavor_is_empty (flavor s))) else ret False)"

definition mpmc_receiver_alive :: "('t, 'u) mpmc \<Rightarrow> bool" where
  "mpmc_receiver_alive s \<longleftrightarrow> 0 < receivers s"

definition incr_receivers :: "(('t, 'u) mpmc, unit) comp" where
  "incr_receivers = modify (\<lambda>s. s\<lparr>receivers := receivers s + 1\<rparr>)"

definition decr_receivers :: "(('t, 'u) mpmc, usize) comp" where
  "decr_receivers = bindM (gets receivers) (\<lambda>n. thenM (modify (\<lambda>s. s\<lparr>receivers := n - 1\<rparr>)) (ret n))"

definition mpmc_terminal :: "('t, 'u) mpmc \<Rightarrow> bool" where
  "mpmc_terminal s \<longleftrightarrow> senders s = 0 \<or> closed s \<or> receivers s = 0"

text \<open>The id is consumed even when the channel is terminal and nothing is stored.\<close>

definition add_recv_waker :: "('t, 'u) cmenv \<Rightarrow> waker \<Rightarrow> (('t, 'u) mpmc, u64) comp" where
  "add_recv_waker env w = bindM (gets next_recv_id) (\<lambda>i.
     thenM (modify (\<lambda>s. s\<lparr>next_recv_id := i + 1\<rparr>))
    (bindM (gets mpmc_terminal) (\<lambda>t.
     if t then ret i
     else bindM (clone_waker env w) (\<lambda>v. bindM (gets mpmc_terminal) (\<lambda>t'.
       if t' then thenM (drop_waker env v) (ret i)
       else thenM (borrow_mut RecvWakerCell (modify (\<lambda>s. s\<lparr>recv_wakers := recv_wakers s @ [(i, v)]\<rparr>)))
                  (ret i))))))"

definition remove_recv_waker :: "('t, 'u) cmenv \<Rightarrow> u64 \<Rightarrow> (('t, 'u) mpmc, unit) comp" where
  "remove_recv_waker env i = bindM
     (borrow_mut RecvWakerCell (\<lambda>s. case registry_remove i (recv_wakers s) of
        (r, ws) \<Rightarrow> (Ret r, s\<lparr>recv_wakers := ws, log := log s @ (if r = None then [] else [RecvWithdrawn i])\<rparr>)))
     (drop_waker_option env)"

definition wake_receivers :: "('t, 'u) cmenv \<Rightarrow> (('t, 'u) mpmc, unit) comp" where
  "wake_receivers env = bindM (borrow RecvWakerCell (gets (\<lambda>s. recv_wakers s = []))) (\<lambda>none.
     if none then ret ()
     else bindM (borrow_mut RecvWakerCell (\<lambda>s. (Ret (recv_wakers s),
            s\<lparr>recv_wakers := [], log := log s @ map (\<lambda>(i, w). WakeDue w) (recv_wakers s)\<rparr>)))
       (wake_all env))"

definition mpmc_close :: "('t, 'u) cmenv \<Rightarrow> (('t, 'u) mpmc, unit) comp" where
  "mpmc_close env = bindM (gets closed) (\<lambda>was. thenM (modify (\<lambda>s. s\<lparr>closed := True\<rparr>))
     (if was then ret () else wake_both env (wake_receivers env)))"

text \<open>The redelivery slot. The assignment drops what the slot held before, under the borrow.\<close>

definition take_redelivery :: "(('t, 'u) mpmc, 't option) comp" where
  "take_redelivery = borrow_mut RedeliveryCell (\<lambda>s. (Ret (redelivery s), s\<lparr>redelivery := None\<rparr>))"

definition set_redelivery :: "('t, 'u) cmenv \<Rightarrow> 't \<Rightarrow> (('t, 'u) mpmc, unit) comp" where
  "set_redelivery env x = borrow_mut RedeliveryCell (bindM (gets redelivery) (\<lambda>old.
     thenM (case old of None \<Rightarrow> ret () | Some y \<Rightarrow> drop_item env y)
           (modify (\<lambda>s. s\<lparr>redelivery := Some x\<rparr>))))"

text \<open>An item leaves the channel for a consumer.\<close>

definition hand_out :: "'t \<Rightarrow> (('t, 'u) mpmc, 't option) comp" where
  "hand_out x = thenM (emit (Popped x)) (ret (Some x))"

text \<open>
  \<open>try_take\<close> repeats when a re-entrant consumer took the parked item while the senders were woken.
  How often that happens is up to the wakers, so the loop has fuel.
\<close>

fun try_take_loop :: "('t, 'u) cmenv \<Rightarrow> nat \<Rightarrow> (('t, 'u) mpmc, 't option) comp" where
  "try_take_loop env 0 = abort Diverges"
| "try_take_loop env (Suc n) = bindM take_redelivery (\<lambda>r. case r of
     Some x \<Rightarrow> hand_out x
   | None \<Rightarrow> bindM (flavor_mut flavor_pop) (\<lambda>i. case i of
       None \<Rightarrow> ret None
     | Some x \<Rightarrow> bindM has_parked_senders (\<lambda>parked.
         if \<not> parked then hand_out x
         else thenM (set_redelivery env x)
             (thenM (wake_senders env)
             (bindM take_redelivery (\<lambda>r'. case r' of
                Some y \<Rightarrow> hand_out y
              | None \<Rightarrow> try_take_loop env n))))))"

definition try_take :: "('t, 'u) cmenv \<Rightarrow> (('t, 'u) mpmc, 't option) comp" where
  "try_take env = try_take_loop env (fuel env)"

text \<open>
  \<open>drain\<close>, with its guard \<open>ContinueOnUnwind\<close>. It is called when the last receiver is gone, so nothing
  is pushed meanwhile; one more unit of fuel than there are items is enough.
\<close>

fun mpmc_drain_loop :: "('t, 'u) cmenv \<Rightarrow> nat \<Rightarrow> (('t, 'u) mpmc, unit) comp" where
  "mpmc_drain_loop env 0 = fault OutOfFuel"
| "mpmc_drain_loop env (Suc n) = bindM chan_pop (\<lambda>r. case r of
     None \<Rightarrow> ret ()
   | Some x \<Rightarrow> thenM (drop_item env x) (mpmc_drain_loop env n))"

definition drop_parked :: "('t, 'u) cmenv \<Rightarrow> 't option \<Rightarrow> (('t, 'u) mpmc, unit) comp" where
  "drop_parked env parked = (case parked of
     None \<Rightarrow> ret ()
   | Some x \<Rightarrow> thenM (emit (Popped x)) (drop_item env x))"

fun mpmc_drain_fuel :: "('t, 'u) cmenv \<Rightarrow> nat \<Rightarrow> (('t, 'u) mpmc, unit) comp" where
  "mpmc_drain_fuel env 0 = fault OutOfFuel"
| "mpmc_drain_fuel env (Suc n) = on_unwind (mpmc_drain_fuel env n)
     (bindM take_redelivery (\<lambda>parked.
      thenM (drop_parked env parked) (mpmc_drain_loop env (Suc n))))"

definition mpmc_drain :: "('t, 'u) cmenv \<Rightarrow> (('t, 'u) mpmc, unit) comp" where
  "mpmc_drain env = (\<lambda>s. mpmc_drain_fuel env (Suc (Suc (unat (flavor_len (flavor s))))) s)"

section \<open>Constructors\<close>

definition mpmc_bounded :: "usize \<Rightarrow> 'u \<Rightarrow> ('t, 'u) mpmc outcome" where
  "mpmc_bounded cap u = (if \<not> 0 < cap
     then Panic (PanicMsg ''lochan::mpmc::bounded requires a non-zero capacity'')
     else Ret (mpmc_new (flavor_bounded cap) u))"

definition mpmc_unbounded :: "allocator \<Rightarrow> 'u \<Rightarrow> ('t, 'u) mpmc outcome" where
  "mpmc_unbounded f u = (case flavor_unbounded f of
     Ret q \<Rightarrow> Ret (mpmc_new q u)
   | Panic p \<Rightarrow> Panic p
   | Abort a \<Rightarrow> Abort a
   | Fault e \<Rightarrow> Fault e)"

section \<open>Sender\<close>

definition mpmc_send_closed :: "('t, 'u) mpmc \<Rightarrow> bool" where
  "mpmc_send_closed s \<longleftrightarrow> \<not> mpmc_receiver_alive s \<or> closed s"

definition mpmc_sender_capacity :: "(('t, 'u) mpmc, usize option) comp" where
  "mpmc_sender_capacity = chan_cap"

definition mpmc_sender_len :: "(('t, 'u) mpmc, usize) comp" where
  "mpmc_sender_len = mpmc_len"

definition mpmc_sender_is_empty :: "(('t, 'u) mpmc, bool) comp" where
  "mpmc_sender_is_empty = mpmc_is_empty"

definition mpmc_sender_is_full :: "(('t, 'u) mpmc, bool) comp" where
  "mpmc_sender_is_full = chan_is_full"

definition mpmc_sender_is_closed :: "(('t, 'u) mpmc, bool) comp" where
  "mpmc_sender_is_closed = gets mpmc_send_closed"

definition mpmc_try_send :: "('t, 'u) cmenv \<Rightarrow> 't \<Rightarrow> (('t, 'u) mpmc, 't try_send_error + unit) comp" where
  "mpmc_try_send env x = bindM (gets mpmc_send_closed) (\<lambda>c.
     if c then ret (Inl (Closed x))
     else bindM (chan_try_push x) (\<lambda>r. case r of
       Inr _ \<Rightarrow> thenM (wake_receivers env) (ret (Inr ()))
     | Inl y \<Rightarrow> ret (Inl (Full y))))"

definition mpmc_sender_close :: "('t, 'u) cmenv \<Rightarrow> (('t, 'u) mpmc, bool) comp" where
  "mpmc_sender_close env = bindM mpmc_sender_is_closed (\<lambda>c.
     if c then ret False else thenM (mpmc_close env) (ret True))"

definition mpmc_sender_clone :: "(('t, 'u) mpmc, unit) comp" where
  "mpmc_sender_clone = incr_senders"

definition mpmc_sender_drop :: "('t, 'u) cmenv \<Rightarrow> (('t, 'u) mpmc, unit) comp" where
  "mpmc_sender_drop env = bindM decr_senders (\<lambda>n.
     if n = 1 then wake_receivers env else ret ())"

section \<open>Receiver\<close>

definition mpmc_disconnected :: "('t, 'u) mpmc \<Rightarrow> bool" where
  "mpmc_disconnected s \<longleftrightarrow> senders s = 0 \<or> closed s"

definition mpmc_try_recv :: "('t, 'u) cmenv \<Rightarrow> (('t, 'u) mpmc, try_recv_error + 't) comp" where
  "mpmc_try_recv env = bindM (try_take env) (\<lambda>r. case r of
     Some x \<Rightarrow> ret (Inr x)
   | None \<Rightarrow> bindM (gets mpmc_disconnected) (\<lambda>d. ret (Inl (if d then Disconnected else Empty))))"

definition mpmc_try_iter_next :: "('t, 'u) cmenv \<Rightarrow> (('t, 'u) mpmc, 't option) comp" where
  "mpmc_try_iter_next env = bindM (mpmc_try_recv env) (\<lambda>r. case r of
     Inr x \<Rightarrow> ret (Some x)
   | Inl _ \<Rightarrow> ret None)"

text \<open>
  \<open>poll_recv\<close> takes the caller's cell for its registration id, which only the caller can reach: the
  second component of the state.
\<close>

type_synonym ('t, 'u) slot_state = "('t, 'u) mpmc \<times> u64 option"

definition take_slot :: "('s \<times> u64 option, u64 option) comp" where
  "take_slot = on_snd (\<lambda>i. (Ret i, None))"

text \<open>
  The recheck after the registration: the waker's \<open>clone\<close> may have pushed an item or dropped the last
  sender. \<open>poll_attempt\<close> is the poll once a stale registration is removed.
\<close>

definition poll_recheck :: "('t, 'u) cmenv \<Rightarrow> (('t, 'u) slot_state, 't option poll) comp" where
  "poll_recheck env = bindM (on_fst (try_take env)) (\<lambda>r. case r of
     Some x \<Rightarrow> ret (Ready (Some x))
   | None \<Rightarrow> bindM (on_fst (gets mpmc_disconnected)) (\<lambda>d.
       if d then bindM take_slot (\<lambda>j.
              thenM (case j of Some k \<Rightarrow> on_fst (remove_recv_waker env k) | None \<Rightarrow> ret ())
                    (ret (Ready None)))
       else ret Pending))"

definition poll_attempt :: "('t, 'u) cmenv \<Rightarrow> waker \<Rightarrow> (('t, 'u) slot_state, 't option poll) comp" where
  "poll_attempt env cx = bindM (on_fst (try_take env)) (\<lambda>r. case r of
     Some x \<Rightarrow> ret (Ready (Some x))
   | None \<Rightarrow> bindM (on_fst (gets mpmc_disconnected)) (\<lambda>d.
       if d then ret (Ready None)
       else bindM (on_fst (add_recv_waker env cx)) (\<lambda>i.
            thenM (on_snd (modify (\<lambda>_. Some i))) (poll_recheck env))))"

definition mpmc_poll_recv :: "('t, 'u) cmenv \<Rightarrow> waker \<Rightarrow> (('t, 'u) slot_state, 't option poll) comp" where
  "mpmc_poll_recv env cx = bindM take_slot (\<lambda>old.
     thenM (case old of Some j \<Rightarrow> on_fst (remove_recv_waker env j) | None \<Rightarrow> ret ())
           (poll_attempt env cx))"

definition mpmc_poll_next :: "('t, 'u) cmenv \<Rightarrow> waker \<Rightarrow> (('t, 'u) slot_state, 't option poll) comp" where
  "mpmc_poll_next env cx = mpmc_poll_recv env cx"

definition mpmc_stream_is_terminated :: "(('t, 'u) slot_state, bool) comp" where
  "mpmc_stream_is_terminated = bindM (on_snd (gets (\<lambda>i. i = None))) (\<lambda>none.
     if none then bindM (on_fst (gets mpmc_disconnected)) (\<lambda>d.
       if d then on_fst mpmc_is_empty else ret False)
     else ret False)"

definition mpmc_receiver_len :: "(('t, 'u) mpmc, usize) comp" where
  "mpmc_receiver_len = mpmc_len"

definition mpmc_receiver_is_empty :: "(('t, 'u) mpmc, bool) comp" where
  "mpmc_receiver_is_empty = mpmc_is_empty"

definition mpmc_receiver_is_closed :: "(('t, 'u) mpmc, bool) comp" where
  "mpmc_receiver_is_closed = gets mpmc_disconnected"

definition mpmc_receiver_close :: "('t, 'u) cmenv \<Rightarrow> (('t, 'u) mpmc, bool) comp" where
  "mpmc_receiver_close env = bindM mpmc_receiver_is_closed (\<lambda>c.
     if c then ret False else thenM (mpmc_close env) (ret True))"

text \<open>A clone starts without a registration of its own.\<close>

definition mpmc_receiver_clone :: "(('t, 'u) mpmc, u64 option) comp" where
  "mpmc_receiver_clone = thenM incr_receivers (ret None)"

text \<open>
  Dropping a receiver. The last one arms the guard \<open>Cleanup\<close> with its registration id before it
  wakes the senders; the guard in turn arms \<open>RemoveStream\<close> before it drains.
\<close>

definition remove_stream :: "('t, 'u) cmenv \<Rightarrow> u64 option \<Rightarrow> (('t, 'u) mpmc, unit) comp" where
  "remove_stream env i = (case i of Some j \<Rightarrow> remove_recv_waker env j | None \<Rightarrow> ret ())"

definition cleanup_drop :: "('t, 'u) cmenv \<Rightarrow> u64 option \<Rightarrow> (('t, 'u) mpmc, unit) comp" where
  "cleanup_drop env i = with_guard (remove_stream env i) (mpmc_drain env)"

definition mpmc_receiver_drop :: "('t, 'u) cmenv \<Rightarrow> (('t, 'u) slot_state, unit) comp" where
  "mpmc_receiver_drop env = bindM (on_fst decr_receivers) (\<lambda>n.
     if n \<noteq> 1 then bindM take_slot (\<lambda>i. on_fst (remove_stream env i))
     else bindM take_slot (\<lambda>i. on_fst (with_guard (cleanup_drop env i) (wake_senders env))))"

section \<open>The recv future\<close>

record recv_fut =
  rf_done :: bool
  rf_waker_id :: "u64 option"

definition mpmc_recv_new :: recv_fut where
  "mpmc_recv_new = \<lparr>rf_done = False, rf_waker_id = None\<rparr>"

text \<open>Running a computation on the channel and the future's id slot.\<close>

definition on_slot :: "(('t, 'u) slot_state, 'a) comp \<Rightarrow> (('t, 'u) mpmc \<times> recv_fut, 'a) comp" where
  "on_slot m = (\<lambda>(s, f). case m (s, rf_waker_id f) of (r, (s', i)) \<Rightarrow> (r, (s', f\<lparr>rf_waker_id := i\<rparr>)))"

definition mpmc_recv_poll :: "('t, 'u) cmenv \<Rightarrow> waker \<Rightarrow> (('t, 'u) mpmc \<times> recv_fut, 't option poll) comp" where
  "mpmc_recv_poll env cx = bindM (on_snd (gets rf_done)) (\<lambda>dn.
     if dn then bindM (on_slot take_slot) (\<lambda>i.
            thenM (case i of
                Some j \<Rightarrow> thenM (on_fst (remove_recv_waker env j)) (on_fst (wake_by_ref env cx))
              | None \<Rightarrow> ret ())
            (ret Pending))
     else bindM (on_slot (mpmc_poll_recv env cx)) (\<lambda>polled.
          thenM (if is_ready polled then on_snd (modify (\<lambda>f. f\<lparr>rf_done := True\<rparr>)) else ret ())
                (ret polled)))"

definition mpmc_recv_is_terminated :: "(('t, 'u) mpmc \<times> recv_fut, bool) comp" where
  "mpmc_recv_is_terminated = on_snd (gets (\<lambda>f. rf_done f \<and> rf_waker_id f = None))"

definition mpmc_recv_drop :: "('t, 'u) cmenv \<Rightarrow> (('t, 'u) mpmc \<times> recv_fut, unit) comp" where
  "mpmc_recv_drop env = bindM (on_slot take_slot) (\<lambda>i. on_fst (remove_stream env i))"

section \<open>The send future\<close>

type_synonym ('t, 'u) mpmc_send_state = "('t, 'u) mpmc \<times> 't send_fut"

definition mpmc_send_new :: "'t \<Rightarrow> 't send_fut" where
  "mpmc_send_new x = send_new x"

text \<open>
  \<open>commit\<close> wakes the receivers with the guard \<open>RemoveSend\<close> armed, which deregisters the future's own
  waker when it is dropped, normally or by unwinding.
\<close>

definition mpmc_send_commit :: "('t, 'u) cmenv \<Rightarrow> 't send_error + unit
    \<Rightarrow> (('t, 'u) mpmc_send_state, ('t send_error + unit) poll) comp" where
  "mpmc_send_commit env result =
     thenM (on_snd (modify (\<lambda>f. f\<lparr>sf_done := True, sf_outcome := Some result\<rparr>)))
    (bindM take_waker_id (\<lambda>i.
     thenM (on_fst (with_guard
         (case i of Some j \<Rightarrow> remove_send_waker env j | None \<Rightarrow> ret ())
         (if result = Inr () then wake_receivers env else ret ())))
    (bindM take_outcome (\<lambda>out.
     bindM (expect ''committed outcome'' out) (\<lambda>v. ret (Ready v))))))"

definition mpmc_send_poll :: "('t, 'u) cmenv \<Rightarrow> waker \<Rightarrow> (('t, 'u) mpmc_send_state, ('t send_error + unit) poll) comp" where
  "mpmc_send_poll env cx = send_poll mpmc_send_closed (mpmc_send_commit env) env cx"

definition mpmc_send_is_terminated :: "(('t, 'u) mpmc_send_state, bool) comp" where
  "mpmc_send_is_terminated = on_snd (gets (\<lambda>f. sf_done f \<and> sf_outcome f = None))"

definition mpmc_send_drop :: "('t, 'u) cmenv \<Rightarrow> (('t, 'u) mpmc_send_state, unit) comp" where
  "mpmc_send_drop env = send_drop env"

end
