(* ===== verification/Mpmc_Steps.thy ===== *)
theory Mpmc_Steps
  imports Mpmc Promises
begin

text \<open>
  The atomic steps of an \<open>mpmc\<close> channel and its invariant. Senders and receivers act through shared
  references, so user code that runs inside any operation may in general do all of the steps. The
  sender's side, \<open>csstep\<close>, is separated because it is all that is left once the last receiver is
  gone. The flag \<open>k\<close> says whether senders may park.
\<close>

section \<open>Steps\<close>

text \<open>Taking the wakers of all parked receivers, as \<open>wake_receivers\<close> does before it wakes them.\<close>

definition take_recv :: "('t, 'u) mpmc \<Rightarrow> ('t, 'u) mpmc" where
  "take_recv s = s\<lparr>recv_wakers := [], log := log s @ map (\<lambda>(i, w). WakeDue w) (recv_wakers s)\<rparr>"

text \<open>A receiver withdraws its registration.\<close>

definition withdraw_recv :: "u64 \<Rightarrow> ('t, 'u) mpmc \<Rightarrow> ('t, 'u) mpmc" where
  "withdraw_recv i s = s\<lparr>recv_wakers := snd (registry_remove i (recv_wakers s)),
     log := log s @ (if fst (registry_remove i (recv_wakers s)) = None then [] else [RecvWithdrawn i])\<rparr>"

inductive csstep :: "bool \<Rightarrow> ('t, 'u) mpmc \<Rightarrow> ('t, 'u) mpmc \<Rightarrow> bool" for k where
  push: "\<not> mpmc_send_closed s \<Longrightarrow> \<not> at_capacity s \<Longrightarrow> enqueued x s t \<Longrightarrow> csstep k s (take_recv t)"
| take_recv: "csstep k s (take_recv s)"
| close: "csstep k s (take_recv (s\<lparr>closed := True\<rparr>))"
| clone_sender: "senders s \<noteq> 0 \<Longrightarrow> senders s + 1 \<noteq> 0 \<Longrightarrow> csstep k s (s\<lparr>senders := senders s + 1\<rparr>)"
| drop_sender: "1 < senders s \<Longrightarrow> csstep k s (s\<lparr>senders := senders s - 1\<rparr>)"
| drop_last: "senders s = 1 \<Longrightarrow> csstep k s (take_recv (s\<lparr>senders := 0\<rparr>))"
| park: "k \<Longrightarrow> csstep k s (s\<lparr>next_send_id := next_send_id s + 1, send_wakers := send_wakers s @ [(next_send_id s, w)],
    log := log s @ [SendParked (next_send_id s)]\<rparr>)"
| unpark: "csstep k s (withdraw_send i s)"
| take: "csstep k s (s\<lparr>send_wakers := []\<rparr>)"
| event: "neutral e \<Longrightarrow> csstep k s (s\<lparr>log := log s @ [e]\<rparr>)"
| user: "csstep k s (s\<lparr>usr := u\<rparr>)"

inductive crstep :: "('t, 'u) mpmc \<Rightarrow> ('t, 'u) mpmc \<Rightarrow> bool" where
  pop: "redelivery s = None \<Longrightarrow> queue s = x # flavor_list f \<Longrightarrow> flavor_inv f \<Longrightarrow> flavor_capacity f = capacity s
    \<Longrightarrow> crstep s (s\<lparr>flavor := f, log := log s @ [Popped x]\<rparr>)"
| pop_park: "redelivery s = None \<Longrightarrow> queue s = x # flavor_list f \<Longrightarrow> flavor_inv f \<Longrightarrow> flavor_capacity f = capacity s
    \<Longrightarrow> crstep s (s\<lparr>flavor := f, redelivery := Some x\<rparr>)"
| redeliver: "redelivery s = Some x \<Longrightarrow> crstep s (s\<lparr>redelivery := None, log := log s @ [Popped x]\<rparr>)"
| ticket: "crstep s (s\<lparr>next_recv_id := next_recv_id s + 1\<rparr>)"
| store: "\<not> mpmc_terminal s \<Longrightarrow> crstep s (s\<lparr>recv_wakers := recv_wakers s @ [(i, w)]\<rparr>)"
| unpark_recv: "crstep s (withdraw_recv i s)"
| clone_receiver: "receivers s \<noteq> 0 \<Longrightarrow> crstep s (s\<lparr>receivers := receivers s + 1\<rparr>)"
| drop_receiver: "receivers s \<noteq> 0 \<Longrightarrow> crstep s (s\<lparr>receivers := receivers s - 1\<rparr>)"

definition cstep :: "bool \<Rightarrow> ('t, 'u) mpmc \<Rightarrow> ('t, 'u) mpmc \<Rightarrow> bool" where
  "cstep k s s' \<longleftrightarrow> csstep k s s' \<or> crstep s s'"

text \<open>
  While an operation borrows a receiver, user code can do everything but drop the last receiver.
\<close>

definition bstep :: "bool \<Rightarrow> ('t, 'u) mpmc \<Rightarrow> ('t, 'u) mpmc \<Rightarrow> bool" where
  "bstep k s s' \<longleftrightarrow> cstep k s s' \<and> (receivers s \<noteq> 0 \<longrightarrow> receivers s' \<noteq> 0)"

inductive_cases csstepE: "csstep k s s'"
inductive_cases crstepE: "crstep s s'"

section \<open>The invariant\<close>

text \<open>
  No cell is borrowed; the queue is well formed; what was pushed is what was handed out, followed
  by the item in the redelivery slot, followed by what is queued; a disconnected channel has no
  parked receivers; and parked senders have distinct ids.
\<close>

abbreviation in_transit :: "('t, 'u) mpmc \<Rightarrow> 't list" where
  "in_transit s \<equiv> (case redelivery s of None \<Rightarrow> [] | Some x \<Rightarrow> [x])"

definition mpmc_inv :: "('t, 'u) mpmc \<Rightarrow> bool" where
  "mpmc_inv s \<longleftrightarrow> idle s \<and> flavor_inv (flavor s)
     \<and> pushed (log s) = popped (log s) @ in_transit s @ queue s
     \<and> (mpmc_disconnected s \<longrightarrow> recv_wakers s = [])
     \<and> ids_ok (send_parks (log s)) (map fst (send_wakers s)) (next_send_id s)"

lemma due_events [simp]:
  "pushed (map (\<lambda>(i, w). WakeDue w) ws) = []" "popped (map (\<lambda>(i, w). WakeDue w) ws) = []"
  "send_parks (map (\<lambda>(i, w). WakeDue w) ws) = []"
  by (induction ws) auto

lemma take_recv_simps [simp]:
  "borrows (take_recv s) = borrows s" "flavor (take_recv s) = flavor s" "senders (take_recv s) = senders s"
  "closed (take_recv s) = closed s" "receivers (take_recv s) = receivers s" "redelivery (take_recv s) = redelivery s"
  "send_wakers (take_recv s) = send_wakers s" "next_send_id (take_recv s) = next_send_id s"
  "next_recv_id (take_recv s) = next_recv_id s" "recv_wakers (take_recv s) = []" "usr (take_recv s) = usr s"
  "log (take_recv s) = log s @ map (\<lambda>(i, w). WakeDue w) (recv_wakers s)"
  by (simp_all add: take_recv_def)

lemma withdraw_recv_simps [simp]:
  "borrows (withdraw_recv i s) = borrows s" "flavor (withdraw_recv i s) = flavor s"
  "senders (withdraw_recv i s) = senders s" "closed (withdraw_recv i s) = closed s"
  "receivers (withdraw_recv i s) = receivers s" "redelivery (withdraw_recv i s) = redelivery s"
  "send_wakers (withdraw_recv i s) = send_wakers s" "next_send_id (withdraw_recv i s) = next_send_id s"
  "next_recv_id (withdraw_recv i s) = next_recv_id s" "usr (withdraw_recv i s) = usr s"
  "recv_wakers (withdraw_recv i s) = snd (registry_remove i (recv_wakers s))"
  "pushed (log (withdraw_recv i s)) = pushed (log s)" "popped (log (withdraw_recv i s)) = popped (log s)"
  "send_parks (log (withdraw_recv i s)) = send_parks (log s)" "idle (withdraw_recv i s) = idle s"
  by (simp_all add: withdraw_recv_def idle_def)

lemma withdraw_recv_log: "\<exists>es. log (withdraw_recv i s) = log s @ es"
  by (simp add: withdraw_recv_def)

lemma withdraw_recv_keeps:
  assumes "(j, w) \<in> set (recv_wakers s)"
  shows "(j, w) \<in> set (recv_wakers (withdraw_recv i s)) \<or> RecvWithdrawn j \<in> set (new_log s (withdraw_recv i s))"
  using registry_remove_keeps [OF assms, of i] by (auto simp: withdraw_recv_def new_log_def)

lemma withdraw_send_mpmc [simp]:
  "receivers (withdraw_send i s) = receivers s" "redelivery (withdraw_send i s) = redelivery s"
  "recv_wakers (withdraw_send i s) = recv_wakers s" "next_recv_id (withdraw_send i s) = next_recv_id s"
  by (simp_all add: withdraw_send_def)

lemma idle_mpmc_update [simp]:
  "idle (take_recv s) = idle s" "idle (s\<lparr>redelivery := r\<rparr>) = idle s" "idle (s\<lparr>receivers := n\<rparr>) = idle s"
  "idle (s\<lparr>recv_wakers := ws\<rparr>) = idle s" "idle (s\<lparr>next_recv_id := i\<rparr>) = idle s"
  by (simp_all add: idle_def)

lemma csstep_inv:
  assumes "csstep k s s'" and "mpmc_inv s"
  shows "mpmc_inv s'"
  using assms(1)
proof cases
  case (push x t)
  then show ?thesis using assms(2) by (auto simp: mpmc_inv_def enqueued_def mpmc_disconnected_def)
next
  case (park w)
  then show ?thesis
    using assms(2) ids_ok_park [of "send_parks (log s)" "map fst (send_wakers s)" "next_send_id s"]
    by (simp add: mpmc_inv_def mpmc_disconnected_def)
qed (use assms(2) in \<open>auto simp: mpmc_inv_def mpmc_disconnected_def intro: ids_ok_remove ids_ok_take\<close>)

lemma crstep_inv:
  assumes "crstep s s'" and "mpmc_inv s"
  shows "mpmc_inv s'"
  using assms(1)
proof cases
  case (store i w)
  then show ?thesis
    using assms(2) by (auto simp: mpmc_inv_def mpmc_terminal_def mpmc_disconnected_def)
next
  case (unpark_recv i)
  have "recv_wakers s = [] \<Longrightarrow> snd (registry_remove i (recv_wakers s)) = []" by (simp add: registry_remove_def)
  with unpark_recv show ?thesis using assms(2) by (auto simp: mpmc_inv_def mpmc_disconnected_def)
qed (use assms(2) in \<open>auto simp: mpmc_inv_def mpmc_disconnected_def\<close>)

lemma csstep_log: "csstep k s s' \<Longrightarrow> \<exists>es. log s' = log s @ es"
  by (erule csstepE) (auto simp: enqueued_def withdraw_send_log)

lemma crstep_log: "crstep s s' \<Longrightarrow> \<exists>es. log s' = log s @ es"
  by (erule crstepE) (auto simp: withdraw_recv_log)

lemma mpmc_idle: "mpmc_inv s \<Longrightarrow> idle s"
  and mpmc_queue: "mpmc_inv s \<Longrightarrow> flavor_inv (flavor s)"
  by (simp_all add: mpmc_inv_def)

lemma csstep_receivers: "csstep k s s' \<Longrightarrow> receivers s' = receivers s"
  by (erule csstepE) (auto simp: enqueued_def)

lemma cstep_csstep: "csstep k s s' \<Longrightarrow> cstep k s s'"
  and cstep_crstep: "crstep s s' \<Longrightarrow> cstep k s s'"
  by (simp_all add: cstep_def)

lemma bstep_csstep: "csstep k s s' \<Longrightarrow> bstep k s s'"
  by (simp add: bstep_def cstep_def csstep_receivers)

lemmas start_step = converse_rtranclp_into_rtranclp [of "csstep k" for k] converse_rtranclp_into_rtranclp [of "cstep k" for k]
  converse_rtranclp_into_rtranclp [of "bstep k" for k]

lemma mpmc_take_inv: "mpmc_inv s \<Longrightarrow> mpmc_inv (s\<lparr>send_wakers := []\<rparr>)"
  using csstep_inv [OF csstep.take] .

interpretation csenders: unparking mpmc_inv "csstep k" for k
  by unfold_locales
    (auto simp: mpmc_idle mpmc_take_inv intro: csstep_inv csstep.event csstep.unpark csstep.take start_step
      dest: csstep_log)

interpretation ceveryone: unparking mpmc_inv "cstep k" for k
  by unfold_locales
    (auto simp: cstep_def mpmc_idle mpmc_take_inv intro: csstep_inv crstep_inv csstep.event csstep.unpark
      start_step(2) [OF cstep_csstep [OF csstep.take]] dest: csstep_log crstep_log)

interpretation cbusy: unparking mpmc_inv "bstep k" for k
  by unfold_locales
    (auto simp: bstep_def cstep_def mpmc_idle mpmc_take_inv intro: csstep_inv crstep_inv csstep.event csstep.unpark
      start_step(3) [OF bstep_csstep [OF csstep.take]] dest: csstep_log crstep_log)

lemma cstep_of_bstep: "(bstep k)\<^sup>*\<^sup>* s s' \<Longrightarrow> (cstep k)\<^sup>*\<^sup>* s s'"
  by (erule rtranclp_mono [THEN predicate2D, rotated]) (auto simp: bstep_def)

lemma bsteps_alive: "(bstep k)\<^sup>*\<^sup>* s s' \<Longrightarrow> receivers s \<noteq> 0 \<Longrightarrow> receivers s' \<noteq> 0"
  by (induction rule: rtranclp_induct) (auto simp: bstep_def)

lemma cstep_of_csstep: "(csstep k)\<^sup>*\<^sup>* s s' \<Longrightarrow> (cstep k)\<^sup>*\<^sup>* s s'"
  by (erule rtranclp_mono [THEN predicate2D, rotated]) (auto simp: cstep_def)

section \<open>What steps keep\<close>

lemma mpmc_send_closed_iff: "mpmc_send_closed s \<longleftrightarrow> receivers s = 0 \<or> closed s"
  by (simp add: mpmc_send_closed_def mpmc_receiver_alive_def word_gt_0)

lemma csstep_keeps:
  assumes "csstep k s s'"
  shows "receivers s' = receivers s" and "popped (log s') = popped (log s)" and "redelivery s' = redelivery s"
    and "capacity s' = capacity s" and "closed s \<longrightarrow> closed s'" and "senders s = 0 \<longrightarrow> senders s' = 0"
    and "\<exists>ys. queue s' = queue s @ ys" and "mpmc_send_closed s \<longrightarrow> queue s' = queue s \<and> pushed (log s') = pushed (log s)"
    and "\<forall>(i, w) \<in> set (recv_wakers s). (i, w) \<in> set (recv_wakers s') \<or> WakeDue w \<in> set (new_log s s')"
    and "\<not> k \<longrightarrow> send_wakers s = [] \<longrightarrow> send_wakers s' = []"
proof -
  show "receivers s' = receivers s" using assms by cases (auto simp: enqueued_def)
  show "popped (log s') = popped (log s)" using assms by cases (auto simp: enqueued_def)
  show "redelivery s' = redelivery s" using assms by cases (auto simp: enqueued_def)
  show "capacity s' = capacity s" using assms by cases (auto simp: enqueued_def)
  show "closed s \<longrightarrow> closed s'" using assms by cases (auto simp: enqueued_def)
  show "senders s = 0 \<longrightarrow> senders s' = 0" using assms by cases (auto simp: enqueued_def)
  show "\<exists>ys. queue s' = queue s @ ys" using assms by cases (auto simp: enqueued_def)
  show "mpmc_send_closed s \<longrightarrow> queue s' = queue s \<and> pushed (log s') = pushed (log s)"
    using assms by cases (auto simp: enqueued_def)
  show "\<forall>(i, w) \<in> set (recv_wakers s). (i, w) \<in> set (recv_wakers s') \<or> WakeDue w \<in> set (new_log s s')"
    using assms by cases (auto simp: enqueued_def new_log_def image_iff intro: rev_bexI)
  show "\<not> k \<longrightarrow> send_wakers s = [] \<longrightarrow> send_wakers s' = []"
    using assms by cases (auto simp: enqueued_def registry_remove_def)
qed

lemma cssteps_keep:
  assumes "(csstep k)\<^sup>*\<^sup>* s s'"
  shows "receivers s' = receivers s" and "popped (log s') = popped (log s)" and "redelivery s' = redelivery s"
    and "capacity s' = capacity s" and "closed s \<longrightarrow> closed s'" and "senders s = 0 \<longrightarrow> senders s' = 0"
    and "\<exists>ys. queue s' = queue s @ ys" and "mpmc_send_closed s \<longrightarrow> queue s' = queue s \<and> pushed (log s') = pushed (log s)"
    and "\<forall>(i, w) \<in> set (recv_wakers s). (i, w) \<in> set (recv_wakers s') \<or> WakeDue w \<in> set (new_log s s')"
    and "\<not> k \<longrightarrow> send_wakers s = [] \<longrightarrow> send_wakers s' = []"
  using assms
proof (induction rule: rtranclp_induct)
  case (step t u)
  note e = csstep_keeps [OF step.hyps(2)]
  have m: "set (new_log s t) \<subseteq> set (new_log s u)" "set (new_log t u) \<subseteq> set (new_log s u)"
    using csenders.new_log_mono [OF step.hyps(1), of u] step.hyps(2) by blast+
  { case 1 show ?case using step.IH(1) e(1) by simp }
  { case 2 show ?case using step.IH(2) e(2) by simp }
  { case 3 show ?case using step.IH(3) e(3) by simp }
  { case 4 show ?case using step.IH(4) e(4) by simp }
  { case 5 show ?case using step.IH(5) e(5) by simp }
  { case 6 show ?case using step.IH(6) e(6) by simp }
  { case 7 show ?case using step.IH(7) e(7) by auto }
  { case 8 show ?case using step.IH(1,5,8) e(8) by (auto simp: mpmc_send_closed_iff) }
  { case 9 show ?case using step.IH(9) e(9) m by blast }
  { case 10 show ?case using step.IH(10) e(10) by simp }
qed auto

text \<open>Steps of either side: the capacity is fixed, and what is closed stays closed.\<close>

lemma csteps_keep:
  assumes "(cstep k)\<^sup>*\<^sup>* s s'"
  shows "capacity s' = capacity s" and "closed s \<longrightarrow> closed s'" and "senders s = 0 \<longrightarrow> senders s' = 0"
    and "receivers s = 0 \<longrightarrow> receivers s' = 0" and "mpmc_send_closed s \<longrightarrow> pushed (log s') = pushed (log s)"
    and "\<not> k \<longrightarrow> send_wakers s = [] \<longrightarrow> send_wakers s' = []"
  using assms
proof (induction rule: rtranclp_induct)
  case (step t u)
  from step.hyps(2) consider "csstep k t u" | "crstep t u" by (auto simp: cstep_def)
  then have e: "capacity u = capacity t \<and> (closed t \<longrightarrow> closed u) \<and> (senders t = 0 \<longrightarrow> senders u = 0)
      \<and> (receivers t = 0 \<longrightarrow> receivers u = 0) \<and> (mpmc_send_closed t \<longrightarrow> pushed (log u) = pushed (log t))
      \<and> (\<not> k \<longrightarrow> send_wakers t = [] \<longrightarrow> send_wakers u = [])"
  proof cases
    case 1
    then show ?thesis using csstep_keeps [of k t u] by simp
  next
    case 2
    then show ?thesis by cases auto
  qed
  { case 1 show ?case using step.IH(1) e by simp }
  { case 2 show ?case using step.IH(2) e by simp }
  { case 3 show ?case using step.IH(3) e by simp }
  { case 4 show ?case using step.IH(4) e by simp }
  { case 5 show ?case using step.IH(2,4,5) e by (auto simp: mpmc_send_closed_iff) }
  { case 6 show ?case using step.IH(6) e by simp }
qed auto

end
