(* ===== verification/Mpmc_Sender.thy ===== *)
theory Mpmc_Sender
  imports Mpmc_Steps
begin

text \<open>
  The operations of an \<open>mpmc\<close> sender against the steps, proved once for every step relation that
  contains the sender's steps (\<open>mpmc_sender\<close>).
\<close>

section \<open>Computations on an idle channel\<close>

lemma wp_wake_receivers:
  assumes "idle s"
  shows "wp A (wake_receivers env) Q E s = (if recv_wakers s = [] then Q () s
    else wp A (wake_all env (recv_wakers s)) Q E (take_recv s))"
proof -
  have "wp A (borrow_mut RecvWakerCell (\<lambda>s. (Ret (recv_wakers s),
      s\<lparr>recv_wakers := [], log := log s @ map (\<lambda>(i, w). WakeDue w) (recv_wakers s)\<rparr>))) Q' E s = Q' (recv_wakers s) (take_recv s)" for Q'
    by (subst wp_borrow_mut) (use assms in \<open>auto intro!: flag_freeI simp: wp_def take_recv_def\<close>)
  with assms show ?thesis by (simp add: wake_receivers_def wp_simps wp_borrow_gets)
qed

section \<open>The sender's contract\<close>

text \<open>
  Steps that take nobody from the lists of parked tasks, and do not close the channel. The wakers of the
  receivers may be taken, and the channel be closed, where the wakers are then woken.
\<close>

definition steady :: "('t, 'u) mpmc \<Rightarrow> ('t, 'u) mpmc \<Rightarrow> bool" where
  [simp]: "steady s s' \<longleftrightarrow> gentle s s' \<and> set (recv_wakers s) \<subseteq> set (recv_wakers s')"

locale mpmc_sender = unparking mpmc_inv step
  for step :: "('t, 'u) mpmc \<Rightarrow> ('t, 'u) mpmc \<Rightarrow> bool" +
  fixes k :: bool
  assumes csstep_step: "csstep k s s' \<Longrightarrow> steady s s' \<Longrightarrow> step s s'"
    and recv_woken: "csstep k s (take_recv t) \<Longrightarrow> gentle s t \<Longrightarrow> recv_wakers t = recv_wakers s
      \<Longrightarrow> step\<^sup>*\<^sup>* (take_recv t) s' \<Longrightarrow> all_woken (recv_wakers s) (new_log s s') \<Longrightarrow> step\<^sup>*\<^sup>* s s'"
    and close_woken: "senders_woken step (take_recv (s\<lparr>closed := True\<rparr>)) s'
      \<Longrightarrow> all_woken (recv_wakers s) (new_log s s') \<Longrightarrow> step\<^sup>*\<^sup>* s s'"
begin

lemma steps_start: "csstep k s t \<Longrightarrow> steady s t \<Longrightarrow> step\<^sup>*\<^sup>* t s' \<Longrightarrow> step\<^sup>*\<^sup>* s s'"
  by (blast intro: converse_rtranclp_into_rtranclp csstep_step)

text \<open>Waking the receivers takes all their wakers at once, and wakes every one of them.\<close>

lemma wake_receivers_steps:
  assumes u: "user_code A mpmc_inv step env" and i: "isolates A env" and s: "idle s" "mpmc_inv (take_recv s)"
  shows "wp A (wake_receivers env)
    (\<lambda>_ s'. step\<^sup>*\<^sup>* (take_recv s) s' \<and> all_woken (recv_wakers s) (new_log s s'))
    (\<lambda>_ s'. step\<^sup>*\<^sup>* (take_recv s) s' \<and> all_woken (recv_wakers s) (new_log s s')) s"
proof (cases "recv_wakers s = []")
  case True
  then have eq: "take_recv s = s" by (simp add: take_recv_def)
  show ?thesis using True by (simp add: wp_wake_receivers [OF s(1)] eq all_woken_def)
next
  case False
  have "set (new_log (take_recv s) s') \<subseteq> set (new_log s s')" for s'
    by (simp add: new_log_def set_drop_subset_set_drop)
  then have later: "all_woken (recv_wakers s) (new_log s s')" if "all_woken (recv_wakers s) (new_log (take_recv s) s')" for s'
    using that unfolding all_woken_def by blast
  show ?thesis
    using False by (simp add: wp_wake_receivers [OF s(1)])
      (rule wp_conseq [OF wake_all_wakes [OF u i s(2)]], auto intro: later)
qed

lemma guar_wake_receivers:
  assumes "user_code A mpmc_inv step env" and "isolates A env"
  shows "guar A mpmc_inv step (wake_receivers env)"
proof (rule guarI)
  fix s :: "('t, 'u) mpmc" assume s: "mpmc_inv s"
  have "mpmc_inv (take_recv s)" using csstep_inv [OF csstep.take_recv s] .
  then show "wp A (wake_receivers env) (\<lambda>_. step\<^sup>*\<^sup>* s) (\<lambda>_. step\<^sup>*\<^sup>* s) s"
    using s by (intro wp_conseq [OF wake_receivers_steps [OF assms]])
      (auto simp: mpmc_idle intro: recv_woken [OF csstep.take_recv])
qed

lemma mpmc_try_push_steps:
  assumes "OutOfMemory \<in> A" and s: "mpmc_inv s"
    and "at_capacity s \<Longrightarrow> Q (Inl x) s"
    and "\<And>t. \<not> at_capacity s \<Longrightarrow> enqueued x s t \<Longrightarrow> Q (Inr ()) t"
  shows "wp A (chan_try_push x) Q E s"
  by (rule wp_chan_try_push [OF mpmc_idle [OF s] mpmc_queue [OF s] assms(1)])
    (use assms(3,4) in \<open>auto simp: enqueued_def\<close>)

lemma try_send_steps:
  assumes env: "admissible A mpmc_inv step env" and s: "mpmc_inv s"
  shows "wp A (mpmc_try_send env x)
    (\<lambda>r s'. if mpmc_send_closed s then r = Inl (Closed x) \<and> s' = s
       else if at_capacity s then r = Inl (Full x) \<and> s' = s
       else r = Inr () \<and> (\<exists>t. enqueued x s t \<and> step\<^sup>*\<^sup>* (take_recv t) s' \<and> all_woken (recv_wakers s) (new_log t s')))
    (\<lambda>_ s'. \<not> mpmc_send_closed s \<and> \<not> at_capacity s
       \<and> (\<exists>t. enqueued x s t \<and> step\<^sup>*\<^sup>* (take_recv t) s' \<and> all_woken (recv_wakers s) (new_log t s'))) s"
proof (cases "mpmc_send_closed s")
  case True
  then show ?thesis by (simp add: mpmc_try_send_def wp_simps)
next
  case False
  from env have u: "user_code A mpmc_inv step env" and i: "isolates A env" and o: "OutOfMemory \<in> A"
    by (auto simp: admissible_def)
  show ?thesis
    unfolding mpmc_try_send_def wp_simps
    using False
  proof (simp, intro mpmc_try_push_steps [OF o s], goal_cases)
    case (2 t)
    have "mpmc_inv (take_recv t)" by (rule csstep_inv [OF csstep.push s]) (use 2 False in auto)
    moreover have "recv_wakers t = recv_wakers s" "idle t" using 2 s by (auto simp: enqueued_def mpmc_idle)
    ultimately have woke: "wp A (wake_receivers env)
        (\<lambda>_ s'. step\<^sup>*\<^sup>* (take_recv t) s' \<and> all_woken (recv_wakers s) (new_log t s'))
        (\<lambda>_ s'. step\<^sup>*\<^sup>* (take_recv t) s' \<and> all_woken (recv_wakers s) (new_log t s')) t"
      using wake_receivers_steps [OF u i, of t] by simp
    show ?case by (simp add: wp_simps) (rule wp_conseq [OF woke], use 2 in auto)
  qed (auto simp: wp_simps)
qed

lemma push_woken:
  assumes "\<not> mpmc_send_closed s" and "\<not> at_capacity s" and "enqueued x s t" and "step\<^sup>*\<^sup>* (take_recv t) s'"
    and "all_woken (recv_wakers s) (new_log t s')"
  shows "step\<^sup>*\<^sup>* s s'"
proof (rule recv_woken [OF csstep.push [OF assms(1-3)] _ _ assms(4)])
  show "gentle s t" "recv_wakers t = recv_wakers s" using assms(3) by (auto simp: enqueued_def)
  have "set (new_log t s') \<subseteq> set (new_log s s')"
    using enqueued_log [OF assms(3)] by (simp add: new_log_def set_drop_subset_set_drop)
  with assms(5) show "all_woken (recv_wakers s) (new_log s s')" unfolding all_woken_def by blast
qed

lemma guar_try_send:
  assumes "admissible A mpmc_inv step env"
  shows "guar A mpmc_inv step (mpmc_try_send env x)"
proof (rule guarI)
  fix s :: "('t, 'u) mpmc" assume s: "mpmc_inv s"
  from s show "wp A (mpmc_try_send env x) (\<lambda>_. step\<^sup>*\<^sup>* s) (\<lambda>_. step\<^sup>*\<^sup>* s) s"
    by (intro wp_conseq [OF try_send_steps [OF assms s]]) (auto intro: push_woken split: if_splits)
qed

lemma all_woken_later:
  assumes "step\<^sup>*\<^sup>* (take_recv t) v" and "all_woken ws (new_log t v)" and "step\<^sup>*\<^sup>* v s'"
  shows "all_woken ws (new_log t s')"
proof -
  have "\<exists>es. log v = log t @ es" using steps_log [OF assms(1)] by simp
  moreover have "\<exists>es. log s' = log v @ es" using steps_log [OF assms(3)] by blast
  ultimately have "set (new_log t v) \<subseteq> set (new_log t s')" by (auto simp: new_log_def)
  with assms(2) show ?thesis unfolding all_woken_def by blast
qed

text \<open>Closing wakes every parked receiver and every parked sender.\<close>

lemma close_steps:
  assumes env: "admissible A mpmc_inv step env" and s: "mpmc_inv s"
  shows "wp A (mpmc_close env)
    (\<lambda>_ s'. if closed s then s' = s
       else senders_woken step (take_recv (s\<lparr>closed := True\<rparr>)) s' \<and> all_woken (recv_wakers s) (new_log s s'))
    (\<lambda>_ s'. \<not> closed s \<and> senders_woken step (take_recv (s\<lparr>closed := True\<rparr>)) s' \<and> all_woken (recv_wakers s) (new_log s s')) s"
proof (cases "closed s")
  case True
  then show ?thesis by (simp add: mpmc_close_def wp_simps)
next
  case False
  let ?s = "s\<lparr>closed := True\<rparr>"
  let ?c = "take_recv ?s"
  let ?P = "\<lambda>s'. all_woken (recv_wakers s) (new_log s s')"
  from env have u: "user_code A mpmc_inv step env" and i: "isolates A env"
    by (auto simp: admissible_def)
  have c: "mpmc_inv ?c" using csstep_inv [OF csstep.close s] .
  have l: "new_log ?s s' = new_log s s'" for s' by (simp add: new_log_def)
  have "wp A (wake_receivers env) (\<lambda>_ t. step\<^sup>*\<^sup>* ?c t \<and> ?P t) (\<lambda>_ t. step\<^sup>*\<^sup>* ?c t \<and> ?P t) ?s"
    using wake_receivers_steps [OF u i _ c] s by (simp add: mpmc_idle l)
  moreover have "?P s'" if "step\<^sup>*\<^sup>* ?c t" "?P t" "step\<^sup>*\<^sup>* t s'" for t s'
    using all_woken_later [OF that(1) _ that(3)] that(2) by (simp add: l)
  ultimately have "wp A (wake_both env (wake_receivers env)) (\<lambda>_ s'. senders_woken step ?c s' \<and> ?P s')
      (\<lambda>_ s'. senders_woken step ?c s' \<and> ?P s') ?s"
    by (rule wake_both_steps [OF u i c])
  with False show ?thesis by (simp add: mpmc_close_def wp_simps)
qed

lemma guar_close:
  assumes "admissible A mpmc_inv step env"
  shows "guar A mpmc_inv step (mpmc_close env)"
proof (rule guarI)
  fix s :: "('t, 'u) mpmc" assume s: "mpmc_inv s"
  from s show "wp A (mpmc_close env) (\<lambda>_. step\<^sup>*\<^sup>* s) (\<lambda>_. step\<^sup>*\<^sup>* s) s"
    by (intro wp_conseq [OF close_steps [OF assms s]]) (auto intro: close_woken split: if_splits)
qed

lemma guar_handle_close:
  assumes "admissible A mpmc_inv step env"
  shows "guar A mpmc_inv step (mpmc_sender_close env)" and "guar A mpmc_inv step (mpmc_receiver_close env)"
  unfolding mpmc_sender_close_def mpmc_sender_is_closed_def mpmc_receiver_close_def mpmc_receiver_is_closed_def
  using guar_close [OF assms] by (auto intro!: guar_intros)

lemma sender_drop_steps:
  assumes env: "admissible A mpmc_inv step env" and s: "mpmc_inv s" and n: "senders s \<noteq> 0"
  shows "wp A (mpmc_sender_drop env)
    (\<lambda>_ s'. if senders s = 1 then step\<^sup>*\<^sup>* (take_recv (s\<lparr>senders := 0\<rparr>)) s' \<and> all_woken (recv_wakers s) (new_log s s')
       else s' = s\<lparr>senders := senders s - 1\<rparr>)
    (\<lambda>_ s'. senders s = 1 \<and> step\<^sup>*\<^sup>* (take_recv (s\<lparr>senders := 0\<rparr>)) s' \<and> all_woken (recv_wakers s) (new_log s s')) s"
proof (cases "senders s = 1")
  case True
  from env have u: "user_code A mpmc_inv step env" and i: "isolates A env" by (auto simp: admissible_def)
  have "mpmc_inv (take_recv (s\<lparr>senders := 0\<rparr>))" using csstep_inv [OF csstep.drop_last [OF True] s] .
  with True s show ?thesis
    using wake_receivers_steps [OF u i, of "s\<lparr>senders := 0\<rparr>"]
    by (simp add: mpmc_sender_drop_def decr_senders_def wp_simps mpmc_idle new_log_def)
next
  case False
  then show ?thesis by (simp add: mpmc_sender_drop_def decr_senders_def wp_simps)
qed

lemma sender_drop_call:
  assumes "admissible A mpmc_inv step env" and "mpmc_inv s" and "senders s \<noteq> 0"
  shows "wp A (mpmc_sender_drop env) (\<lambda>_. step\<^sup>*\<^sup>* s) (\<lambda>_. step\<^sup>*\<^sup>* s) s"
proof -
  have last: "step\<^sup>*\<^sup>* s s'" if "senders s = 1" "step\<^sup>*\<^sup>* (take_recv (s\<lparr>senders := 0\<rparr>)) s'"
    "all_woken (recv_wakers s) (new_log s s')" for s'
    by (rule recv_woken [OF csstep.drop_last [OF that(1)] _ _ that(2,3)]) simp_all
  have other: "step\<^sup>*\<^sup>* s (s\<lparr>senders := senders s - 1\<rparr>)" if "senders s \<noteq> 1"
    by (rule steps_start [OF csstep.drop_sender [OF word_gt_one [OF assms(3) that]]]) simp_all
  show ?thesis
    by (rule wp_conseq [OF sender_drop_steps [OF assms]]) (auto intro: last other split: if_splits)
qed

lemma sender_clone_call:
  assumes "senders s \<noteq> 0" and "senders s + 1 \<noteq> 0"
  shows "wp A mpmc_sender_clone (\<lambda>_ s'. step\<^sup>*\<^sup>* s s' \<and> s' = s\<lparr>senders := senders s + 1\<rparr>) (\<lambda>_ _. False) s"
  using assms csstep_step [OF csstep.clone_sender [OF assms]]
  by (simp add: mpmc_sender_clone_def incr_senders_def wp_simps)

text \<open>
  Committing the outcome of a send. The receivers are woken first, and the future's own waker is
  removed on every path.
\<close>

lemma remove_steps:
  assumes u: "user_code A mpmc_inv step env" and t: "mpmc_inv t" and v: "step\<^sup>*\<^sup>* t v"
  shows "wp A (case i of Some j \<Rightarrow> remove_send_waker env j | None \<Rightarrow> ret ()) (\<lambda>_. step\<^sup>*\<^sup>* t) (\<lambda>_. step\<^sup>*\<^sup>* t) v"
  using v guar_from [OF guar_remove_send_waker [OF u] v t] by (cases i) (simp_all add: wp_simps)

lemma commit_ok_steps:
  assumes u: "user_code A mpmc_inv step env" and i: "isolates A env" and A: "DoublePanic \<in> A"
    and t: "idle t" "mpmc_inv (take_recv t)"
  shows "wp A (mpmc_send_commit env (Inr ()))
    (\<lambda>p (s', f'). p = Ready (Inr ()) \<and> f' = f\<lparr>sf_done := True, sf_waker_id := None, sf_outcome := None\<rparr>
       \<and> step\<^sup>*\<^sup>* (take_recv t) s' \<and> all_woken (recv_wakers t) (new_log t s'))
    (\<lambda>_ (s', f'). f' = f\<lparr>sf_done := True, sf_waker_id := None, sf_outcome := Some (Inr ())\<rparr>
       \<and> step\<^sup>*\<^sup>* (take_recv t) s' \<and> all_woken (recv_wakers t) (new_log t s')) (t, f)"
proof -
  let ?r = "case sf_waker_id f of Some j \<Rightarrow> remove_send_waker env j | None \<Rightarrow> ret ()"
  have remove: "wp A ?r (\<lambda>_ s'. step\<^sup>*\<^sup>* (take_recv t) s' \<and> step\<^sup>*\<^sup>* v s') (\<lambda>_ s'. step\<^sup>*\<^sup>* (take_recv t) s' \<and> step\<^sup>*\<^sup>* v s') v"
    if v: "step\<^sup>*\<^sup>* (take_recv t) v" for v
    using wp_conj [OF remove_steps [OF u t(2) v] remove_steps [OF u inv_steps [OF v t(2)] rtranclp.rtrancl_refl]] .
  show ?thesis
    by (simp add: mpmc_send_commit_def wp_simps del: wp_case_option, rule wp_conseq [OF wake_receivers_steps [OF u i t]])
      (use A in \<open>auto intro!: wp_conseq [OF remove] intro: all_woken_later\<close>)
qed

lemma commit_err_steps:
  assumes u: "user_code A mpmc_inv step env" and t: "mpmc_inv t"
  shows "wp A (mpmc_send_commit env (Inl e))
    (\<lambda>p (s', f'). p = Ready (Inl e) \<and> f' = f\<lparr>sf_done := True, sf_waker_id := None, sf_outcome := None\<rparr> \<and> step\<^sup>*\<^sup>* t s')
    (\<lambda>_ (s', f'). f' = f\<lparr>sf_done := True, sf_waker_id := None, sf_outcome := Some (Inl e)\<rparr> \<and> step\<^sup>*\<^sup>* t s') (t, f)"
  by (simp add: mpmc_send_commit_def wp_simps del: wp_case_option, rule wp_conseq [OF remove_steps [OF u t rtranclp.rtrancl_refl]])
    auto

end

text \<open>The instances: the sender's steps alone, all steps, and all steps while a receiver is borrowed.\<close>

interpretation csender_ops: mpmc_sender "csstep k" k for k
  by unfold_locales (auto intro: csstep.close converse_rtranclp_into_rtranclp dest: csenders.senders_woken_steps)

interpretation cshared_ops: mpmc_sender "cstep k" k for k
  by unfold_locales
    (auto intro: cstep_csstep csstep.close start_step dest!: ceveryone.senders_woken_steps)

interpretation cbusy_ops: mpmc_sender "bstep k" k for k
  by unfold_locales
    (auto intro: bstep_csstep csstep.close converse_rtranclp_into_rtranclp dest!: cbusy.senders_woken_steps)

interpretation cparking: parking mpmc_inv "cstep True"
  by unfold_locales (auto simp: cstep_def intro: csstep.park)

text \<open>
  What follows a push, whether the call returns or unwinds: every receiver that was parked is woken.
\<close>

definition push_done :: "(('t, 'u) mpmc \<Rightarrow> ('t, 'u) mpmc \<Rightarrow> bool) \<Rightarrow> ('t, 'u) mpmc \<Rightarrow> ('t, 'u) mpmc \<Rightarrow> bool" where
  "push_done step t s' \<longleftrightarrow> step\<^sup>*\<^sup>* (take_recv t) s' \<and> all_woken (recv_wakers t) (new_log t s')"

text \<open>
  The send future, for every step relation that lets senders park. The receivers' wakers are taken
  in one go with the push.
\<close>

locale mpmc_sending = mpmc_sender step True
  for step :: "('t, 'u) mpmc \<Rightarrow> ('t, 'u) mpmc \<Rightarrow> bool"
begin

lemma push_settled:
  assumes "mpmc_inv s" and "\<not> mpmc_send_closed s" and "\<not> at_capacity s" and "enqueued x s t"
  shows "mpmc_inv (take_recv t)" and "idle t"
proof -
  show "mpmc_inv (take_recv t)" using csstep_inv [OF csstep.push [OF assms(2-4)] assms(1)] .
  show "idle t" using enqueued_idle [OF assms(4)] mpmc_idle [OF assms(1)] by simp
qed

end

sublocale mpmc_sending \<subseteq> parking mpmc_inv step
  by unfold_locales (auto intro: csstep_step csstep.park)

sublocale mpmc_sending \<subseteq> send_future mpmc_inv step mpmc_send_closed mpmc_send_commit "push_done step"
  "\<lambda>t s'. all_woken (recv_wakers t) (new_log t s')" "\<lambda>A env. admissible A mpmc_inv step env \<and> DoublePanic \<in> A"
proof (unfold_locales, goal_cases)
  case (1 s)
  then show ?case by (rule mpmc_queue)
next
  case (3 A env s x t f)
  then have u: "user_code A mpmc_inv step env" "isolates A env" "DoublePanic \<in> A" by (auto simp: admissible_def)
  note t = push_settled [OF 3(2-5)]
  from commit_ok_steps [OF u t(2,1)] show ?case by (rule wp_conseq) (use inv_steps t in \<open>auto simp: push_done_def\<close>)
next
  case (4 A env t e f)
  then show ?case by (intro commit_err_steps) (auto simp: admissible_def)
qed simp

text \<open>So every poll of a \<open>Send\<close> future, and its destructor, is made of steps.\<close>

context mpmc_sending
begin

lemma send_poll_call:
  assumes env: "admissible A mpmc_inv step env" and "DoublePanic \<in> A" and s: "mpmc_inv s" and f: "send_ok f"
  shows "wp A (mpmc_send_poll env w) (\<lambda>_ (s', f'). step\<^sup>*\<^sup>* s s') (\<lambda>_ (s', f'). step\<^sup>*\<^sup>* s s') (s, f)"
proof -
  have settled: "step\<^sup>*\<^sup>* s s'"
    if "mpmc_inv s" "\<not> mpmc_send_closed s" "\<not> at_capacity s" "enqueued x s t" "push_done step t s'" for s s' t x
  proof -
    have "recv_wakers t = recv_wakers s" using that(4) by (auto simp: enqueued_def)
    with push_woken [OF that(2-4)] that(5) show ?thesis by (simp add: push_done_def)
  qed
  show ?thesis
    unfolding mpmc_send_poll_def
    by (rule wp_conseq [OF send_poll_any [OF _ s f, where Q = "step\<^sup>*\<^sup>* s" and E = "step\<^sup>*\<^sup>* s"]])
      (use assms(1,2) send_result_steps [OF settled s] in auto)
qed

lemma send_drop_call:
  assumes "admissible A mpmc_inv step env" and "mpmc_inv s"
  shows "wp A (mpmc_send_drop env) (\<lambda>_ (s', f'). step\<^sup>*\<^sup>* s s') (\<lambda>_ (s', f'). step\<^sup>*\<^sup>* s s') (s, f)"
proof -
  have "user_code A mpmc_inv step env" using assms(1) by (simp add: admissible_def)
  from send_drop_steps [OF this assms(2), of f] show ?thesis
    unfolding mpmc_send_drop_def by (rule wp_conseq) auto
qed

end

interpretation mpmc_send: mpmc_sending "cstep True"
  by unfold_locales

end
