(* ===== verification/Mpmc_Receiver.thy ===== *)
theory Mpmc_Receiver
  imports Mpmc_Sender
begin

text \<open>
  The operations of an \<open>mpmc\<close> receiver. Receivers act through shared references, so a waker that runs
  inside one may itself receive. Two kinds of facts are proved: that every operation is a sequence
  of channel steps when user code does any steps (\<open>bstep\<close>: any but dropping the last receiver), and what exactly an operation does when
  the wakers it runs do not receive themselves (\<open>csstep\<close>).
\<close>

section \<open>Computations on an idle channel\<close>

lemma wp_take_redelivery:
  assumes "idle s"
  shows "wp A take_redelivery Q E s = Q (redelivery s) (s\<lparr>redelivery := None\<rparr>)"
  unfolding take_redelivery_def
  by (subst wp_borrow_mut) (use assms in \<open>auto intro!: flag_freeI simp: wp_def\<close>)

lemma no_redelivery: "redelivery s = None \<Longrightarrow> s\<lparr>redelivery := None\<rparr> = s"
  by simp

lemma wp_set_redelivery:
  assumes s: "idle s" and none: "redelivery s = None"
  shows "wp A (set_redelivery env x) Q E s = Q () (s\<lparr>redelivery := Some x\<rparr>)"
proof -
  have "(borrows s)(RedeliveryCell := 0) = borrows s" using s by auto
  then have "set_redelivery env x s = (Ret (), s\<lparr>redelivery := Some x\<rparr>)"
    using s none by (simp add: set_redelivery_def borrow_mut_def comp_eval)
  then show ?thesis by (rule wp_Ret_eq)
qed

lemma wp_remove_recv_waker:
  assumes "idle s"
  shows "wp A (remove_recv_waker env i) Q E s =
    wp A (drop_waker_option env (fst (registry_remove i (recv_wakers s)))) Q E
      (withdraw_recv i s)"
proof -
  let ?m = "\<lambda>s :: ('a, 'b) mpmc. case registry_remove i (recv_wakers s) of
    (r, ws) \<Rightarrow> (Ret r :: waker option outcome, s\<lparr>recv_wakers := ws, log := log s @ (if r = None then [] else [RecvWithdrawn i])\<rparr>)"
  have "?m s = (Ret (fst (registry_remove i (recv_wakers s))), withdraw_recv i s)"
    by (simp add: withdraw_recv_def split: prod.splits)
  moreover have "flag_free ?m" by (rule flag_freeI) (simp split: prod.splits)
  ultimately show ?thesis
    unfolding remove_recv_waker_def wp_simps using assms by (simp add: wp_borrow_mut wp_Ret_eq)
qed

lemma wp_push_recv_waker:
  assumes "idle s"
  shows "wp A (borrow_mut RecvWakerCell (modify (\<lambda>s. s\<lparr>recv_wakers := recv_wakers s @ [e]\<rparr>))) Q E s
    = Q () (s\<lparr>recv_wakers := recv_wakers s @ [e]\<rparr>)"
  by (subst wp_borrow_mut) (use assms in \<open>auto intro!: flag_freeI simp: modify_def wp_def\<close>)

lemma wp_on_slot [wp_simps]:
  "wp A (on_slot m) Q E = (\<lambda>(s, f). wp A m (\<lambda>x (s', i). Q x (s', f\<lparr>rf_waker_id := i\<rparr>))
     (\<lambda>p (s', i). E p (s', f\<lparr>rf_waker_id := i\<rparr>)) (s, rf_waker_id f))"
  by (auto simp: wp_def on_slot_def fun_eq_iff split: prod.splits outcome.splits)

section \<open>Handing out an item\<close>

text \<open>Everything in the channel, in the order in which it will be received.\<close>

abbreviation contents :: "('t, 'u) mpmc \<Rightarrow> 't list" where
  "contents s \<equiv> in_transit s @ queue s"

lemma in_transit_Nil [simp]: "in_transit s = [] \<longleftrightarrow> redelivery s = None"
  by (simp split: option.split)

definition unqueued :: "'t \<Rightarrow> ('t, 'u) mpmc \<Rightarrow> 't flavor \<Rightarrow> bool" where
  "unqueued x s f \<longleftrightarrow> redelivery s = None \<and> queue s = x # flavor_list f \<and> flavor_inv f \<and> flavor_capacity f = capacity s"

text \<open>One item leaves the channel: the one in the redelivery slot, or else the head of the queue.\<close>

definition hands_out :: "'t \<Rightarrow> ('t, 'u) mpmc \<Rightarrow> ('t, 'u) mpmc \<Rightarrow> bool" where
  "hands_out x s s' \<longleftrightarrow> redelivery s = Some x \<and> s' = s\<lparr>redelivery := None, log := log s @ [Popped x]\<rparr>
     \<or> (\<exists>f. unqueued x s f \<and> s' = s\<lparr>flavor := f, log := log s @ [Popped x]\<rparr>)"

lemma hands_out_step: "hands_out x s s' \<Longrightarrow> bstep k s s'"
  by (auto simp: hands_out_def unqueued_def bstep_def cstep_def intro: crstep.pop crstep.redeliver)

lemma hands_out_contents: "hands_out x s s' \<Longrightarrow> contents s = x # contents s'"
  by (auto simp: hands_out_def unqueued_def)

lemma pop_steps:
  assumes "mpmc_inv s" and "redelivery s = None" and "queue s = [] \<Longrightarrow> Q None s"
    and "\<And>x f. unqueued x s f \<Longrightarrow> Q (Some x) (s\<lparr>flavor := f\<rparr>)"
  shows "wp A (flavor_mut flavor_pop) Q E s"
  by (rule wp_flavor_pop) (use assms in \<open>auto simp: mpmc_inv_def unqueued_def\<close>)

text \<open>
  One turn of the loop of \<open>try_take\<close>. The four continuations: nothing there; an item was handed out
  at once; the item was parked in the slot and the senders woken, where the wakers return or unwind.
\<close>

lemma take_turn:
  assumes s: "mpmc_inv s"
    and empty: "redelivery s = None \<Longrightarrow> queue s = [] \<Longrightarrow> Q None s"
    and direct: "\<And>x s'. hands_out x s s' \<Longrightarrow> (redelivery s = None \<Longrightarrow> send_wakers s = []) \<Longrightarrow> Q (Some x) s'"
    and parked: "\<And>x f. unqueued x s f \<Longrightarrow> send_wakers s \<noteq> [] \<Longrightarrow>
      wp A (wake_senders env) (\<lambda>_ u. mpmc_inv u \<and> (case redelivery u of
           Some y \<Rightarrow> \<forall>s'. hands_out y u s' \<longrightarrow> Q (Some y) s'
         | None \<Rightarrow> wp A (try_take_loop env n) Q E u)) E (s\<lparr>flavor := f, redelivery := Some x\<rparr>)"
  shows "wp A (try_take_loop env (Suc n)) Q E s"
proof (cases "redelivery s")
  case None
  note eq = no_redelivery [OF None]
  note idle = mpmc_idle [OF s]
  show ?thesis
    unfolding try_take_loop.simps wp_bindM [of _ take_redelivery] wp_take_redelivery [OF idle]
    unfolding None option.case wp_bindM [of _ "flavor_mut _"] eq
  proof (rule pop_steps [OF s None], goal_cases)
    case 1
    with empty None show ?case by (simp add: wp_simps)
  next
    case (2 x f)
    show ?case
    proof (cases "send_wakers s = []")
      case True
      have "hands_out x s (s\<lparr>flavor := f, log := log s @ [Popped x]\<rparr>)"
        using 2 by (auto simp: hands_out_def)
      from direct [OF this] True idle show ?thesis
        by (simp add: wp_simps wp_has_parked_senders hand_out_def)
    next
      case False
      have r: "redelivery (s\<lparr>flavor := f\<rparr>) = None" using None by simp
      have more: "wp A (bindM take_redelivery (\<lambda>r'. case r' of Some y \<Rightarrow> hand_out y | None \<Rightarrow> try_take_loop env n)) Q E u"
        if "mpmc_inv u \<and> (case redelivery u of
           Some y \<Rightarrow> \<forall>s'. hands_out y u s' \<longrightarrow> Q (Some y) s'
         | None \<Rightarrow> wp A (try_take_loop env n) Q E u)" for u
        using that by (cases "redelivery u")
          (auto simp: wp_bindM wp_take_redelivery no_redelivery mpmc_idle hand_out_def wp_simps hands_out_def)
      show ?thesis
        using False idle
        by (simp add: wp_bindM [of _ has_parked_senders] wp_has_parked_senders wp_thenM wp_set_redelivery [OF _ r])
          (rule wp_conseq [OF parked [OF 2 False]], auto intro: more)
    qed
  qed
next
  case (Some x)
  have "hands_out x s (s\<lparr>redelivery := None, log := log s @ [Popped x]\<rparr>)" using Some by (simp add: hands_out_def)
  from direct [OF this] Some s show ?thesis
    by (simp add: wp_simps wp_take_redelivery mpmc_idle hand_out_def)
qed

lemma park_item_step:
  assumes "unqueued x s f"
  shows "bstep k s (s\<lparr>flavor := f, redelivery := Some x\<rparr>)"
  using assms by (auto simp: unqueued_def bstep_def cstep_def intro: crstep.pop_park)

lemma park_item_inv: "unqueued x s f \<Longrightarrow> mpmc_inv s \<Longrightarrow> mpmc_inv (s\<lparr>flavor := f, redelivery := Some x\<rparr>)"
  by (rule cbusy.inv_step [OF _ park_item_step])

section \<open>The loop and its fuel\<close>

text \<open>Fuel stands for time: a run that ends with some fuel is the same with more.\<close>

lemma bind_agree:
  assumes "fst (bindM m f s) \<noteq> Abort a" and "\<And>x t. fst (f x t) \<noteq> Abort a \<Longrightarrow> g x t = f x t"
  shows "bindM m g s = bindM m f s"
  using assms by (cases "m s") (auto simp: bindM_def split: outcome.splits)

lemma take_loop_Suc:
  "fst (try_take_loop env n s) \<noteq> Abort Diverges \<Longrightarrow> try_take_loop env (Suc n) s = try_take_loop env n s"
proof (induction n arbitrary: s)
  case (Suc n)
  define K K' where "K = try_take_loop env n" and "K' = try_take_loop env (Suc n)"
  let ?after = "\<lambda>K. bindM take_redelivery (\<lambda>r. case r of Some y \<Rightarrow> hand_out y | None \<Rightarrow> K)"
  let ?park = "\<lambda>K x. thenM (set_redelivery env x) (thenM (wake_senders env) (?after K))"
  let ?item = "\<lambda>K i. case i of None \<Rightarrow> ret None
    | Some x \<Rightarrow> bindM has_parked_senders (\<lambda>parked. if \<not> parked then hand_out x else ?park K x)"
  let ?turn = "\<lambda>K. bindM take_redelivery (\<lambda>r. case r of Some x \<Rightarrow> hand_out x
    | None \<Rightarrow> bindM (flavor_mut flavor_pop) (?item K))"
  have K: "K' u = K u" if "fst (K u) \<noteq> Abort Diverges" for u
    using Suc.IH that by (simp add: K_def K'_def)
  have after: "?after K' u = ?after K u" if "fst (?after K u) \<noteq> Abort Diverges" for u
    using that by (rule bind_agree) (auto intro: K split: option.splits)
  have wake: "thenM (wake_senders env) (?after K') u = thenM (wake_senders env) (?after K) u"
    if "fst (thenM (wake_senders env) (?after K) u) \<noteq> Abort Diverges" for u
    using that unfolding thenM_def by (rule bind_agree) (rule after)
  have park: "?park K' x u = ?park K x u" if "fst (?park K x u) \<noteq> Abort Diverges" for x u
    using that unfolding thenM_def [of "set_redelivery env x"] by (rule bind_agree) (rule wake)
  have item: "?item K' i u = ?item K i u" if "fst (?item K i u) \<noteq> Abort Diverges" for i u
  proof (cases i)
    case (Some x)
    then show ?thesis
      using that by simp (erule bind_agree, auto intro: park split: if_splits)
  qed simp
  have turn: "?turn K' s = ?turn K s" if "fst (?turn K s) \<noteq> Abort Diverges"
    using that
  proof (rule bind_agree, goal_cases)
    case (1 r t)
    then show ?case by (cases r) (auto elim: bind_agree intro: item)
  qed
  have unfold: "try_take_loop env (Suc n) = ?turn K" "try_take_loop env (Suc (Suc n)) = ?turn K'"
    unfolding K_def K'_def by (rule try_take_loop.simps(2))+
  show ?case
    using turn Suc.prems unfolding unfold by blast
qed (simp add: abort_def)

lemma take_loop_more:
  assumes "fst (try_take_loop env n s) \<noteq> Abort Diverges" and "n \<le> m"
  shows "try_take_loop env m s = try_take_loop env n s"
  using assms(2,1) by (induction rule: dec_induct) (simp_all add: take_loop_Suc del: try_take_loop.simps)

section \<open>Taking an item while the wakers only send\<close>

text \<open>
  The item that was first in the channel is returned, every sender parked at that time has been
  woken, and nothing else left the channel. When a waker unwinds nothing leaves the channel: the item
  is in the redelivery slot, from where the next call takes it.
\<close>

definition took :: "bool \<Rightarrow> 't \<Rightarrow> ('t, 'u) mpmc \<Rightarrow> ('t, 'u) mpmc \<Rightarrow> bool" where
  "took k x s s' \<longleftrightarrow> (bstep k)\<^sup>*\<^sup>* s s' \<and> popped (log s') = popped (log s) @ [x]
     \<and> (\<exists>ys. contents s @ ys = x # contents s' \<and> (mpmc_send_closed s \<longrightarrow> ys = []))
     \<and> (redelivery s = None \<longrightarrow> all_woken (send_wakers s) (new_log s s'))"

definition took_or_empty :: "bool \<Rightarrow> ('t, 'u) mpmc \<Rightarrow> 't option \<Rightarrow> ('t, 'u) mpmc \<Rightarrow> bool" where
  "took_or_empty k s r s' \<longleftrightarrow> (case r of Some x \<Rightarrow> took k x s s' | None \<Rightarrow> s' = s \<and> contents s = [])"

definition take_unwound :: "bool \<Rightarrow> ('t, 'u) mpmc \<Rightarrow> ('t, 'u) mpmc \<Rightarrow> bool" where
  "take_unwound k s s' \<longleftrightarrow> (bstep k)\<^sup>*\<^sup>* s s' \<and> popped (log s') = popped (log s) \<and> redelivery s = None
     \<and> (\<exists>x xs ys. queue s = x # xs \<and> redelivery s' = Some x \<and> queue s' = xs @ ys)
     \<and> all_woken (send_wakers s) (new_log s s')"

lemma bstep_of_csstep: "(csstep k)\<^sup>*\<^sup>* s s' \<Longrightarrow> (bstep k)\<^sup>*\<^sup>* s s'"
  by (erule rtranclp_mono [THEN predicate2D, rotated]) (auto simp: bstep_def cstep_def csstep_keeps(1))

text \<open>The state while the senders are woken: the item is in the slot and stays there.\<close>

lemma parked_item:
  assumes f: "unqueued x s f" and s: "mpmc_inv s"
    and v: "(csstep k)\<^sup>*\<^sup>* (s\<lparr>flavor := f, redelivery := Some x, send_wakers := []\<rparr>) v"
    and w: "all_woken (send_wakers s) (new_log (s\<lparr>flavor := f, redelivery := Some x\<rparr>) v)"
  shows "take_unwound k s v" and "mpmc_inv v" and "redelivery v = Some x"
    and "hands_out x v s' \<Longrightarrow> took k x s s'"
proof -
  let ?t = "s\<lparr>flavor := f, redelivery := Some x\<rparr>"
  have tv: "(csstep k)\<^sup>*\<^sup>* ?t v" using csenders.take_steps [of k ?t v] v w by simp
  note keep = cssteps_keep [OF tv]
  obtain ys where ys: "queue v = flavor_list f @ ys" using keep(7) by auto
  have xs: "queue s = x # flavor_list f" and n: "redelivery s = None" using f by (auto simp: unqueued_def)
  have sv: "(bstep k)\<^sup>*\<^sup>* s v"
    using park_item_step [OF f] bstep_of_csstep [OF tv] by (rule converse_rtranclp_into_rtranclp)
  have woken: "all_woken (send_wakers s) (new_log s v)" using w by (simp add: new_log_def)
  show r: "redelivery v = Some x" using keep(3) by simp
  show iv: "mpmc_inv v" using cbusy.inv_steps [OF sv s] .
  show "take_unwound k s v"
    using sv woken xs ys n r keep(2) by (simp add: take_unwound_def)
  show "took k x s s'" if "hands_out x v s'"
  proof -
    have s': "s' = v\<lparr>redelivery := None, log := log v @ [Popped x]\<rparr>"
      using that r by (auto simp: hands_out_def unqueued_def)
    have "mpmc_send_closed s \<longrightarrow> ys = []"
      using keep(8) ys by (auto simp: mpmc_send_closed_iff)
    moreover have "(bstep k)\<^sup>*\<^sup>* s s'" using sv hands_out_step [OF that] by (rule rtranclp.rtrancl_into_rtrancl)
    moreover have "all_woken (send_wakers s) (new_log s s')"
      using woken cbusy.new_log_mono(1) [OF sv, of s'] hands_out_step [OF that, of k] unfolding all_woken_def by blast
    ultimately show ?thesis using keep(2) xs ys n s' by (auto simp: took_def)
  qed
qed

lemma take_exact:
  assumes u: "user_code A mpmc_inv (csstep k) env" and i: "isolates A env" and s: "mpmc_inv s" and n: "1 \<le> fuel env"
  shows "wp A (try_take env) (took_or_empty k s) (\<lambda>_. take_unwound k s) s"
proof -
  obtain m where m: "fuel env = Suc m" using n by (cases "fuel env") auto
  show ?thesis
    unfolding try_take_def m
  proof (rule take_turn [OF s], goal_cases)
    case 1
    then show ?case by (simp add: took_or_empty_def)
  next
    case (2 x s')
    then show ?case
      using hands_out_step [OF 2(1), of k] hands_out_contents [OF 2(1)]
      by (auto simp: took_or_empty_def took_def all_woken_def hands_out_def)
  next
    case (3 x f)
    show ?case
      by (rule wp_conseq [OF csenders.wake_senders_wakes [OF u i park_item_inv [OF 3(1) s]]])
        (use parked_item [OF 3(1) s] in \<open>auto simp: took_or_empty_def\<close>)
  qed
qed

section \<open>Waiting\<close>

text \<open>
  What a poll does while it takes nothing: steps of user code, and changes to the list of parked
  receivers. \<open>enlisted\<close>: the waker \<open>w\<close> was put on the list, and since then only user code ran.
\<close>

definition waits :: "(('t, 'u) mpmc \<Rightarrow> ('t, 'u) mpmc \<Rightarrow> bool) \<Rightarrow> ('t, 'u) mpmc \<Rightarrow> ('t, 'u) mpmc \<Rightarrow> bool" where
  "waits U s s' \<longleftrightarrow> U s s' \<or> s' = s\<lparr>next_recv_id := next_recv_id s + 1\<rparr>
     \<or> (\<exists>i w. \<not> mpmc_terminal s \<and> s' = s\<lparr>recv_wakers := recv_wakers s @ [(i, w)]\<rparr>)
     \<or> (\<exists>i. s' = withdraw_recv i s)"

definition enlisted :: "(('t, 'u) mpmc \<Rightarrow> ('t, 'u) mpmc \<Rightarrow> bool) \<Rightarrow> u64 \<Rightarrow> waker \<Rightarrow> ('t, 'u) mpmc \<Rightarrow> ('t, 'u) mpmc \<Rightarrow> bool" where
  "enlisted U i w s s' \<longleftrightarrow> (\<exists>t. (waits U)\<^sup>*\<^sup>* s t \<and> \<not> mpmc_terminal t \<and> U\<^sup>*\<^sup>* (t\<lparr>recv_wakers := recv_wakers t @ [(i, w)]\<rparr>) s')"

lemma disconnected_later: "(bstep k)\<^sup>*\<^sup>* s s' \<Longrightarrow> mpmc_disconnected s \<Longrightarrow> mpmc_disconnected s'"
  using csteps_keep(2,3) [OF cstep_of_bstep, of k s s'] by (auto simp: mpmc_disconnected_def)

text \<open>A disconnected channel has no registration left to remove.\<close>

lemma remove_disconnected:
  assumes "mpmc_inv s" and "mpmc_disconnected s"
  shows "wp A (remove_recv_waker env i) Q E s = Q () s"
proof -
  have none: "recv_wakers s = []" using assms by (simp add: mpmc_inv_def)
  then have eq: "withdraw_recv i s = s" by (simp add: withdraw_recv_def registry_remove_def)
  from none assms show ?thesis
    by (simp add: eq wp_remove_recv_waker mpmc_idle registry_remove_def drop_waker_option_def wp_simps)
qed

definition slot_polled :: "(('t, 'u) mpmc \<Rightarrow> ('t, 'u) mpmc \<Rightarrow> bool) \<Rightarrow> (('t, 'u) mpmc \<Rightarrow> 't option \<Rightarrow> ('t, 'u) mpmc \<Rightarrow> bool)
    \<Rightarrow> waker \<Rightarrow> ('t, 'u) mpmc \<Rightarrow> 't option poll \<Rightarrow> ('t, 'u) mpmc \<Rightarrow> u64 option \<Rightarrow> bool" where
  "slot_polled U T w s p s' j \<longleftrightarrow> (case p of
     Ready (Some x) \<Rightarrow> \<exists>t. (waits U)\<^sup>*\<^sup>* s t \<and> T t (Some x) s'
   | Ready None \<Rightarrow> (waits U)\<^sup>*\<^sup>* s s' \<and> contents s' = [] \<and> mpmc_disconnected s' \<and> j = None
   | Pending \<Rightarrow> contents s' = [] \<and> \<not> mpmc_disconnected s' \<and> (\<exists>i. j = Some i \<and> enlisted U i w s s'))"

definition slot_unwound :: "(('t, 'u) mpmc \<Rightarrow> ('t, 'u) mpmc \<Rightarrow> bool) \<Rightarrow> (('t, 'u) mpmc \<Rightarrow> ('t, 'u) mpmc \<Rightarrow> bool)
    \<Rightarrow> ('t, 'u) mpmc \<Rightarrow> ('t, 'u) mpmc \<Rightarrow> bool" where
  "slot_unwound U F s s' \<longleftrightarrow> (waits U)\<^sup>*\<^sup>* s s' \<or> (\<exists>t. (waits U)\<^sup>*\<^sup>* s t \<and> F t s')"

text \<open>The interface to the user code that runs inside a receiver's operation.\<close>

locale receiving = unparking mpmc_inv U
  for U :: "('t, 'u) mpmc \<Rightarrow> ('t, 'u) mpmc \<Rightarrow> bool" +
  fixes k :: bool
  assumes U_bstep: "U s s' \<Longrightarrow> (bstep k)\<^sup>*\<^sup>* s s'"
begin

lemma U_bsteps: "U\<^sup>*\<^sup>* s s' \<Longrightarrow> (bstep k)\<^sup>*\<^sup>* s s'"
  by (induction rule: rtranclp_induct) (auto dest: U_bstep)

lemma waits_bsteps: "(waits U)\<^sup>*\<^sup>* s s' \<Longrightarrow> (bstep k)\<^sup>*\<^sup>* s s'"
proof (induction rule: rtranclp_induct)
  case (step t u)
  have "bstep k t u" if "\<not> U t u"
    using step.hyps(2) that
    by (auto simp: waits_def bstep_def cstep_def intro: crstep.ticket crstep.store crstep.unpark_recv)
  then have "(bstep k)\<^sup>*\<^sup>* t u" using U_bstep by blast
  with step.IH show ?case by simp
qed simp

lemma waits_U: "U\<^sup>*\<^sup>* s s' \<Longrightarrow> (waits U)\<^sup>*\<^sup>* s s'"
  by (erule rtranclp_mono [THEN predicate2D, rotated]) (auto simp: waits_def)

lemma waits_inv: "(waits U)\<^sup>*\<^sup>* s s' \<Longrightarrow> mpmc_inv s \<Longrightarrow> mpmc_inv s'"
  using cbusy.inv_steps [OF waits_bsteps] by blast

lemma waits_then: "(waits U)\<^sup>*\<^sup>* s t \<Longrightarrow> U\<^sup>*\<^sup>* t s' \<Longrightarrow> (waits U)\<^sup>*\<^sup>* s s'"
  using waits_U by (blast intro: rtranclp_trans)

lemma enlisted_waits:
  assumes "enlisted U i w s s'"
  shows "(waits U)\<^sup>*\<^sup>* s s'"
proof -
  obtain t where t: "(waits U)\<^sup>*\<^sup>* s t" "\<not> mpmc_terminal t" "U\<^sup>*\<^sup>* (t\<lparr>recv_wakers := recv_wakers t @ [(i, w)]\<rparr>) s'"
    using assms by (auto simp: enlisted_def)
  have "waits U t (t\<lparr>recv_wakers := recv_wakers t @ [(i, w)]\<rparr>)" using t(2) by (auto simp: waits_def)
  with t(1) have "(waits U)\<^sup>*\<^sup>* s (t\<lparr>recv_wakers := recv_wakers t @ [(i, w)]\<rparr>)" by (rule rtranclp.rtrancl_into_rtrancl)
  with t(3) show ?thesis by (blast intro: waits_then)
qed

lemma enlisted_later: "enlisted U i w s t \<Longrightarrow> U\<^sup>*\<^sup>* t s' \<Longrightarrow> enlisted U i w s s'"
  unfolding enlisted_def by (meson rtranclp_trans)

lemma user_wp:
  assumes "guar A mpmc_inv U m" and "mpmc_inv s" and "(waits U)\<^sup>*\<^sup>* s t"
  shows "wp A m (\<lambda>_ s'. (waits U)\<^sup>*\<^sup>* s s' \<and> U\<^sup>*\<^sup>* t s') (\<lambda>_ s'. (waits U)\<^sup>*\<^sup>* s s' \<and> U\<^sup>*\<^sup>* t s') t"
  using assms by (intro guar_wp [OF assms(1)]) (auto intro: waits_inv waits_then)

lemma remove_recv_waker_steps:
  assumes u: "user_code A mpmc_inv U env" and s: "mpmc_inv s" and t: "(waits U)\<^sup>*\<^sup>* s t"
  shows "wp A (remove_recv_waker env i) (\<lambda>_. (waits U)\<^sup>*\<^sup>* s) (\<lambda>_. (waits U)\<^sup>*\<^sup>* s) t"
proof -
  let ?t = "withdraw_recv i t"
  have "waits U t ?t" by (auto simp: waits_def)
  with t have "(waits U)\<^sup>*\<^sup>* s ?t" by (rule rtranclp.rtrancl_into_rtrancl)
  then show ?thesis
    using waits_inv [OF t s]
    by (simp add: wp_remove_recv_waker mpmc_idle) (rule wp_conseq [OF user_wp [OF guar_user(7) [OF u] s]], auto)
qed

lemma clone_steps:
  assumes u: "user_code A mpmc_inv U env" and c: "same_clones env" and s: "mpmc_inv s" and t: "(waits U)\<^sup>*\<^sup>* s t"
  shows "wp A (clone_waker env w) (\<lambda>v s'. v = w \<and> (waits U)\<^sup>*\<^sup>* s s') (\<lambda>_. (waits U)\<^sup>*\<^sup>* s) t"
  by (rule wp_conseq [OF wp_clone_same [OF user_wp [OF guar_user(3) [OF u] s t]]]) (use c in auto)

text \<open>Registering: the waker is on the list, or the channel was disconnected meanwhile.\<close>

lemma add_recv_waker_steps:
  assumes u: "user_code A mpmc_inv U env" and c: "same_clones env" and s: "mpmc_inv s"
    and t: "(waits U)\<^sup>*\<^sup>* s t" and alive: "receivers t \<noteq> 0"
  shows "wp A (add_recv_waker env w)
    (\<lambda>i s'. (waits U)\<^sup>*\<^sup>* s s' \<and> (mpmc_disconnected s' \<or> enlisted U i w s s')) (\<lambda>_. (waits U)\<^sup>*\<^sup>* s) t"
proof -
  let ?t = "t\<lparr>next_recv_id := next_recv_id t + 1\<rparr>"
  let ?Q = "\<lambda>i s'. (waits U)\<^sup>*\<^sup>* s s' \<and> (mpmc_disconnected s' \<or> enlisted U i w s s')"
  have "waits U t ?t" by (simp add: waits_def)
  with t have st: "(waits U)\<^sup>*\<^sup>* s ?t" by (rule rtranclp.rtrancl_into_rtrancl)
  have term_iff: "mpmc_terminal ?t \<longleftrightarrow> mpmc_disconnected ?t" using alive by (auto simp: mpmc_terminal_def mpmc_disconnected_def)
  have cloned: "wp A (clone_waker env w) (\<lambda>v s'. v = w \<and> (waits U)\<^sup>*\<^sup>* s s' \<and> receivers s' \<noteq> 0) (\<lambda>_. (waits U)\<^sup>*\<^sup>* s) ?t"
  proof -
    have "wp A (clone_waker env w) (\<lambda>_ s'. receivers s' \<noteq> 0) (\<lambda>_ _. True) ?t"
      using alive bsteps_alive [OF waits_bsteps [OF waits_U]]
      by (intro wp_conseq [OF user_wp [OF guar_user(3) [OF u] s st]]) auto
    from wp_conj [OF clone_steps [OF u c s st, of w] this] show ?thesis by (rule wp_conseq) auto
  qed
  have dropped: "wp A (drop_waker env w) (\<lambda>_. ?Q j) (\<lambda>_. (waits U)\<^sup>*\<^sup>* s) v"
    if "(waits U)\<^sup>*\<^sup>* s v" "receivers v \<noteq> 0" "mpmc_terminal v" for v j
  proof -
    have d: "mpmc_disconnected v" using that by (auto simp: mpmc_terminal_def mpmc_disconnected_def)
    show ?thesis
      by (rule wp_conseq [OF user_wp [OF guar_user(4) [OF u] s that(1)]])
        (use d disconnected_later [OF waits_bsteps [OF waits_U]] in auto)
  qed
  have stored: "?Q j (v\<lparr>recv_wakers := recv_wakers v @ [(j, w)]\<rparr>)" if "(waits U)\<^sup>*\<^sup>* s v" "\<not> mpmc_terminal v" for v j
  proof -
    have "enlisted U j w s (v\<lparr>recv_wakers := recv_wakers v @ [(j, w)]\<rparr>)" using that by (auto simp: enlisted_def)
    then show ?thesis by (blast intro: enlisted_waits)
  qed
  show ?thesis
    unfolding add_recv_waker_def wp_bindM wp_thenM wp_gets wp_modify wp_if
    using st term_iff
    by (auto simp: wp_simps wp_push_recv_waker mpmc_idle waits_inv [OF _ s]
        intro!: wp_conseq [OF cloned] dropped stored)
qed

text \<open>
  One poll, for any description \<open>T\<close> of what \<open>try_take\<close> does (\<open>F\<close> when it unwinds).
\<close>

lemma poll_recv_steps:
  assumes u: "user_code A mpmc_inv U env" and c: "same_clones env" and s: "mpmc_inv s" and alive: "receivers s \<noteq> 0"
    and take: "\<And>t. mpmc_inv t \<Longrightarrow> wp A (try_take env) (T t) (\<lambda>_. F t) t"
    and none: "\<And>t t'. T t None t' \<Longrightarrow> U\<^sup>*\<^sup>* t t' \<and> contents t' = []"
  shows "wp A (mpmc_poll_recv env w) (\<lambda>p (s', j). slot_polled U T w s p s' j)
    (\<lambda>_ (s', j). slot_unwound U F s s') (s, i)"
proof -
  let ?Q = "\<lambda>p (s', j). slot_polled U T w s p s' j"
  let ?E = "\<lambda>p :: payload. \<lambda>(s', j :: u64 option). slot_unwound U F s s'"
  have unwound: "slot_unwound U F s t" if "(waits U)\<^sup>*\<^sup>* s t" for t
    using that by (simp add: slot_unwound_def)
  have waited: "(waits U)\<^sup>*\<^sup>* s t' \<and> mpmc_inv t' \<and> contents t' = []" if "(waits U)\<^sup>*\<^sup>* s t" "T t None t'" for t t'
    using that none [OF that(2)] waits_inv [OF _ s] by (auto intro: waits_then)
  have tt: "wp A (try_take env) Q (\<lambda>_. slot_unwound U F s) t"
    if "(waits U)\<^sup>*\<^sup>* s t" and "\<And>r t'. T t r t' \<Longrightarrow> Q r t'" for Q t
    by (rule wp_conseq [OF take [OF waits_inv [OF that(1) s]]]) (use that in \<open>auto simp: slot_unwound_def\<close>)
  have recheck: "wp A (poll_recheck env) ?Q ?E (t, Some j)"
    if t: "(waits U)\<^sup>*\<^sup>* s t \<and> (mpmc_disconnected t \<or> enlisted U j w s t)" for t j
  proof -
    have "enlisted U j w s t'" if t': "T t None t'" "\<not> mpmc_disconnected t'" for t'
      using t t'(2) none [OF t'(1)] disconnected_later [OF waits_bsteps [OF waits_U]] by (blast intro: enlisted_later)
    then show ?thesis
      using t waited [of t] by (simp add: poll_recheck_def wp_simps, intro tt)
        (auto simp: wp_simps take_slot_def remove_disconnected slot_polled_def wp_Ret_eq split: option.splits)
  qed
  have poll: "wp A (poll_attempt env w) ?Q ?E (t, None)" if t: "(waits U)\<^sup>*\<^sup>* s t" for t
  proof -
    have add: "wp A (add_recv_waker env w)
        (\<lambda>i s'. (waits U)\<^sup>*\<^sup>* s s' \<and> (mpmc_disconnected s' \<or> enlisted U i w s s')) (\<lambda>_. (waits U)\<^sup>*\<^sup>* s) t'"
      if "T t None t'" for t'
      using add_recv_waker_steps [OF u c s] waited [OF t that] bsteps_alive [OF waits_bsteps alive] by simp
    show ?thesis
      unfolding poll_attempt_def wp_bindM [of _ "on_fst (try_take env)"] wp_on_fst prod.case
      by (rule tt [OF t])
        (use t waited [OF t] in \<open>auto simp: wp_ret wp_if wp_bindM [of _ "on_fst _"] wp_on_fst wp_gets wp_thenM wp_on_snd
           wp_modify slot_polled_def intro!: wp_conseq [OF add] recheck unwound split: option.split\<close>)
  qed
  show ?thesis
    unfolding mpmc_poll_recv_def wp_bindM [of _ take_slot] wp_thenM
    by (cases i) (auto simp: take_slot_def wp_on_snd wp_ret wp_on_fst wp_Ret_eq
      intro!: poll unwound wp_conseq [OF remove_recv_waker_steps [OF u s]])
qed

end

section \<open>Receiving while others may receive\<close>

text \<open>
  Whatever the wakers do, an item that is returned was handed out to this call and no other, and
  \<open>None\<close> means that the channel is empty.
\<close>

definition take_result :: "(('t, 'u) mpmc \<Rightarrow> ('t, 'u) mpmc \<Rightarrow> bool) \<Rightarrow> ('t, 'u) mpmc \<Rightarrow> 't option \<Rightarrow> ('t, 'u) mpmc \<Rightarrow> bool" where
  "take_result U s r s' \<longleftrightarrow> U\<^sup>*\<^sup>* s s' \<and> (case r of
     Some x \<Rightarrow> \<exists>t. U\<^sup>*\<^sup>* s t \<and> hands_out x t s'
   | None \<Rightarrow> contents s' = [])"

lemma take_result_later:
  assumes "U\<^sup>*\<^sup>* s t" and "take_result U t r s'"
  shows "take_result U s r s'"
  using assms unfolding take_result_def by (cases r) (auto intro: rtranclp_trans)

text \<open>
  The interface: the moves of a consumer are steps too. An item may leave the queue when no sender is
  parked, or when all parked senders are then woken.
\<close>

locale consuming = receiving U k
  for U :: "('t, 'u) mpmc \<Rightarrow> ('t, 'u) mpmc \<Rightarrow> bool" and k +
  assumes waits_step: "waits U s s' \<Longrightarrow> U\<^sup>*\<^sup>* s s'"
    and hand_step: "hands_out x s s' \<Longrightarrow> (redelivery s = None \<Longrightarrow> send_wakers s = []) \<Longrightarrow> U s s'"
    and park_item_woken: "unqueued x s f \<Longrightarrow> U\<^sup>*\<^sup>* (s\<lparr>flavor := f, redelivery := Some x, send_wakers := []\<rparr>) s'
      \<Longrightarrow> all_woken (send_wakers s) (new_log s s') \<Longrightarrow> U\<^sup>*\<^sup>* s s'"
    and leave_step: "receivers s \<noteq> 0 \<Longrightarrow> receivers s \<noteq> 1 \<Longrightarrow> U s (s\<lparr>receivers := receivers s - 1\<rparr>)"
begin

lemma waits_steps: "(waits U)\<^sup>*\<^sup>* s s' \<Longrightarrow> U\<^sup>*\<^sup>* s s'"
  by (induction rule: rtranclp_induct) (auto dest: waits_step)

lemma take_result_direct:
  assumes "U\<^sup>*\<^sup>* s t" and "hands_out x t s'" and "redelivery t = None \<Longrightarrow> send_wakers t = []"
  shows "take_result U s (Some x) s'"
  using assms hand_step [OF assms(2)] by (auto simp: take_result_def intro: rtranclp.rtrancl_into_rtrancl)

text \<open>
  The loop ends unless its fuel is used up. When woken senders do not park again, two turns are enough:
  the first turn leaves no parked sender.
\<close>

lemma take_loop_steps:
  assumes u: "user_code A mpmc_inv U env" and i: "isolates A env"
    and enough: "Diverges \<notin> A \<Longrightarrow> \<not> k \<and> 1 \<le> n"
  shows "mpmc_inv s \<Longrightarrow> (Diverges \<notin> A \<Longrightarrow> send_wakers s \<noteq> [] \<Longrightarrow> 2 \<le> n) \<Longrightarrow>
    wp A (try_take_loop env n) (take_result U s) (\<lambda>_. U\<^sup>*\<^sup>* s) s"
  using enough
proof (induction n arbitrary: s)
  case 0
  then have "Diverges \<in> A" by auto
  then show ?case by (simp add: wp_simps)
next
  case (Suc n)
  note s = Suc.prems(1)
  show ?case
  proof (rule take_turn [OF s], goal_cases)
    case 1
    then show ?case by (simp add: take_result_def)
  next
    case (2 x s')
    then show ?case by (auto intro: take_result_direct)
  next
    case (3 x f)
    let ?t = "s\<lparr>flavor := f, redelivery := Some x\<rparr>"
    have moved: "U\<^sup>*\<^sup>* s v" if "U\<^sup>*\<^sup>* (?t\<lparr>send_wakers := []\<rparr>) v \<and> all_woken (send_wakers ?t) (new_log ?t v)" for v
      using park_item_woken [OF 3(1), of v] that by (simp add: new_log_def)
    show ?case
    proof (rule wp_conseq [OF wake_senders_wakes [OF u i park_item_inv [OF 3(1) s]]], goal_cases)
      case (1 _ v)
      then have sv: "U\<^sup>*\<^sup>* s v" by (rule moved)
      have v: "mpmc_inv v" using inv_steps [OF sv s] .
      have none: "Diverges \<notin> A \<Longrightarrow> send_wakers v = [] \<and> 1 \<le> n"
        using csteps_keep(6) [OF cstep_of_bstep [OF U_bsteps [OF conjunct1 [OF 1]]]] Suc.prems(2,3) 3(2) by fastforce
      have "wp A (try_take_loop env n) (take_result U v) (\<lambda>_. U\<^sup>*\<^sup>* v) v"
        by (rule Suc.IH [OF v]) (use none Suc.prems(3) in auto)
      then have "wp A (try_take_loop env n) (take_result U s) (\<lambda>_. U\<^sup>*\<^sup>* s) v"
        by (rule wp_conseq) (use sv in \<open>auto intro: take_result_later\<close>)
      with v sv show ?case by (auto intro: take_result_direct split: option.split)
    next
      case (2 p v)
      then show ?case by (rule moved)
    qed
  qed
qed

lemma try_take_steps:
  assumes "user_code A mpmc_inv U env" and "isolates A env" and "mpmc_inv s"
    and "Diverges \<notin> A \<Longrightarrow> \<not> k \<and> 2 \<le> fuel env"
  shows "wp A (try_take env) (take_result U s) (\<lambda>_. U\<^sup>*\<^sup>* s) s"
  unfolding try_take_def by (rule take_loop_steps [OF assms(1,2)]) (use assms(3,4) in auto)

lemma poll_any:
  assumes "user_code A mpmc_inv U env" and "isolates A env" and "same_clones env"
    and "Diverges \<notin> A \<Longrightarrow> \<not> k \<and> 2 \<le> fuel env" and "mpmc_inv s" and "receivers s \<noteq> 0"
  shows "wp A (mpmc_poll_recv env w) (\<lambda>p (s', j). slot_polled U (take_result U) w s p s' j)
    (\<lambda>_ (s', j). slot_unwound U U\<^sup>*\<^sup>* s s') (s, i)"
  by (rule poll_recv_steps [OF assms(1,3,5,6)])
    (use assms in \<open>auto simp: take_result_def intro!: try_take_steps\<close>)

lemma poll_any_steps:
  assumes "slot_polled U (take_result U) w s p s' j"
  shows "U\<^sup>*\<^sup>* s s'"
  using assms waits_steps [of s] enlisted_waits [of _ w s s']
  by (auto simp: slot_polled_def take_result_def split: poll.splits option.splits intro: rtranclp_trans)

lemma unwound_any_steps:
  assumes "slot_unwound U U\<^sup>*\<^sup>* s s'"
  shows "U\<^sup>*\<^sup>* s s'"
  using assms waits_steps [of s] by (auto simp: slot_unwound_def intro: rtranclp_trans)

text \<open>The recv future: it polls until it is done; then it only removes a registration left behind.\<close>

lemma recv_poll_any:
  assumes u: "user_code A mpmc_inv U env" and "isolates A env" and "same_clones env"
    and "Diverges \<notin> A \<Longrightarrow> \<not> k \<and> 2 \<le> fuel env" and s: "mpmc_inv s" and "receivers s \<noteq> 0"
  shows "wp A (mpmc_recv_poll env w)
    (\<lambda>p (s', f'). if rf_done f then p = Pending \<and> U\<^sup>*\<^sup>* s s' \<and> f' = f\<lparr>rf_waker_id := None\<rparr>
       else slot_polled U (take_result U) w s p s' (rf_waker_id f') \<and> rf_done f' = is_ready p)
    (\<lambda>_ (s', f'). U\<^sup>*\<^sup>* s s' \<and> rf_done f' = rf_done f) (s, f)"
proof (cases "rf_done f")
  case True
  have remove: "wp A (remove_recv_waker env i) (\<lambda>_. U\<^sup>*\<^sup>* s) (\<lambda>_. U\<^sup>*\<^sup>* s) s" for i
    by (rule wp_conseq [OF remove_recv_waker_steps [OF u s rtranclp.rtrancl_refl]])
      (auto intro: waits_steps)
  have "wp A (wake_by_ref env w) (\<lambda>_. U\<^sup>*\<^sup>* s) (\<lambda>_. U\<^sup>*\<^sup>* s) t" if "U\<^sup>*\<^sup>* s t" for t
    by (rule guar_from [OF guar_user(2) [OF u] that s])
  with True show ?thesis
    by (cases "rf_waker_id f")
      (auto simp: mpmc_recv_poll_def wp_simps take_slot_def wp_Ret_eq intro!: wp_conseq [OF remove])
next
  case False
  have "wp A (mpmc_poll_recv env w) (\<lambda>p (s', j). slot_polled U (take_result U) w s p s' j)
    (\<lambda>_ (s', j). U\<^sup>*\<^sup>* s s') (s, rf_waker_id f)"
    by (rule wp_conseq [OF poll_any [OF assms]]) (auto intro: unwound_any_steps)
  with False show ?thesis
    by (auto simp: mpmc_recv_poll_def wp_simps elim!: wp_conseq)
qed

lemma remove_stream_steps:
  assumes "user_code A mpmc_inv U env" and "mpmc_inv s"
  shows "wp A (remove_stream env i) (\<lambda>_. U\<^sup>*\<^sup>* s) (\<lambda>_. U\<^sup>*\<^sup>* s) s"
  using wp_conseq [OF remove_recv_waker_steps [OF assms rtranclp.rtrancl_refl]] waits_steps [of s]
  by (cases i) (auto simp: remove_stream_def wp_simps)

lemma recv_drop_any:
  assumes "user_code A mpmc_inv U env" and "mpmc_inv s"
  shows "wp A (mpmc_recv_drop env) (\<lambda>_ (s', f'). U\<^sup>*\<^sup>* s s' \<and> f' = f\<lparr>rf_waker_id := None\<rparr>)
    (\<lambda>_ (s', f'). U\<^sup>*\<^sup>* s s' \<and> f' = f\<lparr>rf_waker_id := None\<rparr>) (s, f)"
  by (simp add: mpmc_recv_drop_def wp_simps take_slot_def wp_Ret_eq)
    (rule wp_conseq [OF remove_stream_steps [OF assms]], auto)

text \<open>Dropping a receiver that is not the last one touches nothing but its registration.\<close>

lemma receiver_drop_other:
  assumes u: "user_code A mpmc_inv U env" and s: "mpmc_inv s" and n: "receivers s \<noteq> 0" "receivers s \<noteq> 1"
  shows "wp A (mpmc_receiver_drop env) (\<lambda>_ (s', j). U\<^sup>*\<^sup>* s s' \<and> j = None)
    (\<lambda>_ (s', j). U\<^sup>*\<^sup>* s s' \<and> j = None) (s, i)"
proof -
  let ?s = "s\<lparr>receivers := receivers s - 1\<rparr>"
  have step: "U s ?s" using leave_step [OF n] .
  have "mpmc_inv ?s" using inv_step [OF s step] .
  from remove_stream_steps [OF u this] have
    "wp A (remove_stream env i) (\<lambda>_. U\<^sup>*\<^sup>* s) (\<lambda>_. U\<^sup>*\<^sup>* s) ?s"
    by (rule wp_conseq) (use step in \<open>auto intro: converse_rtranclp_into_rtranclp [of U]\<close>)
  with n show ?thesis
    by (simp add: mpmc_receiver_drop_def decr_receivers_def wp_simps take_slot_def wp_Ret_eq)
qed

end

lemma waits_bstep: "waits (bstep k) s s' \<Longrightarrow> bstep k s s'"
  by (auto simp: waits_def bstep_def cstep_def intro: crstep.ticket crstep.store crstep.unpark_recv)

lemma park_item_taken:
  assumes "unqueued x s f" and "(bstep k)\<^sup>*\<^sup>* (s\<lparr>flavor := f, redelivery := Some x, send_wakers := []\<rparr>) s'"
  shows "(bstep k)\<^sup>*\<^sup>* s s'"
proof -
  let ?t = "s\<lparr>flavor := f, redelivery := Some x\<rparr>"
  have "bstep k ?t (?t\<lparr>send_wakers := []\<rparr>)" by (rule bstep_csstep [OF csstep.take])
  with assms(2) have "(bstep k)\<^sup>*\<^sup>* ?t s'" by (simp add: start_step(3))
  with park_item_step [OF assms(1)] show ?thesis by (rule start_step(3))
qed

interpretation cany: consuming "bstep k" k for k
proof (unfold_locales, goal_cases)
  case (5 s)
  then show ?case using crstep.drop_receiver [of s] by (simp add: bstep_def cstep_def)
qed (auto intro: waits_bstep hands_out_step park_item_taken)

section \<open>Dropping a receiver\<close>

text \<open>
  The last receiver empties the channel. Nothing can be pushed any more and nobody else can receive, so
  the channel only shrinks and the fuel suffices. Everything in it is destroyed, even when destructors
  panic (a second panic while unwinding aborts).
\<close>

definition drained :: "bool \<Rightarrow> ('t, 'u) mpmc \<Rightarrow> ('t, 'u) mpmc \<Rightarrow> bool" where
  "drained k s s' \<longleftrightarrow> (cstep k)\<^sup>*\<^sup>* s s' \<and> receivers s' = 0 \<and> recv_wakers s' \<in> {recv_wakers s, []}
     \<and> (\<exists>xs. contents s = xs @ contents s' \<and> (\<forall>x \<in> set xs. ItemDropped x \<in> set (new_log s s')))"

lemma drained_refl: "receivers s = 0 \<Longrightarrow> drained k s s"
  by (simp add: drained_def)

lemma drained_trans:
  assumes "drained k s t" and "drained k t u"
  shows "drained k s u"
proof -
  have st: "(cstep k)\<^sup>*\<^sup>* s t" and tu: "(cstep k)\<^sup>*\<^sup>* t u" using assms by (auto simp: drained_def)
  obtain xs ys where xs: "contents s = xs @ contents t" "\<forall>x \<in> set xs. ItemDropped x \<in> set (new_log s t)"
    and ys: "contents t = ys @ contents u" "\<forall>x \<in> set ys. ItemDropped x \<in> set (new_log t u)"
    using assms unfolding drained_def by blast
  have "contents s = (xs @ ys) @ contents u \<and> (\<forall>x \<in> set (xs @ ys). ItemDropped x \<in> set (new_log s u))"
    using xs ys ceveryone.new_log_mono [OF st tu] by auto
  with assms st tu show ?thesis unfolding drained_def by (auto intro: rtranclp_trans)
qed

lemma csstep_recv_list: "csstep k s s' \<Longrightarrow> recv_wakers s' \<in> {recv_wakers s, []}"
  by (erule csstepE) (auto simp: enqueued_def)

lemma cssteps_recv_list: "(csstep k)\<^sup>*\<^sup>* s s' \<Longrightarrow> recv_wakers s' \<in> {recv_wakers s, []}"
  by (induction rule: rtranclp_induct) (use csstep_recv_list in fastforce)+

text \<open>Destroying an item that was just taken.\<close>

lemma drop_taken:
  assumes u: "user_code A mpmc_inv (csstep k) env" and s: "mpmc_inv s" and dead: "receivers s = 0"
    and t: "hands_out x s t"
    and Q: "\<And>s'. drained k s s' \<Longrightarrow> mpmc_inv s' \<Longrightarrow> contents s = x # contents s' \<Longrightarrow> redelivery s' = redelivery t \<Longrightarrow> Q () s'"
    and E: "\<And>p s'. drained k s s' \<Longrightarrow> mpmc_inv s' \<Longrightarrow> contents s = x # contents s' \<Longrightarrow> redelivery s' = redelivery t \<Longrightarrow> E p s'"
  shows "wp A (drop_item env x) Q E t"
proof -
  let ?t = "t\<lparr>log := log t @ [ItemDropped x]\<rparr>"
  have l: "log t = log s @ [Popped x]" and dt: "receivers t = 0" and w: "recv_wakers t = recv_wakers s"
    using t dead by (auto simp: hands_out_def)
  have st: "cstep k s t" and tt: "csstep k t ?t" using hands_out_step [OF t, of k] by (auto simp: bstep_def csstep.event)
  have inv: "mpmc_inv ?t" using ceveryone.inv_step [OF s st] csstep_inv [OF tt] by blast
  have post: "drained k s s' \<and> contents s = x # contents s' \<and> redelivery s' = redelivery t"
    if ts: "(csstep k)\<^sup>*\<^sup>* ?t s'" for s'
  proof -
    note keep = cssteps_keep [OF ts]
    have "(cstep k)\<^sup>*\<^sup>* s s'"
      using st cstep_of_csstep [OF start_step(1) [OF tt ts]] by (rule converse_rtranclp_into_rtranclp)
    moreover have "contents s' = contents t" using keep(3,8) dt by (simp add: mpmc_send_closed_iff)
    moreover have "ItemDropped x \<in> set (new_log s s')"
      using csenders.steps_log [OF ts] l by (simp add: new_log_def [of s s'])
    ultimately show ?thesis
      using hands_out_contents [OF t] keep(1,3) dt w cssteps_recv_list [OF ts] by (simp add: drained_def)
  qed
  show ?thesis
    unfolding drop_item_def wp_simps
    by (rule csenders.guar_wp [OF csenders.user_codeD(5) [OF u] inv]) (use post Q E in auto)
qed

lemma drain_loop_steps:
  assumes u: "user_code A mpmc_inv (csstep k) env"
  shows "mpmc_inv s \<Longrightarrow> receivers s = 0 \<Longrightarrow> redelivery s = None \<Longrightarrow> length (queue s) < n \<Longrightarrow>
    wp A (mpmc_drain_loop env n) (\<lambda>_ s'. drained k s s' \<and> mpmc_inv s' \<and> contents s' = [])
      (\<lambda>_ s'. drained k s s' \<and> mpmc_inv s' \<and> length (contents s') < length (contents s)) s"
proof (induction n arbitrary: s)
  case (Suc n)
  show ?case
    unfolding mpmc_drain_loop.simps wp_bindM [of _ chan_pop] chan_pop_def wp_bindM
  proof (rule pop_steps [OF Suc.prems(1,3)], goal_cases)
    case 1
    then show ?case using Suc.prems by (simp add: wp_simps drained_refl)
  next
    case (2 x f)
    then have t: "hands_out x s (s\<lparr>flavor := f, log := log s @ [Popped x]\<rparr>)" by (auto simp: hands_out_def)
    have "wp A (drop_item env x) (\<lambda>_. wp A (mpmc_drain_loop env n) (\<lambda>_ s'. drained k s s' \<and> mpmc_inv s' \<and> contents s' = [])
        (\<lambda>_ s'. drained k s s' \<and> mpmc_inv s' \<and> length (contents s') < length (contents s)))
        (\<lambda>_ s'. drained k s s' \<and> mpmc_inv s' \<and> length (contents s') < length (contents s)) (s\<lparr>flavor := f, log := log s @ [Popped x]\<rparr>)"
    proof (rule drop_taken [OF u Suc.prems(1,2) t], goal_cases)
      case (1 s')
      then have "receivers s' = 0" "redelivery s' = None" "length (queue s') < n"
        using Suc.prems(3,4) by (auto simp: drained_def)
      from Suc.IH [OF 1(2) this] show ?case
        by (rule wp_conseq) (use 1 in \<open>auto intro: drained_trans\<close>)
    qed simp
    then show ?case by (simp add: wp_simps)
  qed
qed simp

lemma drop_parked_steps:
  assumes u: "user_code A mpmc_inv (csstep k) env" and s: "mpmc_inv s" and dead: "receivers s = 0"
  shows "wp A (drop_parked env (redelivery s))
    (\<lambda>_ s'. drained k s s' \<and> mpmc_inv s' \<and> redelivery s' = None \<and> queue s' = queue s)
    (\<lambda>_ s'. drained k s s' \<and> mpmc_inv s' \<and> length (contents s') < length (contents s)) (s\<lparr>redelivery := None\<rparr>)"
proof (cases "redelivery s")
  case None
  with s dead show ?thesis by (simp add: drop_parked_def wp_simps no_redelivery drained_refl)
next
  case (Some x)
  then have t: "hands_out x s (s\<lparr>redelivery := None, log := log s @ [Popped x]\<rparr>)" by (simp add: hands_out_def)
  have "wp A (drop_item env x) (\<lambda>_ s'. drained k s s' \<and> mpmc_inv s' \<and> redelivery s' = None \<and> queue s' = queue s)
    (\<lambda>_ s'. drained k s s' \<and> mpmc_inv s' \<and> length (contents s') < length (contents s)) (s\<lparr>redelivery := None, log := log s @ [Popped x]\<rparr>)"
    by (rule drop_taken [OF u s dead t]) (use Some in auto)
  with Some show ?thesis by (simp add: drop_parked_def wp_simps)
qed

lemma drain_fuel_steps:
  assumes u: "user_code A mpmc_inv (csstep k) env" and A: "DoublePanic \<in> A"
  shows "mpmc_inv s \<Longrightarrow> receivers s = 0 \<Longrightarrow> length (contents s) < n \<Longrightarrow>
    wp A (mpmc_drain_fuel env n) (\<lambda>_ s'. drained k s s' \<and> mpmc_inv s' \<and> contents s' = [])
      (\<lambda>_ s'. drained k s s' \<and> mpmc_inv s' \<and> contents s' = []) s"
proof (induction n arbitrary: s)
  case (Suc n)
  let ?E = "\<lambda>_ :: payload. \<lambda>s'. drained k s s' \<and> mpmc_inv s' \<and> length (contents s') < length (contents s)"
  have loop: "wp A (mpmc_drain_loop env (Suc n)) (\<lambda>_ s'. drained k s s' \<and> mpmc_inv s' \<and> contents s' = []) ?E t"
    if t: "drained k s t \<and> mpmc_inv t \<and> redelivery t = None \<and> queue t = queue s" for t
  proof -
    have "mpmc_inv t" "receivers t = 0" "redelivery t = None" "length (queue t) < Suc n"
      using t Suc.prems(3) by (auto simp: drained_def)
    from drain_loop_steps [OF u this] show ?thesis
      by (rule wp_conseq) (use t in \<open>auto intro: drained_trans\<close>)
  qed
  have body: "wp A (bindM take_redelivery (\<lambda>parked. thenM (drop_parked env parked) (mpmc_drain_loop env (Suc n))))
      (\<lambda>_ s'. drained k s s' \<and> mpmc_inv s' \<and> contents s' = []) ?E s"
    unfolding wp_bindM wp_take_redelivery [OF mpmc_idle [OF Suc.prems(1)]] wp_thenM
    by (rule wp_conseq [OF drop_parked_steps [OF u Suc.prems(1,2)]]) (use loop in auto)
  show ?case
    unfolding mpmc_drain_fuel.simps wp_on_unwind
  proof (rule wp_conseq [OF body], goal_cases)
    case (2 p s')
    then have s': "drained k s s'" "mpmc_inv s'" "receivers s' = 0" "length (contents s') < n"
      using Suc.prems(3) by (auto simp: drained_def)
    show ?case
      by (rule wp_conseq [OF Suc.IH [OF s'(2-4)]]) (use s'(1) A in \<open>auto intro: drained_trans\<close>)
  qed simp
qed simp

lemma drain_steps:
  assumes "user_code A mpmc_inv (csstep k) env" and "DoublePanic \<in> A" and "mpmc_inv s" and "receivers s = 0"
  shows "wp A (mpmc_drain env) (\<lambda>_ s'. drained k s s' \<and> mpmc_inv s' \<and> contents s' = [])
    (\<lambda>_ s'. drained k s s' \<and> mpmc_inv s' \<and> contents s' = []) s"
proof -
  have "unat (flavor_len (flavor s)) = length (queue s)"
    using assms(3) by (auto simp: mpmc_inv_def intro: flavor.len)
  then show ?thesis
    using drain_fuel_steps [OF assms, of "Suc (Suc (length (queue s)))"]
    by (simp add: mpmc_drain_def wp_def split: option.split)
qed

text \<open>
  What the drop of the last receiver, whose stream is registered under \<open>i\<close>, leaves behind, whether or
  not user code unwinds: every parked sender is woken, everything in the channel is destroyed, and
  the registration is gone.
\<close>

definition emptied :: "bool \<Rightarrow> ('t, 'u) mpmc \<Rightarrow> ('t, 'u) mpmc \<Rightarrow> bool" where
  "emptied k s s' \<longleftrightarrow> (cstep k)\<^sup>*\<^sup>* s s' \<and> mpmc_inv s' \<and> receivers s' = 0 \<and> contents s' = []
     \<and> all_woken (send_wakers s) (new_log s s') \<and> (\<forall>x \<in> set (contents s). ItemDropped x \<in> set (new_log s s'))"

definition receiver_gone :: "bool \<Rightarrow> u64 option \<Rightarrow> ('t, 'u) mpmc \<Rightarrow> ('t, 'u) mpmc \<Rightarrow> bool" where
  "receiver_gone k i s s' \<longleftrightarrow> emptied k s s'
     \<and> (\<forall>j. i = Some j \<longrightarrow> distinct (map fst (recv_wakers s)) \<longrightarrow> j \<notin> fst ` set (recv_wakers s'))"

lemma registry_remove_gone:
  assumes "distinct (map fst ws)"
  shows "i \<notin> fst ` set (snd (registry_remove i ws))"
proof (cases "i \<in> fst ` set ws")
  case True
  then obtain w where w: "(i, w) \<in> set ws" by auto
  with assms have "v = w" if "(i, v) \<in> set ws" for v using that by (auto dest: eq_key_imp_eq_value)
  with registry_remove_present(2) [OF w assms] show ?thesis by auto
qed (simp add: registry_remove_absent)

lemma emptied_later:
  assumes "emptied k s t" and "(csstep k)\<^sup>*\<^sup>* t' s'" and "cstep k t t'" and "mpmc_inv t'"
    and "receivers t' = 0" and "contents t' = []"
  shows "emptied k s s'"
proof -
  have st: "(cstep k)\<^sup>*\<^sup>* s t" using assms(1) by (simp add: emptied_def)
  have ts: "(cstep k)\<^sup>*\<^sup>* t s'" using assms(3) cstep_of_csstep [OF assms(2)] by (rule converse_rtranclp_into_rtranclp)
  note keep = cssteps_keep [OF assms(2)]
  have "contents s' = []" using keep(3,8) assms(5,6) by (simp add: mpmc_send_closed_iff)
  with assms(1,5) keep(1) ts ceveryone.new_log_mono(1) [OF st ts] csenders.inv_steps [OF assms(2,4)] show ?thesis
    by (auto simp: emptied_def all_woken_def)
qed

lemma remove_stream_gone:
  assumes u: "user_code A mpmc_inv (csstep k) env" and t: "emptied k s t" "recv_wakers t \<in> {recv_wakers s, []}"
  shows "wp A (remove_stream env i) (\<lambda>_. receiver_gone k i s) (\<lambda>_. receiver_gone k i s) t"
proof (cases i)
  case None
  with t show ?thesis by (simp add: remove_stream_def wp_simps receiver_gone_def)
next
  case (Some j)
  let ?t = "withdraw_recv j t"
  have it: "mpmc_inv t" using t(1) by (simp add: emptied_def)
  have tt: "cstep k t ?t" by (simp add: cstep_def crstep.unpark_recv)
  have inv: "mpmc_inv ?t" using ceveryone.inv_step [OF it tt] .
  have gone: "j \<notin> fst ` set (recv_wakers ?t)" if "distinct (map fst (recv_wakers s))"
  proof -
    have "distinct (map fst (recv_wakers t))" using that t(2) by auto
    from registry_remove_gone [OF this] show ?thesis by simp
  qed
  have "receiver_gone k i s s'" if s': "(csstep k)\<^sup>*\<^sup>* ?t s'" for s'
  proof -
    have "emptied k s s'" by (rule emptied_later [OF t(1) s' tt inv]) (use t(1) in \<open>auto simp: emptied_def\<close>)
    moreover have "recv_wakers s' = recv_wakers ?t \<or> recv_wakers s' = []" using cssteps_recv_list [OF s'] by blast
    then have "j \<notin> fst ` set (recv_wakers s')" if "distinct (map fst (recv_wakers s))"
      using gone [OF that] by (elim disjE) simp_all
    ultimately show ?thesis using Some by (simp add: receiver_gone_def)
  qed
  with Some show ?thesis
    by (simp add: remove_stream_def wp_remove_recv_waker [OF mpmc_idle [OF it]])
      (rule csenders.guar_wp [OF csenders.guar_user(7) [OF u] inv], auto)
qed

lemma receiver_drop_last:
  assumes env: "admissible A mpmc_inv (csstep k) env" and A: "DoublePanic \<in> A" and s: "mpmc_inv s" and one: "receivers s = 1"
  shows "wp A (mpmc_receiver_drop env) (\<lambda>_ (s', j). receiver_gone k i s s' \<and> j = None)
    (\<lambda>_ (s', j). receiver_gone k i s s' \<and> j = None) (s, i)"
proof -
  from env have u: "user_code A mpmc_inv (csstep k) env" and iso: "isolates A env"
    by (auto simp: admissible_def)
  let ?s = "s\<lparr>receivers := 0\<rparr>"
  have step: "cstep k s ?s" using one crstep.drop_receiver [of s] by (simp add: cstep_def)
  have s0: "mpmc_inv ?s" using ceveryone.inv_step [OF s step] .
  have cleanup: "wp A (cleanup_drop env i) (\<lambda>_. receiver_gone k i s) (\<lambda>_. receiver_gone k i s) t"
    if "(csstep k)\<^sup>*\<^sup>* (?s\<lparr>send_wakers := []\<rparr>) t \<and> all_woken (send_wakers ?s) (new_log ?s t)" for t
  proof -
    have ct: "(csstep k)\<^sup>*\<^sup>* ?s t" using that csenders.take_steps [of k ?s t] by blast
    note keep = cssteps_keep [OF ct]
    have t: "mpmc_inv t" "receivers t = 0" using csenders.inv_steps [OF ct s0] keep(1) by auto
    have c: "contents t = contents s" using keep(3,8) by (simp add: mpmc_send_closed_iff)
    have st: "(cstep k)\<^sup>*\<^sup>* s t" using step cstep_of_csstep [OF ct] by (rule converse_rtranclp_into_rtranclp)
    have w: "all_woken (send_wakers s) (new_log s t)" using that by (simp add: new_log_def)
    have "emptied k s t' \<and> recv_wakers t' \<in> {recv_wakers s, []}" if d: "drained k t t'" "mpmc_inv t'" "contents t' = []" for t'
    proof -
      have tt: "(cstep k)\<^sup>*\<^sup>* t t'" using d by (simp add: drained_def)
      have "\<forall>x \<in> set (contents s). ItemDropped x \<in> set (new_log t t')" using d c by (auto simp: drained_def)
      with d st tt w ceveryone.new_log_mono [OF st tt] cssteps_recv_list [OF ct] show ?thesis
        by (auto simp: emptied_def drained_def all_woken_def)
    qed
    then show ?thesis
      using A unfolding cleanup_drop_def wp_with_guard
      by (intro wp_conseq [OF drain_steps [OF u A t]]) (auto intro!: wp_conseq [OF remove_stream_gone [OF u]])
  qed
  show ?thesis
    using one A
    by (simp add: mpmc_receiver_drop_def decr_receivers_def wp_simps take_slot_def wp_Ret_eq)
      (rule wp_conseq [OF csenders.wake_senders_wakes [OF u iso s0]], auto intro!: wp_conseq [OF cleanup])
qed

end
