(* ===== verification/Mpmc_Calls.thy ===== *)
theory Mpmc_Calls
  imports Mpmc_Receiver
begin

text \<open>
  What a program can do with the handles of an \<open>mpmc\<close> channel: the calls of \<open>src/mpmc/channel.rs\<close>,
  \<open>src/mpmc/send.rs\<close> and \<open>src/mpmc/recv.rs\<close>, whether a call returns or unwinds. The user code that runs
  inside a call is again any program that makes such calls, to any depth. Every call is a sequence
  of channel steps, so what holds along steps holds along calls.
\<close>

section \<open>Calls\<close>

text \<open>
  Which handles running code can reach. Inside an operation of a receiver that receiver is borrowed,
  so the last receiver cannot be dropped; while the last receiver is being dropped there are only
  senders.
\<close>

datatype reach = Whole | Borrowed | SendersOnly

text \<open>
  One call, from one state of the channel to the next. A handle that is cloned or dropped exists, and
  there are fewer than \<open>2 ^ 64\<close> of a kind. Between calls, user code changes its own state, and drops items
  and wakers that it owns.
\<close>

inductive mpmc_call :: "reach \<Rightarrow> ('t, 'u) mpmc \<Rightarrow> ('t, 'u) mpmc \<Rightarrow> bool" where
  user: "mpmc_call e s (s\<lparr>usr := u\<rparr>)"
| dropped: "d = ItemDropped x \<or> d = WakerDropped w \<Longrightarrow> mpmc_call e s (s\<lparr>log := log s @ [d]\<rparr>)"
| try_send: "admissible UNIV mpmc_inv (mpmc_call e) env \<Longrightarrow> mpmc_try_send env x s = (r, s') \<Longrightarrow> finished r
    \<Longrightarrow> mpmc_call e s s'"
| send_poll: "admissible UNIV mpmc_inv (mpmc_call e) env \<Longrightarrow> send_ok f \<Longrightarrow> mpmc_send_poll env w (s, f) = (p, (s', f'))
    \<Longrightarrow> finished p \<Longrightarrow> mpmc_call e s s'"
| send_drop: "admissible UNIV mpmc_inv (mpmc_call e) env \<Longrightarrow> mpmc_send_drop env (s, f) = (u, (s', f')) \<Longrightarrow> finished u
    \<Longrightarrow> mpmc_call e s s'"
| sender_close: "admissible UNIV mpmc_inv (mpmc_call e) env \<Longrightarrow> mpmc_sender_close env s = (b, s') \<Longrightarrow> finished b
    \<Longrightarrow> mpmc_call e s s'"
| sender_clone: "senders s \<noteq> 0 \<Longrightarrow> senders s + 1 \<noteq> 0 \<Longrightarrow> mpmc_sender_clone s = (u, s') \<Longrightarrow> mpmc_call e s s'"
| sender_drop: "admissible UNIV mpmc_inv (mpmc_call e) env \<Longrightarrow> senders s \<noteq> 0 \<Longrightarrow> mpmc_sender_drop env s = (u, s')
    \<Longrightarrow> finished u \<Longrightarrow> mpmc_call e s s'"
| try_recv: "e \<noteq> SendersOnly \<Longrightarrow> admissible UNIV mpmc_inv (mpmc_call Borrowed) env \<Longrightarrow> mpmc_try_recv env s = (v, s')
    \<Longrightarrow> finished v \<Longrightarrow> mpmc_call e s s'"
| try_iter_next: "e \<noteq> SendersOnly \<Longrightarrow> admissible UNIV mpmc_inv (mpmc_call Borrowed) env
    \<Longrightarrow> mpmc_try_iter_next env s = (q, s') \<Longrightarrow> finished q \<Longrightarrow> mpmc_call e s s'"
| poll_next: "e \<noteq> SendersOnly \<Longrightarrow> admissible UNIV mpmc_inv (mpmc_call Borrowed) env \<Longrightarrow> same_clones env
    \<Longrightarrow> receivers s \<noteq> 0 \<Longrightarrow> mpmc_poll_next env w (s, i) = (c, (s', j)) \<Longrightarrow> finished c \<Longrightarrow> mpmc_call e s s'"
| recv_poll: "e \<noteq> SendersOnly \<Longrightarrow> admissible UNIV mpmc_inv (mpmc_call Borrowed) env \<Longrightarrow> same_clones env
    \<Longrightarrow> receivers s \<noteq> 0 \<Longrightarrow> mpmc_recv_poll env w (s, g) = (c, (s', g')) \<Longrightarrow> finished c \<Longrightarrow> mpmc_call e s s'"
| recv_drop: "e \<noteq> SendersOnly \<Longrightarrow> admissible UNIV mpmc_inv (mpmc_call Borrowed) env
    \<Longrightarrow> mpmc_recv_drop env (s, g) = (u, (s', g')) \<Longrightarrow> finished u \<Longrightarrow> mpmc_call e s s'"
| receiver_close: "e \<noteq> SendersOnly \<Longrightarrow> admissible UNIV mpmc_inv (mpmc_call Borrowed) env
    \<Longrightarrow> mpmc_receiver_close env s = (b, s') \<Longrightarrow> finished b \<Longrightarrow> mpmc_call e s s'"
| receiver_clone: "e \<noteq> SendersOnly \<Longrightarrow> receivers s \<noteq> 0 \<Longrightarrow> receivers s + 1 \<noteq> 0 \<Longrightarrow> mpmc_receiver_clone s = (n, s')
    \<Longrightarrow> mpmc_call e s s'"
| receiver_drop: "e \<noteq> SendersOnly \<Longrightarrow> admissible UNIV mpmc_inv (mpmc_call e) env \<Longrightarrow> receivers s \<noteq> 0
    \<Longrightarrow> receivers s \<noteq> 1 \<Longrightarrow> mpmc_receiver_drop env (s, i) = (u, (s', j)) \<Longrightarrow> finished u \<Longrightarrow> mpmc_call e s s'"
| last_receiver_drop: "admissible UNIV mpmc_inv (mpmc_call SendersOnly) env \<Longrightarrow> receivers s = 1
    \<Longrightarrow> mpmc_receiver_drop env (s, i) = (u, (s', j)) \<Longrightarrow> finished u \<Longrightarrow> mpmc_call Whole s s'"

section \<open>Calls as steps\<close>

text \<open>
  A family \<open>R\<close> of step relations, one for each reach, along which calls can be followed: a sender's
  operations are steps for every reach, a receiver's where receivers can be reached, and the drop of the
  last receiver where everything can.
\<close>

locale calls =
  fixes R :: "reach \<Rightarrow> ('t, 'u) mpmc \<Rightarrow> ('t, 'u) mpmc \<Rightarrow> bool"
  assumes sending: "mpmc_sending (R e)"
    and consumer: "consuming (R Borrowed) True"
    and widen: "R Borrowed s s' \<Longrightarrow> (R Whole)\<^sup>*\<^sup>* s s'"
    and narrow: "R SendersOnly s s' \<Longrightarrow> (csstep True)\<^sup>*\<^sup>* s s'"
    and join: "receivers s \<noteq> 0 \<Longrightarrow> receivers s + 1 \<noteq> 0 \<Longrightarrow> R Borrowed s (s\<lparr>receivers := receivers s + 1\<rparr>)"
    and gone: "receivers s = 1 \<Longrightarrow> receiver_gone True i s s' \<Longrightarrow> (R Whole)\<^sup>*\<^sup>* s s'"

sublocale calls \<subseteq> reached: mpmc_sending "R e" for e
  by (rule sending)

sublocale calls \<subseteq> taken: consuming "R Borrowed" True
  by (rule consumer)

text \<open>The part of a paired state that the channel is.\<close>

lemma finished_fst:
  assumes "wp A m (\<lambda>_ (s', f'). P s') (\<lambda>_ (s', f'). P s') sf" and "m sf = (r, (s', f'))" and "finished r"
  shows "P s'"
  using wp_finished [OF assms] by simp

context calls
begin

lemma reach_of_borrowed:
  assumes "e \<noteq> SendersOnly" and "(R Borrowed)\<^sup>*\<^sup>* s s'"
  shows "(R e)\<^sup>*\<^sup>* s s'"
proof (cases e)
  case Whole
  from assms(2) have "(R Whole)\<^sup>*\<^sup>* s s'" by (induction rule: rtranclp_induct) (auto dest: widen)
  with Whole show ?thesis by simp
qed (use assms in simp_all)

lemma recv_calls:
  assumes env: "admissible UNIV mpmc_inv (R Borrowed) env" and s: "mpmc_inv s"
  shows "wp UNIV (mpmc_try_recv env) (\<lambda>_. (R Borrowed)\<^sup>*\<^sup>* s) (\<lambda>_. (R Borrowed)\<^sup>*\<^sup>* s) s"
    and "wp UNIV (mpmc_try_iter_next env) (\<lambda>_. (R Borrowed)\<^sup>*\<^sup>* s) (\<lambda>_. (R Borrowed)\<^sup>*\<^sup>* s) s"
proof -
  have u: "user_code UNIV mpmc_inv (R Borrowed) env" and i: "isolates UNIV env" using env by (auto simp: admissible_def)
  show recv: "wp UNIV (mpmc_try_recv env) (\<lambda>_. (R Borrowed)\<^sup>*\<^sup>* s) (\<lambda>_. (R Borrowed)\<^sup>*\<^sup>* s) s"
    unfolding mpmc_try_recv_def wp_bindM [of _ "try_take _"]
    by (rule wp_conseq [OF taken.try_take_steps [OF u i s]]) (auto simp: wp_simps take_result_def split: option.split)
  show "wp UNIV (mpmc_try_iter_next env) (\<lambda>_. (R Borrowed)\<^sup>*\<^sup>* s) (\<lambda>_. (R Borrowed)\<^sup>*\<^sup>* s) s"
    unfolding mpmc_try_iter_next_def wp_bindM [of _ "mpmc_try_recv _"]
    by (rule wp_conseq [OF recv]) (auto simp: wp_simps split: sum.split)
qed

lemma poll_calls:
  assumes env: "admissible UNIV mpmc_inv (R Borrowed) env" and c: "same_clones env" and s: "mpmc_inv s" and n: "receivers s \<noteq> 0"
  shows "wp UNIV (mpmc_poll_next env w) (\<lambda>_ (s', j). (R Borrowed)\<^sup>*\<^sup>* s s') (\<lambda>_ (s', j). (R Borrowed)\<^sup>*\<^sup>* s s') (s, i)"
    and "wp UNIV (mpmc_recv_poll env w) (\<lambda>_ (s', g'). (R Borrowed)\<^sup>*\<^sup>* s s') (\<lambda>_ (s', g'). (R Borrowed)\<^sup>*\<^sup>* s s') (s, g)"
proof -
  have u: "user_code UNIV mpmc_inv (R Borrowed) env" and iso: "isolates UNIV env" using env by (auto simp: admissible_def)
  have d: "Diverges \<notin> UNIV \<Longrightarrow> \<not> True \<and> 2 \<le> fuel env" by simp
  show "wp UNIV (mpmc_poll_next env w) (\<lambda>_ (s', j). (R Borrowed)\<^sup>*\<^sup>* s s') (\<lambda>_ (s', j). (R Borrowed)\<^sup>*\<^sup>* s s') (s, i)"
    unfolding mpmc_poll_next_def
    by (rule wp_conseq [OF taken.poll_any [OF u iso c d s n]]) (auto intro: taken.poll_any_steps taken.unwound_any_steps)
  show "wp UNIV (mpmc_recv_poll env w) (\<lambda>_ (s', g'). (R Borrowed)\<^sup>*\<^sup>* s s') (\<lambda>_ (s', g'). (R Borrowed)\<^sup>*\<^sup>* s s') (s, g)"
    by (rule wp_conseq [OF taken.recv_poll_any [OF u iso c d s n]]) (auto intro: taken.poll_any_steps split: if_splits)
qed

lemma recv_drop_call:
  assumes "admissible UNIV mpmc_inv (R Borrowed) env" and "mpmc_inv s"
  shows "wp UNIV (mpmc_recv_drop env) (\<lambda>_ (s', g'). (R Borrowed)\<^sup>*\<^sup>* s s') (\<lambda>_ (s', g'). (R Borrowed)\<^sup>*\<^sup>* s s') (s, g)"
proof -
  have u: "user_code UNIV mpmc_inv (R Borrowed) env" using assms by (auto simp: admissible_def)
  show ?thesis by (rule wp_conseq [OF taken.recv_drop_any [OF u assms(2)]]) auto
qed

text \<open>
  A receiver that is not the last one is dropped: whoever then runs may drop the others, the last one
  included.
\<close>

lemma other_receiver_drop_call:
  assumes "admissible UNIV mpmc_inv (R e) env" and e: "e \<noteq> SendersOnly" and s: "mpmc_inv s" and n: "receivers s \<noteq> 0" "receivers s \<noteq> 1"
  shows "wp UNIV (mpmc_receiver_drop env) (\<lambda>_ (s', j). (R e)\<^sup>*\<^sup>* s s') (\<lambda>_ (s', j). (R e)\<^sup>*\<^sup>* s s') (s, i)"
proof -
  let ?s = "s\<lparr>receivers := receivers s - 1\<rparr>"
  have u: "user_code UNIV mpmc_inv (R e) env" using assms(1) by (simp add: admissible_def)
  have left: "(R e)\<^sup>*\<^sup>* s ?s" using reach_of_borrowed [OF e] taken.leave_step [OF n] by blast
  have "waits (R Borrowed) ?s (withdraw_recv j ?s)" for j by (auto simp: waits_def)
  then have "(R e)\<^sup>*\<^sup>* ?s (withdraw_recv j ?s)" for j using reach_of_borrowed [OF e taken.waits_step] by blast
  with left have out: "(R e)\<^sup>*\<^sup>* s (withdraw_recv j ?s)" for j by (meson rtranclp_trans)
  have "idle ?s" using s by (simp add: mpmc_idle)
  with left out reached.guar_from [OF reached.guar_user(7) [OF u] out s]
  have "wp UNIV (remove_stream env i) (\<lambda>_. (R e)\<^sup>*\<^sup>* s) (\<lambda>_. (R e)\<^sup>*\<^sup>* s) ?s"
    by (cases i) (simp_all add: remove_stream_def wp_simps wp_remove_recv_waker)
  with n show ?thesis
    by (simp add: mpmc_receiver_drop_def decr_receivers_def wp_simps take_slot_def wp_Ret_eq)
qed

lemma receiver_clone_call:
  assumes "receivers s \<noteq> 0" and "receivers s + 1 \<noteq> 0" and "mpmc_receiver_clone s = (n, s')"
  shows "(R Borrowed)\<^sup>*\<^sup>* s s'"
  using join [of s] assms by (auto simp: mpmc_receiver_clone_def incr_receivers_def comp_eval)

lemma last_drop_call:
  assumes env: "admissible UNIV mpmc_inv (R SendersOnly) env" and "mpmc_inv s" and "receivers s = 1"
  shows "wp UNIV (mpmc_receiver_drop env) (\<lambda>_ (s', j). (R Whole)\<^sup>*\<^sup>* s s') (\<lambda>_ (s', j). (R Whole)\<^sup>*\<^sup>* s s') (s, i)"
proof -
  have "admissible UNIV mpmc_inv (csstep True) env"
    using env by (rule admissible_by_steps) (auto intro: csstep_inv narrow)
  from receiver_drop_last [OF this _ assms(2,3)] show ?thesis
    by (rule wp_conseq) (auto intro: gone [OF assms(3)])
qed

text \<open>
  Every call is a sequence of the steps that its reach allows. The induction is over the nesting of
  calls: the user code inside a call makes calls of its own.
\<close>

lemma inner_calls:
  assumes "admissible UNIV mpmc_inv (\<lambda>s s'. mpmc_call e s s' \<and> (mpmc_inv s \<longrightarrow> (R e)\<^sup>*\<^sup>* s s')) env"
  shows "admissible UNIV mpmc_inv (R e) env"
  using assms by (rule admissible_by_steps) (auto intro: reached.inv_step)

lemma call_steps: "mpmc_call e s s' \<Longrightarrow> mpmc_inv s \<Longrightarrow> (R e)\<^sup>*\<^sup>* s s'"
proof (induction rule: mpmc_call.induct)
  case (user e s u)
  have "R e s (s\<lparr>usr := u\<rparr>)" by (rule reached.csstep_step [OF csstep.user]) simp
  then show ?case by (rule r_into_rtranclp)
next
  case (dropped d x w e s)
  then have "R e s (s\<lparr>log := log s @ [d]\<rparr>)" by (intro reached.csstep_step [OF csstep.event]) auto
  then show ?case by (rule r_into_rtranclp)
next
  case (try_send e env x s r s')
  from guar_finished [OF reached.guar_try_send [OF inner_calls [OF try_send.IH]] try_send.prems try_send.hyps] show ?case .
next
  case (send_poll e env f w s p s' f')
  from finished_fst [OF reached.send_poll_call [OF inner_calls]] send_poll show ?case by blast
next
  case (send_drop e env s f u s' f')
  from finished_fst [OF reached.send_drop_call [OF inner_calls]] send_drop show ?case by blast
next
  case (sender_close e env s b s')
  from guar_finished [OF reached.guar_handle_close(1) [OF inner_calls [OF sender_close.IH]] sender_close.prems sender_close.hyps] show ?case .
next
  case (sender_clone s u s' e)
  from reached.sender_clone_call [OF sender_clone(1,2), of "{}"] sender_clone(3) show ?case
    by (cases u) (auto simp: wp_def)
next
  case (sender_drop e env s u s')
  from wp_finished [OF reached.sender_drop_call [OF inner_calls]] sender_drop show ?case by blast
next
  case (try_recv e env s v s')
  from wp_finished [OF recv_calls(1) [OF inner_calls [OF try_recv.IH] try_recv.prems] try_recv.hyps(2,3)]
  show ?case by (rule reach_of_borrowed [OF try_recv.hyps(1)])
next
  case (try_iter_next e env s q s')
  from wp_finished [OF recv_calls(2) [OF inner_calls [OF try_iter_next.IH] try_iter_next.prems] try_iter_next.hyps(2,3)]
  show ?case by (rule reach_of_borrowed [OF try_iter_next.hyps(1)])
next
  case (poll_next e env s w i c s' j)
  from finished_fst [OF poll_calls(1) [OF inner_calls [OF poll_next.IH] poll_next.hyps(2) poll_next.prems poll_next.hyps(3)] poll_next.hyps(4,5)]
  show ?case by (rule reach_of_borrowed [OF poll_next.hyps(1)])
next
  case (recv_poll e env s w g c s' g')
  from finished_fst [OF poll_calls(2) [OF inner_calls [OF recv_poll.IH] recv_poll.hyps(2) recv_poll.prems recv_poll.hyps(3)] recv_poll.hyps(4,5)]
  show ?case by (rule reach_of_borrowed [OF recv_poll.hyps(1)])
next
  case (recv_drop e env s g u s' g')
  from finished_fst [OF recv_drop_call [OF inner_calls [OF recv_drop.IH] recv_drop.prems] recv_drop.hyps(2,3)]
  show ?case by (rule reach_of_borrowed [OF recv_drop.hyps(1)])
next
  case (receiver_close e env s b s')
  from guar_finished [OF reached.guar_handle_close(2) [OF inner_calls [OF receiver_close.IH]] receiver_close.prems receiver_close.hyps(2,3)]
  show ?case by (rule reach_of_borrowed [OF receiver_close.hyps(1)])
next
  case (receiver_clone e s n s')
  from receiver_clone_call [OF receiver_clone.hyps(2-4)] show ?case by (rule reach_of_borrowed [OF receiver_clone.hyps(1)])
next
  case (receiver_drop e env s i u s' j)
  from finished_fst [OF other_receiver_drop_call [OF inner_calls [OF receiver_drop.IH] receiver_drop.hyps(1) receiver_drop.prems
    receiver_drop.hyps(2,3)] receiver_drop.hyps(4,5)]
  show ?case .
next
  case (last_receiver_drop env s i u s' j)
  from finished_fst [OF last_drop_call [OF inner_calls [OF last_receiver_drop.IH] last_receiver_drop.prems last_receiver_drop.hyps(1)]
    last_receiver_drop.hyps(2,3)]
  show ?case .
qed

lemma calls_steps: "(mpmc_call e)\<^sup>*\<^sup>* s s' \<Longrightarrow> mpmc_inv s \<Longrightarrow> (R e)\<^sup>*\<^sup>* s s'"
proof (induction rule: rtranclp_induct)
  case (step t u)
  then have "(R e)\<^sup>*\<^sup>* t u" using call_steps reached.inv_steps by blast
  with step show ?case by simp
qed simp

text \<open>User code that makes such calls is user code in the sense of the steps.\<close>

lemma calls_admissible:
  "admissible A mpmc_inv (mpmc_call e) env \<Longrightarrow> admissible A mpmc_inv (R e) env"
  by (erule admissible_by_steps) (auto intro: reached.inv_step call_steps)

end

section \<open>The steps of each reach\<close>

fun reach_step :: "reach \<Rightarrow> ('t, 'u) mpmc \<Rightarrow> ('t, 'u) mpmc \<Rightarrow> bool" where
  "reach_step Whole = cstep True"
| "reach_step Borrowed = bstep True"
| "reach_step SendersOnly = csstep True"

lemma reach_step_sending: "mpmc_sending (reach_step e)"
  by (cases e) (simp_all add: mpmc_sending_def cshared_ops.mpmc_sender_axioms cbusy_ops.mpmc_sender_axioms
    csender_ops.mpmc_sender_axioms)

interpretation all_calls: calls reach_step
proof (rule calls.intro, goal_cases)
  case (1 e)
  show ?case by (rule reach_step_sending)
next
  case 2
  show ?case using cany.consuming_axioms [of True] by simp
next
  case (5 s)
  then show ?case using crstep.clone_receiver [of s] by (simp add: bstep_def cstep_def)
qed (auto simp: bstep_def receiver_gone_def emptied_def)

end
