(* ===== verification/Mpmc_Promises.thy ===== *)
theory Mpmc_Promises
  imports Mpmc_Calls
begin

text \<open>
  Promises of the \<open>mpmc\<close> channel. The locale \<open>promise\<close> states what a relation \<open>G\<close> between an earlier
  and a later state has to satisfy, piece by piece, for every sequence of calls to satisfy it. Three
  promises are instances: parked senders and parked receivers are not forgotten, and a channel without
  receivers is empty.
\<close>

section \<open>The interface\<close>

abbreviation promised :: "(('t, 'u) mpmc \<Rightarrow> ('t, 'u) mpmc \<Rightarrow> bool) \<Rightarrow> reach \<Rightarrow> ('t, 'u) mpmc \<Rightarrow> ('t, 'u) mpmc \<Rightarrow> bool" where
  "promised G e \<equiv> kept (reach_step e) G"

lemma reach_csteps: "(reach_step e)\<^sup>*\<^sup>* s s' \<Longrightarrow> (cstep True)\<^sup>*\<^sup>* s s'"
  by (cases e) (auto intro: cstep_of_bstep cstep_of_csstep)

lemma reach_csstep: "csstep True s s' \<Longrightarrow> reach_step e s s'"
  by (cases e) (auto intro: cstep_csstep bstep_csstep)

locale promise =
  fixes G :: "('t, 'u) mpmc \<Rightarrow> ('t, 'u) mpmc \<Rightarrow> bool"
  assumes G_refl: "G s s"
    and G_trans: "(cstep True)\<^sup>*\<^sup>* s t \<Longrightarrow> (cstep True)\<^sup>*\<^sup>* t u \<Longrightarrow> G s t \<Longrightarrow> G t u \<Longrightarrow> G s u"
    and G_steady: "csstep True s s' \<Longrightarrow> steady s s' \<Longrightarrow> G s s'"
    and G_recv_woken: "csstep True s (take_recv t) \<Longrightarrow> gentle s t \<Longrightarrow> recv_wakers t = recv_wakers s
      \<Longrightarrow> (cstep True)\<^sup>*\<^sup>* (take_recv t) s' \<Longrightarrow> G (take_recv t) s' \<Longrightarrow> all_woken (recv_wakers s) (new_log s s') \<Longrightarrow> G s s'"
    and G_woken: "all_woken (send_wakers s) (new_log s s') \<Longrightarrow> G (s\<lparr>send_wakers := []\<rparr>) s' \<Longrightarrow> G s s'"
    and G_withdrawn: "G s (withdraw_send i s)"
    and G_closed: "(cstep True)\<^sup>*\<^sup>* (take_recv (s\<lparr>closed := True\<rparr>)) t \<Longrightarrow> (cstep True)\<^sup>*\<^sup>* t s'
      \<Longrightarrow> G (take_recv (s\<lparr>closed := True\<rparr>)) t \<Longrightarrow> G t s' \<Longrightarrow> all_woken (send_wakers t) (new_log t s')
      \<Longrightarrow> all_woken (recv_wakers s) (new_log s s') \<Longrightarrow> G s s'"
    and G_waits: "waits (\<lambda>_ _. False) s s' \<Longrightarrow> G s s'"
    and G_hand: "hands_out x s s' \<Longrightarrow> (redelivery s = None \<Longrightarrow> send_wakers s = []) \<Longrightarrow> G s s'"
    and G_park_item: "unqueued x s f \<Longrightarrow> G (s\<lparr>flavor := f, redelivery := Some x, send_wakers := []\<rparr>) s'
      \<Longrightarrow> all_woken (send_wakers s) (new_log s s') \<Longrightarrow> G s s'"
    and G_receivers: "receivers s \<noteq> 0 \<Longrightarrow> n \<noteq> 0 \<Longrightarrow> G s (s\<lparr>receivers := n\<rparr>)"
    and G_gone: "receivers s = 1 \<Longrightarrow> receiver_gone True j s s' \<Longrightarrow> G s s'"

sublocale promise \<subseteq> keep: keeping mpmc_inv "reach_step e" G for e
proof (rule keeping.intro [OF all_calls.reached.unparking_axioms], unfold_locales, goal_cases)
  case (2 s t u)
  then show ?case using G_trans reach_csteps by blast
next
  case (3 ev s)
  then show ?case by (intro G_steady csstep.event) simp_all
qed (auto intro: G_refl G_woken G_withdrawn)

context promise
begin

lemmas promised_star = keep.kept_star and promised_unparking = keep.kept_unparking

lemma promised_sending: "mpmc_sending (promised G e)"
  unfolding mpmc_sending_def
proof (rule mpmc_sender.intro [OF promised_unparking], unfold_locales, goal_cases)
  case (1 s s')
  then show ?case by (auto simp: kept_def intro: reach_csstep G_steady)
next
  case (2 s t s')
  have tt: "promised G e (take_recv t) s'" using 2(4) unfolding promised_star .
  have "(reach_step e)\<^sup>*\<^sup>* s s'"
    using tt reach_csstep [OF 2(1), of e] by (auto simp: kept_def intro: converse_rtranclp_into_rtranclp)
  moreover have "G s s'"
    using tt by (intro G_recv_woken [OF 2(1-3) _ _ 2(5)]) (auto simp: kept_def intro: reach_csteps)
  ultimately show ?case unfolding promised_star by (simp add: kept_def)
next
  case (3 s s')
  let ?c = "take_recv (s\<lparr>closed := True\<rparr>)"
  obtain t where t: "promised G e ?c t" "promised G e (t\<lparr>send_wakers := []\<rparr>) s'" "all_woken (send_wakers t) (new_log t s')"
    using 3(1) by (auto simp: senders_woken_def promised_star)
  then have "(promised G e)\<^sup>*\<^sup>* t s'"
    using unparking.take_steps [OF promised_unparking] by blast
  then have ts: "promised G e t s'" by (simp add: promised_star)
  have "(reach_step e)\<^sup>*\<^sup>* s ?c" using reach_csstep [OF csstep.close] by blast
  with t(1) ts have "(reach_step e)\<^sup>*\<^sup>* s s'" by (auto simp: kept_def)
  moreover have "G s s'"
    using t(1,3) ts 3(2) by (intro G_closed [of s t s']) (auto simp: kept_def intro: reach_csteps)
  ultimately show ?case unfolding promised_star by (simp add: kept_def)
qed

lemma promised_consuming: "consuming (promised G Borrowed) True"
proof (rule consuming.intro, goal_cases)
  case 1
  show ?case
    by (rule receiving.intro [OF promised_unparking], unfold_locales) (simp add: kept_def)
next
  case 2
  show ?case
  proof (unfold_locales, goal_cases)
    case (1 s s')
    then consider "promised G Borrowed s s'" | "waits (\<lambda>_ _. False) s s'" by (auto simp: waits_def)
    then show ?case
    proof cases
      case 2
      then have "bstep True s s'" by (intro waits_bstep) (auto simp: waits_def)
      with G_waits [OF 2] show ?thesis by (auto simp: kept_def)
    qed blast
  next
    case (2 x s s')
    then show ?case using hands_out_step [OF 2(1)] G_hand [OF 2(1)] by (auto simp: kept_def)
  next
    case (3 x s f s')
    then show ?case
      unfolding promised_star using park_item_taken [OF 3(1), of True s'] G_park_item [OF 3(1)] by (auto simp: kept_def)
  next
    case (4 s)
    then show ?case using cany.leave_step [of s True] G_receivers [of s "receivers s - 1"] by (auto simp: kept_def)
  qed
qed

end

sublocale promise \<subseteq> calls "promised G"
proof (rule calls.intro, goal_cases)
  case (1 e)
  show ?case by (rule promised_sending)
next
  case 2
  show ?case by (rule promised_consuming)
next
  case (3 s s')
  then show ?case unfolding promised_star by (auto simp: kept_def intro: cstep_of_bstep)
next
  case (5 s)
  then show ?case using all_calls.join [of s] G_receivers [of s "receivers s + 1"] by (auto simp: kept_def)
next
  case (6 s i s')
  then show ?case unfolding promised_star using all_calls.gone [of s i s'] G_gone [of s i s'] by (auto simp: kept_def)
qed (auto simp: kept_def)

section \<open>A parked sender is not forgotten\<close>

lemma heeds_gentle:
  assumes "csstep True s s'" and "gentle s s'"
  shows "heeds mpmc_send_closed i w s s'"
proof (rule heedsI)
  show "set (send_wakers s) \<subseteq> set (send_wakers s')" using assms(2) by simp
  show "at_capacity s' \<and> \<not> mpmc_send_closed s'" if "sender_waits mpmc_send_closed i w s"
    using assms that by cases (auto simp: sender_waits_def mpmc_send_closed_iff)
qed

lemma heeds_recv_woken:
  assumes "csstep True s (take_recv t)" and "gentle s t" and "(cstep True)\<^sup>*\<^sup>* (take_recv t) s'"
    and "heeds mpmc_send_closed i w (take_recv t) s'"
  shows "heeds mpmc_send_closed i w s s'"
proof (rule ceveryone.heeds_trans [OF _ assms(3) _ assms(4)])
  show "(cstep True)\<^sup>*\<^sup>* s (take_recv t)" using cstep_csstep [OF assms(1)] by blast
  show "heeds mpmc_send_closed i w s (take_recv t)" using assms(1,2) by (intro heeds_gentle) simp_all
qed

interpretation heed: promise "heeds mpmc_send_closed i w" for i w
proof (unfold_locales, goal_cases)
  case (2 s t u)
  then show ?case by (rule ceveryone.heeds_trans)
next
  case (6 s j)
  then show ?case by (rule heeds_withdrawn) (simp add: mpmc_send_closed_iff)
next
  case (7 s t s')
  then show ?case using ceveryone.heeds_closed [OF cstep_csstep [OF csstep.close]] by simp
next
  case (8 s s')
  then show ?case by (intro heedsI) (auto simp: waits_def sender_waits_def mpmc_send_closed_iff)
next
  case (9 x s s')
  then show ?case by (intro heedsI) (auto simp: hands_out_def unqueued_def sender_waits_def mpmc_send_closed_iff)
next
  case (11 s n)
  then show ?case by (intro heedsI) (auto simp: sender_waits_def mpmc_send_closed_iff)
next
  case (12 s j s')
  then show ?case by (intro heeds_woken) (simp add: receiver_gone_def emptied_def)
qed (auto intro: heeds_refl heeds_gentle heeds_recv_woken heeds_woken)

text \<open>Along any calls, from \<open>heed.calls_steps\<close>.\<close>

lemma calls_heed:
  assumes "(mpmc_call e)\<^sup>*\<^sup>* s s'" and "mpmc_inv s" and "sender_waits mpmc_send_closed i w s"
  shows "sender_waits mpmc_send_closed i w s' \<or> sender_let_go i w s s'"
  using heed.calls_steps [OF assms(1,2), of i w] assms(3)
  unfolding heed.promised_star by (auto simp: kept_def heeds_def)

text \<open>
  A call that closes the channel lets every parked sender go, and wakes every parked receiver. What the
  log says is meant here: a step that merely empties the list of parked senders keeps no promise.
\<close>

lemma close_lets_go:
  assumes "senders_woken (promised (heeds mpmc_send_closed i w) e) (take_recv (s\<lparr>closed := True\<rparr>)) s'"
    and "(i, w) \<in> set (send_wakers s)"
  shows "sender_let_go i w s s'"
proof -
  let ?c = "take_recv (s\<lparr>closed := True\<rparr>)"
  obtain t where t: "promised (heeds mpmc_send_closed i w) e ?c t" "all_woken (send_wakers t) (new_log t s')"
    and ts: "promised (heeds mpmc_send_closed i w) e (t\<lparr>send_wakers := []\<rparr>) s'"
    using assms(1) by (auto simp: senders_woken_def heed.promised_star)
  have ct: "(cstep True)\<^sup>*\<^sup>* ?c t" using t(1) by (auto simp: kept_def intro: reach_csteps)
  have "(cstep True)\<^sup>*\<^sup>* (t\<lparr>send_wakers := []\<rparr>) s'" using ts by (auto simp: kept_def intro: reach_csteps)
  then have s': "(cstep True)\<^sup>*\<^sup>* t s'" using t(2) by (rule ceveryone.take_steps)
  from t(1) show ?thesis
    by (intro ceveryone.let_go_closed [OF cstep_csstep [OF csstep.close] _ ct s' _ t(2) assms(2), of mpmc_send_closed]) (simp_all add: kept_def)
qed

definition all_let_go :: "('t, 'u) mpmc \<Rightarrow> ('t, 'u) mpmc \<Rightarrow> bool" where
  "all_let_go s s' \<longleftrightarrow> closed s' \<and> all_woken (recv_wakers s) (new_log s s')
     \<and> (\<forall>(i, w) \<in> set (send_wakers s). sender_let_go i w s s')"

lemma close_lets_all_go:
  assumes env: "admissible A mpmc_inv (mpmc_call e) env" and s: "mpmc_inv s" and c: "\<not> closed s"
  shows "wp A (mpmc_close env) (\<lambda>_. all_let_go s) (\<lambda>_. all_let_go s) s"
proof -
  let ?P = "\<lambda>s'. closed s' \<and> all_woken (recv_wakers s) (new_log s s')"
  have every: "wp A (mpmc_close env) (\<lambda>_ s'. (i, w) \<in> set (send_wakers s) \<longrightarrow> sender_let_go i w s s')
      (\<lambda>_ s'. (i, w) \<in> set (send_wakers s) \<longrightarrow> sender_let_go i w s s') s" for i w
    by (rule wp_conseq [OF heed.reached.close_steps [OF heed.calls_admissible [OF env, of i w] s]])
      (use c in \<open>auto intro: close_lets_go\<close>)
  have shut: "closed s'" if "senders_woken (reach_step e) (take_recv (s\<lparr>closed := True\<rparr>)) s'" for s'
    using csteps_keep(2) [OF reach_csteps [OF all_calls.reached.senders_woken_steps [OF that]]] by simp
  have "wp A (mpmc_close env) (\<lambda>_. ?P) (\<lambda>_. ?P) s"
    by (rule wp_conseq [OF all_calls.reached.close_steps [OF all_calls.calls_admissible [OF env] s]])
      (use c in \<open>auto intro: shut\<close>)
  from wp_conj [OF this wp_all [OF wp_all [OF every]]] show ?thesis
    by (rule wp_conseq) (auto simp: all_let_go_def)
qed

section \<open>A parked receiver is not forgotten\<close>

text \<open>
  A receiver waits: it is parked under \<open>i\<close> with the waker \<open>w\<close>, and there is nothing for it. It is let go
  when it was woken or withdrew. Once the last receiver is gone nobody waits.
\<close>

definition recv_waits :: "u64 \<Rightarrow> waker \<Rightarrow> ('t, 'u) mpmc \<Rightarrow> bool" where
  "recv_waits i w s \<longleftrightarrow> (i, w) \<in> set (recv_wakers s) \<and> contents s = [] \<and> \<not> mpmc_disconnected s"

definition recv_let_go :: "u64 \<Rightarrow> waker \<Rightarrow> ('t, 'u) mpmc \<Rightarrow> ('t, 'u) mpmc \<Rightarrow> bool" where
  "recv_let_go i w s s' \<longleftrightarrow> Woke w \<in> set (new_log s s') \<or> RecvWithdrawn i \<in> set (new_log s s')"

definition attends :: "u64 \<Rightarrow> waker \<Rightarrow> ('t, 'u) mpmc \<Rightarrow> ('t, 'u) mpmc \<Rightarrow> bool" where
  "attends i w s s' \<longleftrightarrow> receivers s' = 0 \<or> recv_let_go i w s s'
     \<or> ((i, w) \<in> set (recv_wakers s) \<longrightarrow> (i, w) \<in> set (recv_wakers s')) \<and> (recv_waits i w s \<longrightarrow> recv_waits i w s')"

lemma attendsI:
  "set (recv_wakers s) \<subseteq> set (recv_wakers s') \<Longrightarrow> (recv_waits i w s \<Longrightarrow> contents s' = [] \<and> \<not> mpmc_disconnected s')
    \<Longrightarrow> attends i w s s'"
  by (auto simp: attends_def recv_waits_def)

lemma attends_woken: "all_woken (recv_wakers s) (new_log s s') \<Longrightarrow> attends i w s s'"
  by (auto simp: attends_def recv_let_go_def recv_waits_def all_woken_def)

lemma recv_let_go_later:
  assumes "(cstep True)\<^sup>*\<^sup>* s t" and "(cstep True)\<^sup>*\<^sup>* t u" and "recv_let_go i w s t \<or> recv_let_go i w t u"
  shows "recv_let_go i w s u"
  using assms(3) ceveryone.new_log_mono [OF assms(1,2)] by (auto simp: recv_let_go_def)

lemma attends_trans:
  assumes "(cstep True)\<^sup>*\<^sup>* s t" and "(cstep True)\<^sup>*\<^sup>* t u" and "attends i w s t" and "attends i w t u"
  shows "attends i w s u"
  using assms(3,4) recv_let_go_later [OF assms(1,2), of i w] csteps_keep(4) [OF assms(2)] by (auto simp: attends_def)

lemma attends_steady:
  assumes "csstep True s s'" and "steady s s'"
  shows "attends i w s s'"
proof (rule attendsI)
  show "set (recv_wakers s) \<subseteq> set (recv_wakers s')" using assms(2) by simp
  show "contents s' = [] \<and> \<not> mpmc_disconnected s'" if "recv_waits i w s"
    using assms that by cases (auto simp: recv_waits_def mpmc_disconnected_def dest: word_gt_one)
qed

lemma attends_waits:
  assumes "waits (\<lambda>_ _. False) s s'"
  shows "attends i w s s'"
proof -
  have "attends i w s (withdraw_recv j s)" for j
    using withdraw_recv_keeps [of i w s j] by (auto simp: attends_def recv_let_go_def recv_waits_def mpmc_disconnected_def)
  moreover have "attends i w s s'" if "\<forall>j. s' \<noteq> withdraw_recv j s"
    using assms that by (intro attendsI) (auto simp: waits_def recv_waits_def mpmc_disconnected_def)
  ultimately show ?thesis by blast
qed

lemma attends_nonempty: "contents s \<noteq> [] \<Longrightarrow> recv_wakers t = recv_wakers s \<Longrightarrow> attends i w t s' \<Longrightarrow> new_log t s' = new_log s s' \<Longrightarrow> attends i w s s'"
  by (auto simp: attends_def recv_waits_def recv_let_go_def)

interpretation attend: promise "attends i w" for i w
proof (unfold_locales, goal_cases)
  case (2 s t u)
  then show ?case by (rule attends_trans)
next
  case (5 s s')
  then show ?case by (simp add: attends_def recv_waits_def recv_let_go_def mpmc_disconnected_def new_log_def)
next
  case (9 x s s')
  then show ?case by (intro attendsI) (auto simp: hands_out_def unqueued_def recv_waits_def)
next
  case (10 x s f s')
  then show ?case by (intro attends_nonempty [OF _ _ 10(2)]) (auto simp: unqueued_def new_log_def)
next
  case (11 s n)
  then show ?case by (intro attendsI) (auto simp: recv_waits_def mpmc_disconnected_def)
next
  case (12 s j s')
  then show ?case by (simp add: attends_def receiver_gone_def emptied_def)
qed (auto simp: recv_waits_def mpmc_disconnected_def intro: attends_steady attends_waits attends_woken attendsI)

lemma calls_attend:
  assumes "(mpmc_call e)\<^sup>*\<^sup>* s s'" and "mpmc_inv s"
  shows "attends i w s s'"
  using attend.calls_steps [OF assms, of i w] unfolding attend.promised_star by (simp add: kept_def)

text \<open>A poll that enlisted its waker: the waker is on the list when the poll returns, or it was let go.\<close>

lemma enlisted_attends:
  assumes "enlisted (promised (attends i w) Borrowed) i w s s'"
  shows "(bstep True)\<^sup>*\<^sup>* s s'" and "receivers s' = 0 \<or> (i, w) \<in> set (recv_wakers s') \<or> recv_let_go i w s s'"
proof -
  let ?u = "\<lambda>t :: ('a, 'b) mpmc. t\<lparr>recv_wakers := recv_wakers t @ [(i, w)]\<rparr>"
  obtain t where t: "(waits (promised (attends i w) Borrowed))\<^sup>*\<^sup>* s t" "\<not> mpmc_terminal t"
    and u: "promised (attends i w) Borrowed (?u t) s'"
    using assms unfolding enlisted_def attend.promised_star by blast
  show "(bstep True)\<^sup>*\<^sup>* s s'" using attend.taken.waits_bsteps [OF attend.taken.enlisted_waits [OF assms]] .
  have "cstep True t (?u t)" using crstep.store [OF t(2)] by (rule cstep_crstep)
  with cstep_of_bstep [OF attend.taken.waits_bsteps [OF t(1)]] have su: "(cstep True)\<^sup>*\<^sup>* s (?u t)"
    by (rule rtranclp.rtrancl_into_rtrancl)
  have us: "(cstep True)\<^sup>*\<^sup>* (?u t) s'" and a: "attends i w (?u t) s'" using u by (auto simp: kept_def intro: cstep_of_bstep)
  from a recv_let_go_later [OF su us, of i w]
  show "receivers s' = 0 \<or> (i, w) \<in> set (recv_wakers s') \<or> recv_let_go i w s s'" by (auto simp: attends_def)
qed

section \<open>A channel without receivers is empty\<close>

definition nothing_stranded :: "('t, 'u) mpmc \<Rightarrow> bool" where
  "nothing_stranded s \<longleftrightarrow> (receivers s = 0 \<longrightarrow> contents s = [])"

lemma stranded_csstep: "csstep True s s' \<Longrightarrow> nothing_stranded s \<Longrightarrow> nothing_stranded s'"
  using csstep_keeps(1,3,8) [of True s s'] by (auto simp: nothing_stranded_def mpmc_send_closed_iff)

interpretation empty: promise "\<lambda>s s'. nothing_stranded s \<longrightarrow> nothing_stranded s'"
proof (unfold_locales, goal_cases)
  case (3 s s')
  then show ?case using stranded_csstep by blast
next
  case (4 s t s')
  then show ?case using stranded_csstep by blast
next
  case (9 x s s')
  then show ?case using hands_out_contents [OF 9(1)] by (auto simp: nothing_stranded_def hands_out_def)
next
  case (10 x s f s')
  then show ?case by (auto simp: nothing_stranded_def unqueued_def)
next
  case (12 s j s')
  then show ?case by (simp add: nothing_stranded_def receiver_gone_def emptied_def)
qed (auto simp: nothing_stranded_def waits_def)

lemma calls_stranded:
  assumes "(mpmc_call e)\<^sup>*\<^sup>* s s'" and "mpmc_inv s" and "nothing_stranded s"
  shows "nothing_stranded s'"
  using empty.calls_steps [OF assms(1,2)] assms(3) unfolding empty.promised_star by (simp add: kept_def)

end
