(* ===== verification/Mpmc_Theorems.thy ===== *)
theory Mpmc_Theorems
  imports Mpmc_Promises Storage_Theorems
begin

text \<open>
  The properties of the \<open>mpmc\<close> channel. Each quantifies over the user code: any callbacks that act on
  the channel by its own steps, nested to any depth, panicking or not.
\<close>

section \<open>Sample channels\<close>

lemma mpmc_new_inv:
  assumes "flavor_inv f" and "flavor_list f = []"
  shows "mpmc_inv (mpmc_new f u)"
  using assms by (simp add: mpmc_inv_def mpmc_new_def idle_def ids_ok_new)

lemma mpmc_bounded_new:
  assumes "mpmc_bounded cap u = Ret s0" and "unat cap \<le> 2 ^ 63"
  shows "mpmc_inv s0" and "capacity s0 = Some (unat cap)" and "queue s0 = []"
proof -
  have pos: "0 < unat cap" and s0: "s0 = mpmc_new (flavor_bounded cap) u"
    using assms(1) by (auto simp: mpmc_bounded_def unat_gt_0 word_gt_0 split: if_splits)
  note spec = flavor_bounded_spec [OF pos assms(2)]
  show "mpmc_inv s0" unfolding s0 by (rule mpmc_new_inv) (simp_all add: spec)
  show "capacity s0 = Some (unat cap)" and "queue s0 = []" by (simp_all add: s0 mpmc_new_def spec)
qed

lemma mpmc_unbounded_new:
  assumes "mpmc_unbounded al u = Ret (s0 :: ('t, 'u) mpmc)" and "allocator_ok al"
  shows "mpmc_inv s0" and "queue s0 = []"
proof -
  obtain f :: "'t flavor" where f: "flavor_unbounded al = Ret f" "flavor_inv f" "flavor_list f = []"
    using flavor_unbounded_spec [OF assms(2), where 't = 't] assms(1) by (auto simp: mpmc_unbounded_def)
  then have s0: "s0 = mpmc_new f u" using assms(1) by (simp add: mpmc_unbounded_def)
  show "mpmc_inv s0" unfolding s0 by (rule mpmc_new_inv [OF f(2,3)])
  show "queue s0 = []" by (simp add: s0 mpmc_new_def f)
qed

text \<open>The constructors of a channel exclude each other.\<close>

lemma mpmc_constructors:
  assumes "mpmc_bounded cap u = Ret s0 \<and> unat cap \<le> 2 ^ 63 \<or> mpmc_unbounded al u = Ret s0 \<and> allocator_ok al"
  shows "mpmc_inv s0" and "queue s0 = []" and "mpmc_bounded cap u = Ret s0 \<Longrightarrow> capacity s0 = Some (unat cap)"
  using assms mpmc_bounded_new [of cap u s0] mpmc_unbounded_new [of al u s0]
  by (auto simp: mpmc_bounded_def mpmc_unbounded_def mpmc_new_def flavor_bounded_def flavor_unbounded_def
      split: if_splits outcome.splits)

definition open2 :: "(nat, unit) mpmc" where
  "open2 = mpmc_new (flavor_bounded 2) ()"

lemma open2_bounded: "mpmc_bounded 2 () = Ret open2"
  by (simp add: mpmc_bounded_def open2_def)

lemma open2_inv: "mpmc_inv open2"
  using mpmc_bounded_new(1) [OF open2_bounded] by simp

text \<open>The same channel after one message was sent, and after a stream polled it in vain.\<close>

definition open2_sent :: "(nat, unit) mpmc" where
  "open2_sent = snd (mpmc_try_send (quiet_env True) 7 open2)"

definition open2_parked :: "(nat, unit) mpmc" where
  "open2_parked = fst (snd (mpmc_poll_recv (quiet_env True) 5 (open2, None)))"

lemma open2_send: "mpmc_try_send (quiet_env True) 7 open2 = (Ret (Inr ()), open2_sent)"
proof -
  have "fst (mpmc_try_send (quiet_env True) 7 open2) = Ret (Inr ())" by code_simp
  then show ?thesis by (simp add: open2_sent_def prod_eq_iff)
qed

lemma open2_poll: "mpmc_poll_recv (quiet_env True) 5 (open2, None) = (Ret Pending, (open2_parked, Some 0))"
proof -
  have "fst (mpmc_poll_recv (quiet_env True) 5 (open2, None)) = Ret Pending"
    and "snd (snd (mpmc_poll_recv (quiet_env True) 5 (open2, None))) = Some 0" by code_simp+
  then show ?thesis by (simp add: open2_parked_def prod_eq_iff)
qed

lemma open2_sent_steps: "(cstep k)\<^sup>*\<^sup>* open2 open2_sent"
  by (rule guar_run [OF cshared_ops.guar_try_send open2_inv open2_send, of UNIV]) (simp add: admissible_quiet)

lemma open2_sent_inv: "mpmc_inv open2_sent"
  using ceveryone.inv_steps [OF open2_sent_steps open2_inv] .

lemma open2_parked_inv: "mpmc_inv open2_parked"
proof -
  have "receivers open2 \<noteq> 0" by code_simp
  then have "slot_polled (bstep True) (take_result (bstep True)) 5 open2 Pending open2_parked (Some 0)"
    using wp_RetD [OF cany.poll_any [of UNIV True "quiet_env True" open2 5 None] open2_poll] open2_inv admissible_quiet [of UNIV]
    by (auto simp: user_code_quiet clones_quiet admissible_def)
  from cbusy.inv_steps [OF cany.poll_any_steps [OF this] open2_inv] show ?thesis .
qed

text \<open>
  User code that re-enters the channel and panics: waking sends, one level less deep; and waking
  receives.
\<close>

fun resend_env :: "nat \<Rightarrow> ((nat, unit) mpmc, nat) env" where
  "resend_env 0 = quiet_env True"
| "resend_env (Suc n) = (quiet_env True)\<lparr>wake_cb := \<lambda>w. bindM (mpmc_try_send (resend_env n) w) (\<lambda>r.
     if r = Inr () then ret () else panic (UserPanic w))\<rparr>"

lemma resend_csstep: "admissible UNIV mpmc_inv (csstep k) (resend_env n)"
proof (induction n)
  case (Suc n)
  show ?case
    using csender_ops.guar_try_send [OF Suc.IH]
    by (auto intro!: admissible_wake_cb admissible_quiet csenders.guar_intros)
qed (simp add: admissible_quiet)

lemma resend_admissible: "admissible UNIV mpmc_inv (cstep k) (resend_env n)"
  by (rule admissible_mono [OF resend_csstep [of k]]) (simp add: cstep_def)

lemma resend_clones: "same_clones (resend_env n)" and resend_fuel: "fuel (resend_env n) = 2"
  by (cases n; simp add: same_clones_def quiet_env_def ret_def)+

definition consuming_env :: "((nat, unit) mpmc, nat) env" where
  "consuming_env = (quiet_env True)\<lparr>wake_cb := \<lambda>w. thenM (mpmc_try_recv (quiet_env True)) (ret ())\<rparr>"

section \<open>Order, loss and capacity\<close>

text \<open>
  C1. Whatever calls any number of producers and consumers make on a channel, bounded or unbounded,
  returning or unwinding, with user code inside that makes calls of its own, the items taken out (by
  consumers, and in the end by the drop of the last receiver), followed by the one in the redelivery slot, followed by those still queued, are exactly the items
  that were put in, in that order: nothing is lost, duplicated or reordered. The queue of a bounded
  channel never exceeds the capacity, and with the item in the slot the channel holds at most one
  more. Once the last receiver is gone the channel is empty, so that no item is stranded there. No
  cell is left borrowed.
\<close>

theorem mpmc_fifo:
  assumes "mpmc_bounded cap u = Ret s0 \<and> unat cap \<le> 2 ^ 63 \<or> mpmc_unbounded al u = Ret s0 \<and> allocator_ok al"
    and "(mpmc_call Whole)\<^sup>*\<^sup>* s0 s"
  shows "pushed (log s) = popped (log s) @ contents s
    \<and> (mpmc_bounded cap u = Ret s0 \<longrightarrow> length (queue s) \<le> unat cap \<and> length (contents s) \<le> unat cap + 1)
    \<and> (receivers s = 0 \<longrightarrow> contents s = []) \<and> idle s"
proof -
  note s0 = mpmc_constructors [OF assms(1)]
  have steps: "(cstep True)\<^sup>*\<^sup>* s0 s" using all_calls.calls_steps [OF assms(2) s0(1)] by simp
  have "mpmc_inv s" using ceveryone.inv_steps [OF steps s0(1)] .
  moreover have "capacity s = Some (unat cap)" if "mpmc_bounded cap u = Ret s0"
    using csteps_keep(1) [OF steps] s0(3) [OF that] by simp
  moreover have "nothing_stranded s0"
    using assms(1) by (auto simp: nothing_stranded_def mpmc_bounded_def mpmc_unbounded_def mpmc_new_def split: if_splits outcome.splits)
  then have "nothing_stranded s" by (rule calls_stranded [OF assms(2) s0(1)])
  ultimately show ?thesis
    using flavor.within_cap [of "flavor s" "unat cap"] by (auto simp: mpmc_inv_def nothing_stranded_def split: option.split)
qed

text \<open>A run of calls: send, then receive with a waker that receives in turn.\<close>

lemma open2_call: "mpmc_call e open2 open2_sent"
  by (rule mpmc_call.try_send [OF admissible_quiet open2_send]) simp_all

lemma open2_consumed: "mpmc_call Whole open2_sent (snd (mpmc_try_recv consuming_env open2_sent))"
proof -
  have "guar UNIV mpmc_inv (bstep True) (mpmc_try_recv (quiet_env True) :: ((nat, unit) mpmc, _) comp)"
    using all_calls.recv_calls(1) [OF admissible_quiet] by (intro guarI) simp
  then have "guar UNIV mpmc_inv (mpmc_call Borrowed) (mpmc_try_recv (quiet_env True) :: ((nat, unit) mpmc, _) comp)"
    by (rule guar_one_call) (blast intro: mpmc_call.try_recv admissible_quiet)
  then have "admissible UNIV mpmc_inv (mpmc_call Borrowed) consuming_env"
    unfolding consuming_env_def
    by (intro admissible_wake_cb admissible_quiet) (auto simp: guar_def wp_simps elim!: wp_conseq)
  moreover have "fst (mpmc_try_recv consuming_env open2_sent) = Ret (Inr 7)" by code_simp
  ultimately show ?thesis
    by (intro mpmc_call.try_recv [where env = consuming_env and v = "Ret (Inr 7)"]) (simp_all add: prod_eq_iff)
qed

text \<open>An unbounded channel, its blocks from the sample allocator, and one message sent on it.\<close>

definition unbounded :: "(nat, unit) mpmc" where
  "unbounded = (case mpmc_unbounded bump_alloc () of Ret s \<Rightarrow> s | _ \<Rightarrow> open2)"

definition unbounded_with_item :: "(nat, unit) mpmc" where
  "unbounded_with_item = snd (mpmc_try_send (quiet_env True) 7 unbounded)"

lemma unbounded_runs:
  "mpmc_unbounded bump_alloc () = Ret unbounded"
  "mpmc_try_send (quiet_env True) 7 unbounded = (Ret (Inr ()), unbounded_with_item)"
proof -
  have "case mpmc_unbounded bump_alloc () of Ret (s :: (nat, unit) mpmc) \<Rightarrow> True | _ \<Rightarrow> False"
    and "fst (mpmc_try_send (quiet_env True) 7 unbounded) = Ret (Inr ())" by code_simp+
  then show "mpmc_unbounded bump_alloc () = Ret unbounded"
    and "mpmc_try_send (quiet_env True) 7 unbounded = (Ret (Inr ()), unbounded_with_item)"
    by (simp_all add: unbounded_def unbounded_with_item_def prod_eq_iff split: outcome.splits)
qed

theorem mpmc_fifo_witness:
  "popped (log (snd (mpmc_try_recv consuming_env open2_sent))) = [7]
    \<and> pushed (log (snd (mpmc_try_recv consuming_env open2_sent))) = [7]
    \<and> pushed (log unbounded_with_item) = popped (log unbounded_with_item) @ contents unbounded_with_item"
proof -
  let ?s = "snd (mpmc_try_recv consuming_env open2_sent)"
  have "(mpmc_call Whole)\<^sup>*\<^sup>* open2 ?s" using open2_call open2_consumed by (meson r_into_rtranclp rtranclp.rtrancl_into_rtrancl)
  from mpmc_fifo [OF _ this, of 2 "()"] open2_bounded have "pushed (log ?s) = popped (log ?s) @ contents ?s" by simp
  moreover have "contents ?s = []" "popped (log ?s) = [7]" by code_simp+
  moreover have "(mpmc_call Whole)\<^sup>*\<^sup>* unbounded unbounded_with_item"
    by (intro r_into_rtranclp mpmc_call.try_send [OF admissible_quiet unbounded_runs(2)]) simp_all
  from mpmc_fifo [OF _ this, of _ "()" bump_alloc]
  have "pushed (log unbounded_with_item) = popped (log unbounded_with_item) @ contents unbounded_with_item"
    by (simp only: unbounded_runs(1) bump_alloc_ok simp_thms)
  ultimately show ?thesis by simp
qed

text \<open>
  What the handles report. On a bounded channel, after any calls, \<open>capacity\<close> is the capacity it was
  made with, \<open>len\<close> counts the queued items and the one in the redelivery slot and so exceeds the
  capacity by at most one, \<open>is_empty\<close> answers whether there is anything left to receive, and
  \<open>is_full\<close> whether the queue alone is at capacity. None of them changes anything, and the sum in
  \<open>len\<close> does not wrap.
\<close>

theorem mpmc_accessors:
  assumes "mpmc_bounded cap u = Ret s0" and "unat cap \<le> 2 ^ 63" and "(mpmc_call Whole)\<^sup>*\<^sup>* s0 s"
  shows "mpmc_sender_capacity s = (Ret (Some cap), s)
    \<and> (\<exists>n. mpmc_sender_len s = (Ret n, s) \<and> unat n = length (contents s) \<and> unat n \<le> unat cap + 1)
    \<and> mpmc_sender_is_empty s = (Ret (contents s = []), s)
    \<and> mpmc_sender_is_full s = (Ret (length (queue s) = unat cap), s)"
proof -
  note s0 = mpmc_bounded_new [OF assms(1,2)]
  have steps: "(cstep True)\<^sup>*\<^sup>* s0 s" using all_calls.calls_steps [OF assms(3) s0(1)] by simp
  have "mpmc_inv s" using ceveryone.inv_steps [OF steps s0(1)] .
  then have i: "idle s" "flavor_inv (flavor s)" by (simp_all add: mpmc_inv_def)
  have c: "capacity s = Some (unat cap)" using csteps_keep(1) [OF steps] s0(2) by simp
  note len = flavor.len [OF i(2)] and bound = flavor.within_cap [OF i(2) c]
  have "map_option unat (flavor_cap (flavor s)) = Some (unat cap)" using flavor_cap_eq [OF i(2)] c by simp
  then have "mpmc_sender_capacity s = (Ret (Some cap), s)"
    using i by (auto simp: mpmc_sender_capacity_def chan_cap_def borrow_gets word_unat_eq_iff)
  moreover have "mpmc_sender_is_full s = (Ret (length (queue s) = unat cap), s)"
    using i c flavor_is_full_iff [OF i(2)] by (auto simp: mpmc_sender_is_full_def chan_is_full_def borrow_gets)
  moreover have "mpmc_sender_is_empty s = (Ret (contents s = []), s)"
    using i flavor_is_empty_iff [OF i(2)]
    by (auto simp: mpmc_sender_is_empty_def mpmc_is_empty_def bindM_def ret_def borrow_gets split: option.split)
  moreover have "mpmc_sender_len s = (Ret (flavor_len (flavor s) + (if redelivery s = None then 0 else 1)), s)"
    using i by (simp add: mpmc_sender_len_def mpmc_len_def bindM_def ret_def borrow_gets)
  moreover have "unat (flavor_len (flavor s) + (if redelivery s = None then 0 else 1)) = length (contents s)"
    using len bound assms(2) unat_suc_nowrap [of "flavor_len (flavor s)"] by (auto split: option.splits)
  ultimately show ?thesis using bound by (auto split: option.splits)
qed

theorem mpmc_accessors_witness:
  "mpmc_sender_capacity open2_sent = (Ret (Some 2), open2_sent) \<and> mpmc_sender_is_empty open2_sent = (Ret False, open2_sent)
    \<and> mpmc_sender_is_full open2_sent = (Ret False, open2_sent)"
proof -
  have "(mpmc_call Whole)\<^sup>*\<^sup>* open2 open2_sent" using open2_call by (rule r_into_rtranclp)
  moreover have "contents open2_sent \<noteq> []" "length (queue open2_sent) = 1" by code_simp+
  ultimately show ?thesis using mpmc_accessors [OF open2_bounded, of open2_sent] by simp
qed

section \<open>Every operation is made of steps\<close>

text \<open>
  C8. The operations on the sending side are safe under re-entrancy: \<open>try_send\<close>, \<open>close\<close> from either
  side, \<open>Clone\<close> and \<open>Drop\<close> of a \<open>Sender\<close>, the poll of a well-formed \<open>Send\<close> future and its \<open>Drop\<close>, and the
  functions under them that wake, park and withdraw. From any state that satisfies the invariant, with
  any admissible user code running inside (wakers that send, receive, close, drop handles or panic), each
  is a sequence of channel steps, returned or unwound: it never double-borrows a cell, never touches
  uninitialised or freed memory, aborts only for the reasons allowed, and so keeps the invariant. A
  sender that is cloned or dropped exists, and their number does not wrap; a poll of \<open>Send\<close> may also
  abort on a second panic, in its guard.
\<close>

theorem mpmc_sender_ops_safe:
  assumes "admissible A mpmc_inv (cstep True) env" and "mpmc_inv s"
  shows "guar A mpmc_inv (cstep True) (mpmc_try_send env x) \<and> guar A mpmc_inv (cstep True) (mpmc_sender_close env)
    \<and> guar A mpmc_inv (cstep True) (mpmc_receiver_close env) \<and> guar A mpmc_inv (cstep True) (wake_receivers env)
    \<and> guar A mpmc_inv (cstep True) (wake_senders env) \<and> guar A mpmc_inv (cstep True) (add_send_waker env w)
    \<and> guar A mpmc_inv (cstep True) (remove_send_waker env i)
    \<and> (senders s \<noteq> 0 \<longrightarrow> senders s + 1 \<noteq> 0
         \<longrightarrow> wp A mpmc_sender_clone (\<lambda>_ s'. (cstep True)\<^sup>*\<^sup>* s s' \<and> s' = s\<lparr>senders := senders s + 1\<rparr>) (\<lambda>_ _. False) s)
    \<and> (senders s \<noteq> 0 \<longrightarrow> wp A (mpmc_sender_drop env) (\<lambda>_. (cstep True)\<^sup>*\<^sup>* s) (\<lambda>_. (cstep True)\<^sup>*\<^sup>* s) s)
    \<and> (send_ok f \<longrightarrow> DoublePanic \<in> A \<longrightarrow> wp A (mpmc_send_poll env w)
         (\<lambda>_ (s', f'). (cstep True)\<^sup>*\<^sup>* s s') (\<lambda>_ (s', f'). (cstep True)\<^sup>*\<^sup>* s s') (s, f))
    \<and> wp A (mpmc_send_drop env) (\<lambda>_ (s', f'). (cstep True)\<^sup>*\<^sup>* s s') (\<lambda>_ (s', f'). (cstep True)\<^sup>*\<^sup>* s s') (s, f)"
proof -
  have u: "user_code A mpmc_inv (cstep True) env" and i: "isolates A env" using assms(1) by (auto simp: admissible_def)
  show ?thesis
    by (intro conjI impI cshared_ops.guar_try_send cshared_ops.guar_handle_close cshared_ops.guar_wake_receivers
        ceveryone.guar_wake_senders cparking.guar_add_send_waker ceveryone.guar_remove_send_waker
        cshared_ops.sender_clone_call cshared_ops.sender_drop_call mpmc_send.send_poll_call mpmc_send.send_drop_call assms u i)
qed

theorem mpmc_sender_ops_safe_witness:
  "guar UNIV mpmc_inv (cstep True) (mpmc_try_send (resend_env 3) 7)
    \<and> wp UNIV (mpmc_sender_drop (resend_env 3)) (\<lambda>_. (cstep True)\<^sup>*\<^sup>* open2_parked) (\<lambda>_. (cstep True)\<^sup>*\<^sup>* open2_parked) open2_parked"
proof -
  have "senders open2_parked \<noteq> 0" by code_simp
  with mpmc_sender_ops_safe [OF resend_admissible open2_parked_inv, of 3] show ?thesis by blast
qed

text \<open>
  C7. The operations of a receiver are safe under re-entrancy too. User code that runs inside may do
  everything but drop the last receiver, which the running operation borrows: in particular it may
  itself receive. \<open>try_recv\<close>, a poll of the stream and of the \<open>Recv\<close> future, dropping that future,
  and dropping a receiver that is not the last are sequences of channel steps, returned or unwound,
  without fault.
\<close>

theorem mpmc_receiver_ops_safe:
  assumes "admissible A mpmc_inv (bstep k) env" and "same_clones env" and "Diverges \<in> A"
    and "mpmc_inv s" and "receivers s \<noteq> 0"
  shows "wp A (mpmc_try_recv env) (\<lambda>_. (bstep k)\<^sup>*\<^sup>* s) (\<lambda>_. (bstep k)\<^sup>*\<^sup>* s) s
    \<and> wp A (mpmc_poll_recv env w) (\<lambda>_ (s', j). (bstep k)\<^sup>*\<^sup>* s s') (\<lambda>_ (s', j). (bstep k)\<^sup>*\<^sup>* s s') (s, i)
    \<and> wp A (mpmc_recv_poll env w) (\<lambda>_ (s', g). (bstep k)\<^sup>*\<^sup>* s s') (\<lambda>_ (s', g). (bstep k)\<^sup>*\<^sup>* s s') (s, f)
    \<and> wp A (mpmc_recv_drop env) (\<lambda>_ (s', g). (bstep k)\<^sup>*\<^sup>* s s') (\<lambda>_ (s', g). (bstep k)\<^sup>*\<^sup>* s s') (s, f)
    \<and> (receivers s \<noteq> 1 \<longrightarrow>
        wp A (mpmc_receiver_drop env) (\<lambda>_ (s', j). (bstep k)\<^sup>*\<^sup>* s s') (\<lambda>_ (s', j). (bstep k)\<^sup>*\<^sup>* s s') (s, i))"
proof (intro conjI impI)
  have u: "user_code A mpmc_inv (bstep k) env" and iso: "isolates A env" using assms(1) by (auto simp: admissible_def)
  have d: "Diverges \<notin> A \<Longrightarrow> \<not> k \<and> 2 \<le> fuel env" using assms(3) by simp
  show "wp A (mpmc_try_recv env) (\<lambda>_. (bstep k)\<^sup>*\<^sup>* s) (\<lambda>_. (bstep k)\<^sup>*\<^sup>* s) s"
    unfolding mpmc_try_recv_def wp_bindM [of _ "try_take _"]
    by (rule wp_conseq [OF cany.try_take_steps [OF u iso assms(4) d]])
      (auto simp: wp_simps take_result_def split: option.split)
  show "wp A (mpmc_poll_recv env w) (\<lambda>_ (s', j). (bstep k)\<^sup>*\<^sup>* s s') (\<lambda>_ (s', j). (bstep k)\<^sup>*\<^sup>* s s') (s, i)"
    by (rule wp_conseq [OF cany.poll_any [OF u iso assms(2) d assms(4,5)]]) (auto intro: cany.poll_any_steps cany.unwound_any_steps)
  show "wp A (mpmc_recv_poll env w) (\<lambda>_ (s', g). (bstep k)\<^sup>*\<^sup>* s s') (\<lambda>_ (s', g). (bstep k)\<^sup>*\<^sup>* s s') (s, f)"
    by (rule wp_conseq [OF cany.recv_poll_any [OF u iso assms(2) d assms(4,5)]]) (auto intro: cany.poll_any_steps split: if_splits)
  show "wp A (mpmc_recv_drop env) (\<lambda>_ (s', g). (bstep k)\<^sup>*\<^sup>* s s') (\<lambda>_ (s', g). (bstep k)\<^sup>*\<^sup>* s s') (s, f)"
    by (rule wp_conseq [OF cany.recv_drop_any [OF u assms(4)]]) auto
  show "wp A (mpmc_receiver_drop env) (\<lambda>_ (s', j). (bstep k)\<^sup>*\<^sup>* s s') (\<lambda>_ (s', j). (bstep k)\<^sup>*\<^sup>* s s') (s, i)"
    if "receivers s \<noteq> 1"
    by (rule wp_conseq [OF cany.receiver_drop_other [OF u assms(4,5) that]]) auto
qed

lemma consuming_admissible: "admissible UNIV mpmc_inv (bstep k) consuming_env" "same_clones consuming_env"
proof -
  have "guar UNIV mpmc_inv (bstep k) (mpmc_try_recv (quiet_env True) :: ((nat, unit) mpmc, _) comp)"
  proof (rule guarI)
    fix s :: "(nat, unit) mpmc" assume s: "mpmc_inv s"
    have "isolates UNIV (quiet_env True :: ((nat, unit) mpmc, nat) env)"
      using admissible_quiet [of UNIV mpmc_inv "bstep k"] unfolding admissible_def by blast
    from cany.try_take_steps [OF user_code_quiet this s, of k]
    have "wp UNIV (try_take (quiet_env True)) (take_result (bstep k) s) (\<lambda>_. (bstep k)\<^sup>*\<^sup>* s) s" by simp
    then show "wp UNIV (mpmc_try_recv (quiet_env True)) (\<lambda>_. (bstep k)\<^sup>*\<^sup>* s) (\<lambda>_. (bstep k)\<^sup>*\<^sup>* s) s"
      unfolding mpmc_try_recv_def wp_bindM [of _ "try_take _"]
      by (rule wp_conseq) (auto simp: wp_simps take_result_def split: option.split)
  qed
  then show "admissible UNIV mpmc_inv (bstep k) consuming_env"
    unfolding consuming_env_def by (intro admissible_wake_cb admissible_quiet cbusy.guar_intros) auto
  show "same_clones consuming_env" by (simp add: same_clones_def consuming_env_def quiet_env_def ret_def)
qed

theorem mpmc_receiver_ops_safe_witness:
  "wp UNIV (mpmc_try_recv consuming_env) (\<lambda>_. (bstep True)\<^sup>*\<^sup>* open2_sent) (\<lambda>_. (bstep True)\<^sup>*\<^sup>* open2_sent) open2_sent"
proof -
  have "receivers open2_sent \<noteq> 0" by code_simp
  then show ?thesis
    using mpmc_receiver_ops_safe [OF consuming_admissible(1) [of True] consuming_admissible(2) _ open2_sent_inv] by blast
qed

section \<open>Sending\<close>

lemma new_log_push:
  assumes "enqueued x s t" and "(cstep k)\<^sup>*\<^sup>* (take_recv t) s'" and "all_woken (recv_wakers s) (new_log t s')"
  shows "(\<exists>es. new_log s s' = Pushed x # map (\<lambda>(i, w). WakeDue w) (recv_wakers s) @ es)
    \<and> all_woken (recv_wakers s) (new_log s s')"
proof -
  have "recv_wakers t = recv_wakers s" using assms(1) by (auto simp: enqueued_def)
  then have log: "log s' = log s @ Pushed x # map (\<lambda>(i, w). WakeDue w) (recv_wakers s) @ new_log (take_recv t) s'"
    using ceveryone.steps_log [OF assms(2)] enqueued_log [OF assms(1)] by simp
  have "set (new_log t s') \<subseteq> set (new_log s s')"
    using enqueued_log [OF assms(1)] by (simp add: new_log_def set_drop_subset_set_drop)
  with assms(3) log show ?thesis by (auto simp: new_log_def [of s s'] all_woken_def)
qed

text \<open>
  C27. \<open>Sender::try_send\<close> on every branch. It returns \<open>Closed\<close> with the item when no receiver is left or
  the channel was closed, \<open>Full\<close> with the item when the queue is at capacity, and changes nothing then.
  Otherwise the item is put into the queue, all wakers of parked receivers are taken in the same
  step, and every one of them is woken before the call ends, also when some of them panic.
\<close>

theorem mpmc_try_send_spec:
  assumes "admissible A mpmc_inv (cstep k) env" and "mpmc_inv s"
  shows "wp A (mpmc_try_send env x)
    (\<lambda>r s'. r = (if mpmc_send_closed s then Inl (Closed x) else if at_capacity s then Inl (Full x) else Inr ())
       \<and> (if r = Inr () then (\<exists>es. new_log s s' = Pushed x # map (\<lambda>(i, w). WakeDue w) (recv_wakers s) @ es)
            \<and> all_woken (recv_wakers s) (new_log s s') else s' = s))
    (\<lambda>_ s'. \<not> mpmc_send_closed s \<and> \<not> at_capacity s
       \<and> (\<exists>es. new_log s s' = Pushed x # map (\<lambda>(i, w). WakeDue w) (recv_wakers s) @ es)
       \<and> all_woken (recv_wakers s) (new_log s s')) s"
  by (rule wp_conseq [OF cshared_ops.try_send_steps [OF assms]]) (auto split: if_splits dest: new_log_push)

theorem mpmc_try_send_spec_witness:
  "wp UNIV (mpmc_try_send (resend_env 2) 8) (\<lambda>r s'. r = Inr () \<and> Woke 5 \<in> set (new_log open2_parked s'))
    (\<lambda>_ s'. Woke 5 \<in> set (new_log open2_parked s')) open2_parked"
proof -
  have "recv_wakers open2_parked = [(0, 5)]" "\<not> mpmc_send_closed open2_parked" "\<not> at_capacity open2_parked"
    by code_simp+
  then show ?thesis
    by (intro wp_conseq [OF mpmc_try_send_spec [OF resend_admissible [of True 2] open2_parked_inv]])
      (auto simp: all_woken_def)
qed




text \<open>
  C25. The outcome of a send is never lost to a panic. If a poll unwinds after the message was put
  into the queue, or after the channel was found closed, then the future does not report itself
  terminated, and the next poll, from whatever state the channel is in by then, returns that outcome
  at once and runs no user code. After that the future is terminated, every further poll is
  \<open>Pending\<close> and changes nothing.
\<close>

theorem mpmc_send_outcome_replayed:
  assumes "admissible A mpmc_inv (cstep True) env" and "DoublePanic \<in> A" and "mpmc_inv s"
    and "sf_item f = Some x" and "\<not> sf_done f" and "sf_outcome f = None"
    and "mpmc_send_poll env cx (s, f) = (Panic p, (s', f'))" and "sf_done f'"
  shows "\<exists>r g. send_result (cstep True) mpmc_send_closed (push_done (cstep True)) x s r s'
    \<and> mpmc_send_is_terminated (s', f') = (Ret False, (s', f'))
    \<and> mpmc_send_poll env' cx' (s'', f') = (Ret (Ready r), (s'', g))
    \<and> mpmc_send_is_terminated (s'', g) = (Ret True, (s'', g))
    \<and> mpmc_send_poll env' cx' (s'', g) = (Ret Pending, (s'', g))"
proof -
  have "wp A (mpmc_send_poll env cx) (\<lambda>_ _. True) (\<lambda>_ (s', f'). sf_done f' \<longrightarrow>
      (\<exists>r. sf_outcome f' = Some r \<and> send_result (cstep True) mpmc_send_closed (push_done (cstep True)) x s r s')) (s, f)"
    unfolding mpmc_send_poll_def
    by (rule mpmc_send.send_poll_steps [OF conjI [OF assms(1,2)] assms(3) assms(4-6)]) (use assms(5) in auto)
  from wp_PanicD [OF this assms(7)] assms(8) obtain r where r: "sf_outcome f' = Some r"
    "send_result (cstep True) mpmc_send_closed (push_done (cstep True)) x s r s'"
    by auto
  have "mpmc_send_poll env' cx' (s'', f') = (Ret (Ready r), (s'', f'\<lparr>sf_outcome := None\<rparr>))"
    using r(1) by (simp add: mpmc_send_poll_def send_poll_replay)
  moreover have "mpmc_send_poll env' cx' (s'', f'\<lparr>sf_outcome := None\<rparr>) = (Ret Pending, (s'', f'\<lparr>sf_outcome := None\<rparr>))"
    using assms(8) by (simp add: mpmc_send_poll_def send_poll_done)
  ultimately show ?thesis
    using r assms(8) by (auto simp: mpmc_send_is_terminated_def comp_eval)
qed

text \<open>Wakers that panic.\<close>

definition alarming_env :: "((nat, unit) mpmc, nat) env" where
  "alarming_env = (quiet_env True)\<lparr>wake_cb := \<lambda>w. panic (UserPanic w)\<rparr>"

lemma alarming_admissible: "OutOfMemory \<in> A \<Longrightarrow> admissible A mpmc_inv R alarming_env"
  unfolding alarming_env_def by (rule admissible_wake_cb) (auto simp: admissible_quiet guar_def wp_simps)

theorem mpmc_send_outcome_replayed_witness:
  "\<exists>s' f' r g. mpmc_send_poll alarming_env 4 (open2_parked, mpmc_send_new 9) = (Panic (UserPanic 5), (s', f'))
    \<and> mpmc_send_poll alarming_env 4 (s', f') = (Ret (Ready r), (s', g))"
proof -
  obtain o' s' f' where run: "mpmc_send_poll alarming_env 4 (open2_parked, mpmc_send_new 9) = (o', (s', f'))"
    by (metis surj_pair)
  have "fst (mpmc_send_poll alarming_env 4 (open2_parked, mpmc_send_new 9)) = Panic (UserPanic 5)"
    and "sf_done (snd (snd (mpmc_send_poll alarming_env 4 (open2_parked, mpmc_send_new 9))))" by code_simp+
  with run have "o' = Panic (UserPanic 5)" and "sf_done f'" by simp_all
  with mpmc_send_outcome_replayed [OF alarming_admissible [of UNIV] _ open2_parked_inv, of "mpmc_send_new 9" 9 4 "UserPanic 5" s' f' alarming_env 4 s']
  show ?thesis using run by (auto simp: mpmc_send_new_def send_new_def)
qed

section \<open>Receiving\<close>



text \<open>
  C17. No item is lost to a panic on the receiving side, with wakers that do not themselves receive or
  act on receivers (one that receives may take the item). If \<open>try_recv\<close> unwinds, then the item it had
  taken from the queue is still in the channel, ahead of all others, and the next \<open>try_recv\<close> returns
  it, without running any user code. (The \<open>mpsc\<close> channel drops it.)
\<close>

theorem mpmc_recv_panic_safe:
  assumes "admissible A mpmc_inv (csstep k) env" and "mpmc_inv s" and "1 \<le> fuel env" and "1 \<le> fuel env'"
    and "mpmc_try_recv env s = (Panic p, s')"
  shows "\<exists>x xs. contents s = x # xs \<and> popped (log s') = popped (log s)
    \<and> mpmc_try_recv env' s' = (Ret (Inr x), s'\<lparr>redelivery := None, log := log s' @ [Popped x]\<rparr>)"
proof -
  have u: "user_code A mpmc_inv (csstep k) env" and i: "isolates A env" using assms(1) by (auto simp: admissible_def)
  have "wp A (mpmc_try_recv env) (\<lambda>_ _. True) (\<lambda>_. take_unwound k s) s"
    unfolding mpmc_try_recv_def wp_bindM [of _ "try_take _"]
    by (rule wp_conseq [OF take_exact [OF u i assms(2,3)]]) (auto simp: wp_simps split: option.split)
  from wp_PanicD [OF this assms(5)] obtain x xs where x: "contents s = x # xs" "redelivery s' = Some x"
    and p: "popped (log s') = popped (log s)" and b: "(bstep k)\<^sup>*\<^sup>* s s'"
    by (auto simp: take_unwound_def)
  have idle: "idle s'" using mpmc_idle [OF cbusy.inv_steps [OF b assms(2)]] .
  obtain m where m: "fuel env' = Suc m" using assms(4) by (cases "fuel env'") auto
  have "wp {} (mpmc_try_recv env') (\<lambda>r v. r = Inr x \<and> v = s'\<lparr>redelivery := None, log := log s' @ [Popped x]\<rparr>) (\<lambda>_ _. False) s'"
    using x(2) idle by (simp add: mpmc_try_recv_def try_take_def m wp_simps wp_take_redelivery hand_out_def)
  then have "mpmc_try_recv env' s' = (Ret (Inr x), s'\<lparr>redelivery := None, log := log s' @ [Popped x]\<rparr>)"
    by (auto simp: wp_def split: prod.splits outcome.splits)
  with x(1) p show ?thesis by blast
qed

text \<open>A channel for one message that is full, with a sender parked on it.\<close>

definition slot_sent :: "(nat, unit) mpmc" where
  "slot_sent = snd (mpmc_try_send (quiet_env True) 7 (mpmc_new (flavor_bounded 1) ()))"

definition slot_blocked :: "(nat, unit) mpmc" where
  "slot_blocked = fst (snd (mpmc_send_poll (quiet_env True) 3 (slot_sent, mpmc_send_new 8)))"

lemma mpmc_send_new_ok [simp]: "send_ok (mpmc_send_new x)"
  by (simp add: mpmc_send_new_def send_new_def send_ok_def)

lemma slot_blocked_run:
  "\<exists>f'. mpmc_send_poll (quiet_env True) 3 (slot_sent, mpmc_send_new 8) = (Ret Pending, (slot_blocked, f'))
    \<and> sf_waker_id f' = Some 0"
proof -
  have "fst (mpmc_send_poll (quiet_env True) 3 (slot_sent, mpmc_send_new 8)) = Ret Pending"
    and "sf_waker_id (snd (snd (mpmc_send_poll (quiet_env True) 3 (slot_sent, mpmc_send_new 8)))) = Some 0" by code_simp+
  then show ?thesis by (auto simp: slot_blocked_def prod_eq_iff)
qed

lemma slot_sent_inv: "mpmc_inv slot_sent"
proof -
  let ?s = "mpmc_new (flavor_bounded 1) () :: (nat, unit) mpmc"
  have run: "fst (mpmc_try_send (quiet_env True) 7 ?s) = Ret (Inr ())" by code_simp
  have "mpmc_call Whole ?s slot_sent"
    by (rule mpmc_call.try_send [OF admissible_quiet, where x = 7 and r = "Ret (Inr ())"]) (simp_all add: slot_sent_def prod_eq_iff run)
  moreover have s: "mpmc_inv ?s" by (rule mpmc_bounded_new(1) [of 1 "()"]) (simp_all add: mpmc_bounded_def)
  ultimately show ?thesis using all_calls.reached.inv_steps [OF all_calls.call_steps s] by blast
qed

lemma slot_blocked_inv: "mpmc_inv slot_blocked"
proof -
  obtain f' where "mpmc_send_poll (quiet_env True) 3 (slot_sent, mpmc_send_new 8) = (Ret Pending, (slot_blocked, f'))"
    using slot_blocked_run by blast
  then have "mpmc_call Whole slot_sent slot_blocked"
    by (rule mpmc_call.send_poll [OF admissible_quiet, rotated 2]) simp_all
  from all_calls.reached.inv_steps [OF all_calls.call_steps [OF this slot_sent_inv] slot_sent_inv] show ?thesis .
qed

theorem mpmc_recv_panic_safe_witness:
  "\<exists>s'. mpmc_try_recv alarming_env slot_blocked = (Panic (UserPanic 3), s')
    \<and> fst (mpmc_try_recv alarming_env s') = Ret (Inr 7)"
proof -
  obtain o' s' where run: "mpmc_try_recv alarming_env slot_blocked = (o', s')" by (metis surj_pair)
  have "fst (mpmc_try_recv alarming_env slot_blocked) = Panic (UserPanic 3)" and c: "contents slot_blocked = [7]" by code_simp+
  with run have "o' = Panic (UserPanic 3)" by simp
  moreover have "fuel alarming_env = 2" by (simp add: alarming_env_def quiet_env_def)
  ultimately show ?thesis
    using mpmc_recv_panic_safe [OF alarming_admissible [of UNIV "csstep True"] slot_blocked_inv, of alarming_env] run c
    by fastforce
qed

text \<open>
  C18. The loop of \<open>try_take\<close> ends, even when wakers act as consumers and take the item that was parked
  for this call, provided that senders do not park again while the call runs: two turns are enough,
  because the first leaves no sender parked, and more fuel changes nothing. An item that comes back
  was handed out to this call, and \<open>None\<close> is the answer only for an empty channel.
\<close>

theorem mpmc_try_take_returns:
  assumes "admissible A mpmc_inv (bstep False) env" and "Diverges \<notin> A" and "mpmc_inv s" and "2 \<le> n"
  shows "wp A (try_take_loop env n)
      (\<lambda>r s'. case r of Some x \<Rightarrow> \<exists>t. (bstep False)\<^sup>*\<^sup>* s t \<and> hands_out x t s' | None \<Rightarrow> contents s' = [])
      (\<lambda>_ s'. (bstep False)\<^sup>*\<^sup>* s s') s
    \<and> try_take_loop env n s = try_take_loop env 2 s"
proof
  have u: "user_code A mpmc_inv (bstep False) env" and i: "isolates A env" using assms(1) by (auto simp: admissible_def)
  have loop: "wp A (try_take_loop env m) (take_result (bstep False) s) (\<lambda>_. (bstep False)\<^sup>*\<^sup>* s) s" if "2 \<le> m" for m
    by (rule cany.take_loop_steps [OF u i _ assms(3)]) (use that in auto)
  show "wp A (try_take_loop env n)
      (\<lambda>r s'. case r of Some x \<Rightarrow> \<exists>t. (bstep False)\<^sup>*\<^sup>* s t \<and> hands_out x t s' | None \<Rightarrow> contents s' = [])
      (\<lambda>_ s'. (bstep False)\<^sup>*\<^sup>* s s') s"
    by (rule wp_conseq [OF loop [OF assms(4)]]) (auto simp: take_result_def split: option.splits)
  show "try_take_loop env n s = try_take_loop env 2 s"
    using wp_no_abort [OF loop [OF order_refl] assms(2)] assms(4) by (rule take_loop_more)
qed

lemma consuming_returns: "admissible {DoublePanic, OutOfMemory} mpmc_inv (bstep False) consuming_env"
proof -
  let ?A = "{DoublePanic, OutOfMemory}"
  have "guar ?A mpmc_inv (bstep False) (mpmc_try_recv (quiet_env True) :: ((nat, unit) mpmc, _) comp)"
  proof (rule guarI)
    fix s :: "(nat, unit) mpmc" assume s: "mpmc_inv s"
    have "isolates ?A (quiet_env True :: ((nat, unit) mpmc, nat) env)"
      using admissible_quiet [of ?A mpmc_inv "bstep False"] unfolding admissible_def by blast
    from cany.try_take_steps [OF user_code_quiet this s, of False]
    have "wp ?A (try_take (quiet_env True)) (take_result (bstep False) s) (\<lambda>_. (bstep False)\<^sup>*\<^sup>* s) s"
      by (simp add: quiet_env_def)
    then show "wp ?A (mpmc_try_recv (quiet_env True)) (\<lambda>_. (bstep False)\<^sup>*\<^sup>* s) (\<lambda>_. (bstep False)\<^sup>*\<^sup>* s) s"
      unfolding mpmc_try_recv_def wp_bindM [of _ "try_take _"]
      by (rule wp_conseq) (auto simp: wp_simps take_result_def split: option.split)
  qed
  then show ?thesis
    unfolding consuming_env_def by (intro admissible_wake_cb admissible_quiet cbusy.guar_intros) auto
qed

text \<open>A waker that takes the item this call had parked, so that the loop goes round once more.\<close>

theorem mpmc_try_take_returns_witness:
  "fst (try_take_loop consuming_env 5 slot_blocked) = Ret None
    \<and> popped (log (snd (try_take_loop consuming_env 5 slot_blocked))) = [7]"
proof -
  have "fst (try_take_loop consuming_env 2 slot_blocked) = Ret None"
    and "popped (log (snd (try_take_loop consuming_env 2 slot_blocked))) = [7]" by code_simp+
  moreover have "try_take_loop consuming_env 5 slot_blocked = try_take_loop consuming_env 2 slot_blocked"
    using mpmc_try_take_returns [OF consuming_returns _ slot_blocked_inv, of 5] by simp
  ultimately show ?thesis by simp
qed

section \<open>Polling and wakeups\<close>

text \<open>
  C21. Polling a receiver, with user code that may do anything but drop the last receiver. An item that
  comes back was handed out to this poll. \<open>Ready(None)\<close> means that the channel is empty and
  disconnected and that no registration is retained, neither in the slot of the caller nor in the
  channel. \<open>Pending\<close> means that the channel is empty and connected, and that the task's waker was put
  on the list of parked receivers, under the id that the caller keeps, before the last look at the
  channel.
\<close>

theorem mpmc_poll_recv_spec:
  assumes "admissible A mpmc_inv (bstep k) env" and "same_clones env" and "Diverges \<in> A"
    and "mpmc_inv s" and "receivers s \<noteq> 0"
  shows "wp A (mpmc_poll_recv env w)
    (\<lambda>p (s', j). mpmc_inv s' \<and> (case p of
       Ready (Some x) \<Rightarrow> \<exists>t. (bstep k)\<^sup>*\<^sup>* s t \<and> hands_out x t s'
     | Ready None \<Rightarrow> contents s' = [] \<and> mpmc_disconnected s' \<and> j = None \<and> recv_wakers s' = []
     | Pending \<Rightarrow> contents s' = [] \<and> \<not> mpmc_disconnected s' \<and> (\<exists>i t. j = Some i \<and> (bstep k)\<^sup>*\<^sup>* s t
         \<and> \<not> mpmc_terminal t \<and> (bstep k)\<^sup>*\<^sup>* (t\<lparr>recv_wakers := recv_wakers t @ [(i, w)]\<rparr>) s')))
    (\<lambda>_ (s', j). mpmc_inv s' \<and> (bstep k)\<^sup>*\<^sup>* s s') (s, i)"
proof -
  have u: "user_code A mpmc_inv (bstep k) env" and iso: "isolates A env" using assms(1) by (auto simp: admissible_def)
  have d: "Diverges \<notin> A \<Longrightarrow> \<not> k \<and> 2 \<le> fuel env" using assms(3) by simp
  have post: "mpmc_inv s' \<and> (case p of
       Ready (Some x) \<Rightarrow> \<exists>t. (bstep k)\<^sup>*\<^sup>* s t \<and> hands_out x t s'
     | Ready None \<Rightarrow> contents s' = [] \<and> mpmc_disconnected s' \<and> j = None \<and> recv_wakers s' = []
     | Pending \<Rightarrow> contents s' = [] \<and> \<not> mpmc_disconnected s' \<and> (\<exists>i t. j = Some i \<and> (bstep k)\<^sup>*\<^sup>* s t
         \<and> \<not> mpmc_terminal t \<and> (bstep k)\<^sup>*\<^sup>* (t\<lparr>recv_wakers := recv_wakers t @ [(i, w)]\<rparr>) s'))"
    if p: "slot_polled (bstep k) (take_result (bstep k)) w s p s' j" for p s' j
  proof
    show inv: "mpmc_inv s'" using cbusy.inv_steps [OF cany.poll_any_steps [OF p] assms(4)] .
    have item: "\<exists>t. (bstep k)\<^sup>*\<^sup>* s t \<and> hands_out x t s'"
      if "(waits (bstep k))\<^sup>*\<^sup>* s t" "take_result (bstep k) t (Some x) s'" for x t
      using take_result_later [OF cany.waits_bsteps [OF that(1)] that(2)] by (simp add: take_result_def)
    show "case p of
       Ready (Some x) \<Rightarrow> \<exists>t. (bstep k)\<^sup>*\<^sup>* s t \<and> hands_out x t s'
     | Ready None \<Rightarrow> contents s' = [] \<and> mpmc_disconnected s' \<and> j = None \<and> recv_wakers s' = []
     | Pending \<Rightarrow> contents s' = [] \<and> \<not> mpmc_disconnected s' \<and> (\<exists>i t. j = Some i \<and> (bstep k)\<^sup>*\<^sup>* s t
         \<and> \<not> mpmc_terminal t \<and> (bstep k)\<^sup>*\<^sup>* (t\<lparr>recv_wakers := recv_wakers t @ [(i, w)]\<rparr>) s')"
    proof (cases p)
      case (Ready r)
      with p inv item show ?thesis by (cases r) (auto simp: slot_polled_def mpmc_inv_def)
    next
      case Pending
      with p cany.waits_bsteps [of k s] show ?thesis by (auto simp: slot_polled_def enlisted_def)
    qed
  qed
  have unwound: "mpmc_inv s' \<and> (bstep k)\<^sup>*\<^sup>* s s'" if "slot_unwound (bstep k) (bstep k)\<^sup>*\<^sup>* s s'" for s'
    using cany.unwound_any_steps [OF that] cbusy.inv_steps [OF _ assms(4)] by blast
  show ?thesis
    by (rule wp_conseq [OF cany.poll_any [OF u iso assms(2) d assms(4,5)]])
      (use post unwound in \<open>auto simp del: append_is_Nil_conv\<close>)
qed

theorem mpmc_poll_recv_spec_witness:
  "wp UNIV (mpmc_poll_recv consuming_env 5) (\<lambda>p (s', j). p = Ready None \<longrightarrow> mpmc_disconnected s') (\<lambda>_ (s', j). mpmc_inv s')
    (open2_sent, None)"
proof -
  have "receivers open2_sent \<noteq> 0" by code_simp
  then show ?thesis
    by (intro wp_conseq [OF mpmc_poll_recv_spec [OF consuming_admissible(1) [of True] consuming_admissible(2) _ open2_sent_inv]])
      auto
qed

text \<open>
  C3. No wakeup of a receiver is lost. After a poll returned \<open>Pending\<close>, and whatever calls senders and
  other receivers then make, returning or unwinding, as long as a receiver is left one of three things
  holds: the waker is still on the list, under the id the caller keeps, and the channel still empty and
  connected, so there is nothing to be woken for; or the waker has been woken since the poll began; or the
  registration with that id has been withdrawn, which is what polling again or dropping the future or
  stream that keeps the id does. The user code that runs inside the poll may make any calls too, as
  long as the polled receiver lives.
\<close>

theorem mpmc_no_lost_wakeup:
  assumes "admissible UNIV mpmc_inv (mpmc_call Borrowed) env" and "same_clones env"
    and "mpmc_inv s" and "receivers s \<noteq> 0"
    and "mpmc_poll_recv env w (s, i) = (Ret Pending, (s', j))" and "(mpmc_call Whole)\<^sup>*\<^sup>* s' s''" and "receivers s'' \<noteq> 0"
  shows "\<exists>i'. j = Some i' \<and> ((i', w) \<in> set (recv_wakers s'') \<and> contents s'' = [] \<and> \<not> mpmc_disconnected s''
    \<or> Woke w \<in> set (new_log s s'') \<or> RecvWithdrawn i' \<in> set (new_log s s''))"
proof -
  have polled: "slot_polled (promised (attends h w) Borrowed) (take_result (promised (attends h w) Borrowed)) w s Pending s' j" for h
  proof -
    have "admissible UNIV mpmc_inv (promised (attends h w) Borrowed) env" using attend.calls_admissible [OF assms(1)] .
    then show ?thesis
      using wp_RetD [OF attend.taken.poll_any [OF _ _ assms(2) _ assms(3,4)] assms(5)] by (auto simp: admissible_def)
  qed
  obtain i' where j: "j = Some i'" using polled by (auto simp: slot_polled_def)
  have e: "enlisted (promised (attends i' w) Borrowed) i' w s s'" and c: "contents s' = []" "\<not> mpmc_disconnected s'"
    using polled [of i'] j by (auto simp: slot_polled_def)
  note poll = enlisted_attends [OF e]
  have s': "mpmc_inv s'" using cbusy.inv_steps [OF poll(1) assms(3)] .
  have later: "(cstep True)\<^sup>*\<^sup>* s' s''" using all_calls.calls_steps [OF assms(6) s'] by simp
  have "recv_waits i' w s' \<or> recv_let_go i' w s s'"
    using poll(2) c csteps_keep(4) [OF later] assms(7) by (auto simp: recv_waits_def)
  then have "recv_waits i' w s'' \<or> recv_let_go i' w s s''"
    using calls_attend [OF assms(6) s', of i' w] assms(7) recv_let_go_later [OF cstep_of_bstep [OF poll(1)] later, of i' w]
    by (auto simp: attends_def)
  with j show ?thesis by (auto simp: recv_waits_def recv_let_go_def)
qed

theorem mpmc_no_lost_wakeup_witness:
  "Woke 5 \<in> set (new_log open2 (snd (mpmc_sender_close (quiet_env True) open2_parked)))"
proof -
  let ?s = "snd (mpmc_sender_close (quiet_env True) open2_parked)"
  have "fst (mpmc_sender_close (quiet_env True) open2_parked) = Ret True" by code_simp
  then have "mpmc_sender_close (quiet_env True) open2_parked = (Ret True, ?s)" by (simp add: prod_eq_iff)
  then have "mpmc_call Whole open2_parked ?s"
    by (rule mpmc_call.sender_close [OF admissible_quiet, rotated]) simp_all
  then have calls: "(mpmc_call Whole)\<^sup>*\<^sup>* open2_parked ?s" by (rule r_into_rtranclp)
  have "receivers open2 \<noteq> 0" "receivers ?s \<noteq> 0" "recv_wakers ?s = []" "RecvWithdrawn 0 \<notin> set (new_log open2 ?s)" by code_simp+
  then show ?thesis
    using mpmc_no_lost_wakeup [OF admissible_quiet [of UNIV] clones_quiet open2_inv _ open2_poll calls] by simp
qed

text \<open>
  C5. No parked sender is forgotten. After a poll of a \<open>Send\<close> future returned \<open>Pending\<close>, and whatever calls
  any senders and receivers then make, returning or unwinding, one of three things holds: the future's
  waker is still on the list, under the id the future keeps, the queue is still full and the channel
  open, so the future could not proceed; or that waker has been woken since; or the registration with
  that id has been withdrawn, which is what polling or dropping the future does. So an item that leaves
  the full queue, closing the channel and dropping the last receiver each wake the sender, whatever the
  other wakers do.
\<close>

theorem mpmc_sender_not_forgotten:
  assumes "admissible A mpmc_inv (mpmc_call e) env" and "DoublePanic \<in> A" and "same_clones env" and "mpmc_inv s"
    and "sf_item f = Some x" and "\<not> sf_done f" and "sf_outcome f = None"
    and "mpmc_send_poll env w (s, f) = (Ret Pending, (s', f'))" and "(mpmc_call Whole)\<^sup>*\<^sup>* s' s''"
  shows "\<exists>i. sf_waker_id f' = Some i
    \<and> ((i, w) \<in> set (send_wakers s'') \<and> at_capacity s'' \<and> \<not> mpmc_send_closed s''
      \<or> Woke w \<in> set (new_log s' s'') \<or> SendWithdrawn i \<in> set (new_log s' s''))"
proof -
  have env: "admissible A mpmc_inv (reach_step e) env" using all_calls.calls_admissible [OF assms(1)] .
  have "wp A (mpmc_send_poll env w)
      (\<lambda>p (s', f'). p = Pending \<longrightarrow> mpmc_inv s' \<and> (\<exists>i. sf_waker_id f' = Some i \<and> sender_waits mpmc_send_closed i w s')) (\<lambda>_ _. True) (s, f)"
    unfolding mpmc_send_poll_def
    by (rule all_calls.reached.send_poll_steps [OF conjI [OF env assms(2)] assms(4-7)])
      (use assms(3) in \<open>auto simp: sender_waits_def\<close>)
  from wp_RetD [OF this assms(8)] obtain i where i: "mpmc_inv s'" "sf_waker_id f' = Some i" "sender_waits mpmc_send_closed i w s'" by auto
  from calls_heed [OF assms(9) i(1,3)] i(2) show ?thesis by (auto simp: sender_waits_def sender_let_go_def)
qed

text \<open>The sender that is parked on the full channel, and a receiver that takes the message.\<close>

theorem mpmc_sender_not_forgotten_witness:
  "Woke 3 \<in> set (new_log slot_blocked (snd (mpmc_try_recv (quiet_env True) slot_blocked)))"
proof -
  let ?s = "snd (mpmc_try_recv (quiet_env True) slot_blocked)"
  obtain f' where poll: "mpmc_send_poll (quiet_env True) 3 (slot_sent, mpmc_send_new 8) = (Ret Pending, (slot_blocked, f'))"
    and i: "sf_waker_id f' = Some 0"
    using slot_blocked_run by blast
  have "fst (mpmc_try_recv (quiet_env True) slot_blocked) = Ret (Inr 7)" by code_simp
  then have "mpmc_call Whole slot_blocked ?s"
    by (intro mpmc_call.try_recv [OF _ admissible_quiet, where v = "Ret (Inr 7)"]) (simp_all add: prod_eq_iff)
  then have calls: "(mpmc_call Whole)\<^sup>*\<^sup>* slot_blocked ?s" by (rule r_into_rtranclp)
  have "send_wakers ?s = []" "SendWithdrawn 0 \<notin> set (new_log slot_blocked ?s)" by code_simp+
  with i mpmc_sender_not_forgotten [OF admissible_quiet [of UNIV] _ clones_quiet slot_sent_inv _ _ _ poll calls]
  show ?thesis by (auto simp: mpmc_send_new_def send_new_def)
qed

section \<open>Closing and disconnecting\<close>

text \<open>
  C31. Closing, from a sender or from a receiver, with wakers that make any calls on the channel.
  \<open>close\<close> answers whether this call closed the channel: not when it is closed already, nor when the other side is
  gone. If it did, then afterwards, whether it returns or a waker unwinds, the channel is closed, every
  receiver that was parked has been woken, and every sender that was parked has been woken as well,
  unless its \<open>Send\<close> future withdrew the registration while the call ran. Otherwise nothing changes.
\<close>

theorem mpmc_close_spec:
  assumes "admissible A mpmc_inv (mpmc_call e) env" and "mpmc_inv s"
  shows "wp A (mpmc_sender_close env)
      (\<lambda>r s'. r = (\<not> mpmc_send_closed s) \<and> (if r then all_let_go s s' else s' = s))
      (\<lambda>_ s'. \<not> mpmc_send_closed s \<and> all_let_go s s') s
    \<and> wp A (mpmc_receiver_close env)
      (\<lambda>r s'. r = (\<not> mpmc_disconnected s) \<and> (if r then all_let_go s s' else s' = s))
      (\<lambda>_ s'. \<not> mpmc_disconnected s \<and> all_let_go s s') s"
  unfolding mpmc_sender_close_def mpmc_sender_is_closed_def mpmc_receiver_close_def mpmc_receiver_is_closed_def
  using close_lets_all_go [OF assms]
  by (auto simp: wp_simps mpmc_send_closed_iff mpmc_disconnected_def intro: wp_conseq)

theorem mpmc_close_spec_witness:
  "wp UNIV (mpmc_sender_close (quiet_env True)) (\<lambda>r s'. r \<and> closed s' \<and> Woke 5 \<in> set (new_log open2_parked s'))
      (\<lambda>_ s'. closed s') open2_parked
    \<and> wp UNIV (mpmc_receiver_close (quiet_env True)) (\<lambda>r s'. r \<and> sender_let_go 0 3 slot_blocked s') (\<lambda>_ s'. closed s') slot_blocked"
proof
  note close = mpmc_close_spec [OF admissible_quiet [of UNIV]]
  have "recv_wakers open2_parked = [(0, 5)]" "\<not> mpmc_send_closed open2_parked" by code_simp+
  with close [OF _ open2_parked_inv]
  show "wp UNIV (mpmc_sender_close (quiet_env True)) (\<lambda>r s'. r \<and> closed s' \<and> Woke 5 \<in> set (new_log open2_parked s'))
      (\<lambda>_ s'. closed s') open2_parked"
    by (auto elim!: wp_conseq simp: all_let_go_def all_woken_def)
  have "send_wakers slot_blocked = [(0, 3)]" "\<not> mpmc_disconnected slot_blocked" by code_simp+
  with close [OF _ slot_blocked_inv]
  show "wp UNIV (mpmc_receiver_close (quiet_env True)) (\<lambda>r s'. r \<and> sender_let_go 0 3 slot_blocked s') (\<lambda>_ s'. closed s') slot_blocked"
    by (auto elim!: wp_conseq simp: all_let_go_def)
qed

text \<open>
  C28. Dropping the last receiver, whatever the wakers and the items' destructors do: whether it
  returns or unwinds, the channel is then closed for sends and empty, the destructor of every item
  that was in it was run, also of the one in the redelivery slot, and every parked sender was woken. The
  receiver's own stream registration is gone, provided that the ids on the list of parked receivers
  were distinct (they come from a counter of 64 bits that may wrap). The loop that drains the channel ends.
\<close>

theorem mpmc_receiver_drop_spec:
  assumes "admissible A mpmc_inv (csstep k) env" and "DoublePanic \<in> A" and "mpmc_inv s" and "receivers s = 1"
  shows "wp A (mpmc_receiver_drop env)
    (\<lambda>_ (s', j). mpmc_inv s' \<and> mpmc_send_closed s' \<and> contents s' = [] \<and> all_woken (send_wakers s) (new_log s s')
       \<and> (\<forall>x \<in> set (contents s). ItemDropped x \<in> set (new_log s s'))
       \<and> (\<forall>h. i = Some h \<longrightarrow> distinct (map fst (recv_wakers s)) \<longrightarrow> h \<notin> fst ` set (recv_wakers s')) \<and> j = None)
    (\<lambda>_ (s', j). mpmc_inv s' \<and> mpmc_send_closed s' \<and> contents s' = [] \<and> all_woken (send_wakers s) (new_log s s')
       \<and> (\<forall>x \<in> set (contents s). ItemDropped x \<in> set (new_log s s'))
       \<and> (\<forall>h. i = Some h \<longrightarrow> distinct (map fst (recv_wakers s)) \<longrightarrow> h \<notin> fst ` set (recv_wakers s')) \<and> j = None) (s, i)"
  by (rule wp_conseq [OF receiver_drop_last [OF assms]])
    (auto simp: receiver_gone_def emptied_def mpmc_send_closed_iff)

theorem mpmc_receiver_drop_spec_witness:
  "wp UNIV (mpmc_receiver_drop (resend_env 2)) (\<lambda>_ (s', j). contents s' = [] \<and> ItemDropped 7 \<in> set (new_log slot_blocked s'))
    (\<lambda>_ (s', j). contents s' = []) (slot_blocked, None)"
proof -
  have "contents slot_blocked = [7]" "receivers slot_blocked = 1" "recv_wakers slot_blocked = []" by code_simp+
  then show ?thesis
    by (intro wp_conseq [OF mpmc_receiver_drop_spec [OF resend_csstep [of True] _ slot_blocked_inv]]) auto
qed

end
