(* ===== verification/Oneshot.thy ===== *)
theory Oneshot
  imports Wakers Errors Fifo
begin

text \<open>
  The one-shot channel (\<open>src/oneshot/mod.rs\<close>): its shared state and the operations of the two halves.

  The state \<open>('t, 'u) oneshot\<close> is the \<open>Inner\<close> behind the \<open>Rc\<close> with the ghost log and the borrow
  flags; the receiver's \<open>done\<close> flag belongs to the handle and is threaded beside it.
\<close>

section \<open>State\<close>

record ('t, 'u) oneshot = "'t world" +
  o_value :: "'t slot"
  value_present :: bool
  sender_dropped :: bool
  receiver_dropped :: bool
  o_recv_waker :: "waker option"
  o_usr :: 'u

type_synonym ('t, 'u) oenv = "(('t, 'u) oneshot, 't) env"

datatype canceled = Canceled

definition canceled_display :: "canceled \<Rightarrow> string" where
  "canceled_display c = ''oneshot sender dropped without sending a value''"

section \<open>Inner\<close>

definition oneshot_register_recv_waker :: "('t, 'u) oenv \<Rightarrow> waker \<Rightarrow> (('t, 'u) oneshot, unit) comp" where
  "oneshot_register_recv_waker env w = bindM (gets receiver_dropped) (\<lambda>d.
     if d then ret ()
     else bindM (clone_waker env w) (\<lambda>v.
       bindM (borrow_mut RecvWakerCell (\<lambda>s. (Ret (o_recv_waker s), s\<lparr>o_recv_waker := Some v\<rparr>)))
         (drop_waker_option env)))"

definition oneshot_wake_receiver :: "('t, 'u) oenv \<Rightarrow> (('t, 'u) oneshot, unit) comp" where
  "oneshot_wake_receiver env = bindM
     (borrow_mut RecvWakerCell (\<lambda>s. (Ret (o_recv_waker s), s\<lparr>o_recv_waker := None\<rparr>)))
     (\<lambda>w. case w of None \<Rightarrow> ret () | Some v \<Rightarrow> wake env v)"

definition oneshot_clear_recv_waker :: "('t, 'u) oenv \<Rightarrow> (('t, 'u) oneshot, unit) comp" where
  "oneshot_clear_recv_waker env = bindM
     (borrow_mut RecvWakerCell (\<lambda>s. (Ret (o_recv_waker s), s\<lparr>o_recv_waker := None\<rparr>)))
     (drop_waker_option env)"

text \<open>\<open>MaybeUninit::assume_init_read\<close> on the slot: the value moves out, and reading nothing is undefined.\<close>

definition oneshot_assume_init_read :: "(('t, 'u) oneshot, 't) comp" where
  "oneshot_assume_init_read = (\<lambda>s. case o_value s of
     Uninit \<Rightarrow> (Fault UninitRead, s)
   | Init x \<Rightarrow> (Ret x, s\<lparr>o_value := Uninit, log := log s @ [Popped x]\<rparr>))"

text \<open>\<open>value_present.replace(false)\<close>, and the value if it was present.\<close>

definition oneshot_replace_present :: "(('t, 'u) oneshot, bool) comp" where
  "oneshot_replace_present = (\<lambda>s. (Ret (value_present s), s\<lparr>value_present := False\<rparr>))"

definition oneshot_drop_value :: "('t, 'u) oenv \<Rightarrow> (('t, 'u) oneshot, unit) comp" where
  "oneshot_drop_value env = bindM oneshot_replace_present (\<lambda>p.
     if p then bindM oneshot_assume_init_read (drop_item env) else ret ())"

definition oneshot_inner_drop :: "('t, 'u) oenv \<Rightarrow> (('t, 'u) oneshot, unit) comp" where
  "oneshot_inner_drop env = oneshot_drop_value env"

definition oneshot_channel :: "'u \<Rightarrow> ('t, 'u) oneshot \<times> bool" where
  "oneshot_channel u = (\<lparr>borrows = free_cells, log = [], o_value = Uninit, value_present = False,
     sender_dropped = False, receiver_dropped = False, o_recv_waker = None, o_usr = u\<rparr>, False)"

section \<open>Sender\<close>

definition oneshot_sender_drop :: "('t, 'u) oenv \<Rightarrow> (('t, 'u) oneshot, unit) comp" where
  "oneshot_sender_drop env = thenM (modify (\<lambda>s. s\<lparr>sender_dropped := True\<rparr>))
     (bindM (gets value_present) (\<lambda>p. if \<not> p then oneshot_wake_receiver env else ret ()))"

text \<open>\<open>send\<close> consumes the sender, whose destructor runs when it ends, also by unwinding.\<close>

definition oneshot_send :: "('t, 'u) oenv \<Rightarrow> 't \<Rightarrow> (('t, 'u) oneshot, 't + unit) comp" where
  "oneshot_send env x = with_guard (oneshot_sender_drop env)
     (bindM (gets receiver_dropped) (\<lambda>d.
      if d then ret (Inl x)
      else thenM (modify (\<lambda>s. s\<lparr>o_value := Init x, log := log s @ [Pushed x]\<rparr>))
          (thenM (modify (\<lambda>s. s\<lparr>value_present := True\<rparr>))
          (thenM (oneshot_wake_receiver env) (ret (Inr ()))))))"

definition oneshot_sender_is_closed :: "(('t, 'u) oneshot, bool) comp" where
  "oneshot_sender_is_closed = gets receiver_dropped"

section \<open>Receiver\<close>

type_synonym ('t, 'u) recv_state = "('t, 'u) oneshot \<times> bool"

definition oneshot_take_value :: "(('t, 'u) recv_state, 't option) comp" where
  "oneshot_take_value = bindM (on_snd (gets (\<lambda>done. done))) (\<lambda>done.
     if done then ret None
     else bindM (on_fst oneshot_replace_present) (\<lambda>p.
       if p then bindM (on_fst oneshot_assume_init_read) (\<lambda>x.
              thenM (on_snd (modify (\<lambda>_. True))) (ret (Some x)))
       else ret None))"

definition oneshot_try_recv :: "(('t, 'u) recv_state, canceled + 't option) comp" where
  "oneshot_try_recv = bindM oneshot_take_value (\<lambda>v. case v of
     Some x \<Rightarrow> ret (Inr (Some x))
   | None \<Rightarrow> bindM (on_snd (gets (\<lambda>done. done))) (\<lambda>done.
       bindM (on_fst (gets sender_dropped)) (\<lambda>dropped.
       if \<not> done \<and> dropped then thenM (on_snd (modify (\<lambda>_. True))) (ret (Inl Canceled))
       else ret (Inr None))))"

definition oneshot_try_iter_next :: "(('t, 'u) recv_state, 't option) comp" where
  "oneshot_try_iter_next = oneshot_take_value"

definition oneshot_receiver_is_closed :: "(('t, 'u) recv_state, bool) comp" where
  "oneshot_receiver_is_closed = on_fst (gets sender_dropped)"

text \<open>
  \<open>poll\<close> looks at the channel with the same code before and after it registers its waker: the value
  if it is there, else \<open>Canceled\<close> if the sender is gone. What comes otherwise is the argument.
\<close>

definition oneshot_poll_check :: "(('t, 'u) recv_state, (canceled + 't) poll) comp
    \<Rightarrow> (('t, 'u) recv_state, (canceled + 't) poll) comp" where
  "oneshot_poll_check otherwise = bindM (on_fst oneshot_replace_present) (\<lambda>p.
     if p then bindM (on_fst oneshot_assume_init_read) (\<lambda>x.
            thenM (on_snd (modify (\<lambda>_. True))) (ret (Ready (Inr x))))
     else bindM (on_fst (gets sender_dropped)) (\<lambda>d.
       if d then thenM (on_snd (modify (\<lambda>_. True))) (ret (Ready (Inl Canceled)))
       else otherwise))"

definition oneshot_poll :: "('t, 'u) oenv \<Rightarrow> waker \<Rightarrow> (('t, 'u) recv_state, (canceled + 't) poll) comp" where
  "oneshot_poll env cx = bindM (on_snd (gets (\<lambda>done. done))) (\<lambda>done.
     if done then ret Pending
     else oneshot_poll_check
       (thenM (on_fst (oneshot_register_recv_waker env cx))
              (oneshot_poll_check (ret Pending))))"

definition oneshot_is_terminated :: "(('t, 'u) recv_state, bool) comp" where
  "oneshot_is_terminated = on_snd (gets (\<lambda>done. done))"

definition oneshot_receiver_drop :: "('t, 'u) oenv \<Rightarrow> (('t, 'u) oneshot, unit) comp" where
  "oneshot_receiver_drop env = thenM (modify (\<lambda>s. s\<lparr>receiver_dropped := True\<rparr>))
     (thenM (oneshot_clear_recv_waker env) (oneshot_drop_value env))"

end
