(* ===== verification/Oneshot_Proofs.thy ===== *)
theory Oneshot_Proofs
  imports Oneshot
begin

text \<open>
  The atomic steps of the one-shot channel, its invariant, and every operation against the steps.
  The sender's side is what the holder of the \<open>Sender\<close> can do, the receiver's side needs the
  \<open>Receiver\<close>; operations of the receiver borrow it mutably, so user code inside them acts only by
  the sender's steps.
\<close>

section \<open>Steps\<close>

definition oneshot_wake :: "('t, 'u) oneshot \<Rightarrow> ('t, 'u) oneshot" where
  "oneshot_wake s = (case o_recv_waker s of
     None \<Rightarrow> s
   | Some w \<Rightarrow> s\<lparr>o_recv_waker := None, log := log s @ [Woke w]\<rparr>)"

inductive osstep :: "('t, 'u) oneshot \<Rightarrow> ('t, 'u) oneshot \<Rightarrow> bool" where
  send: "\<not> receiver_dropped s \<Longrightarrow> \<not> sender_dropped s \<Longrightarrow> pushed (log s) = [] \<Longrightarrow>
    osstep s (oneshot_wake (s\<lparr>o_value := Init x, log := log s @ [Pushed x], value_present := True\<rparr>))"
| drop_sent: "value_present s \<Longrightarrow> osstep s (s\<lparr>sender_dropped := True\<rparr>)"
| drop_unsent: "\<not> value_present s \<Longrightarrow> osstep s (oneshot_wake (s\<lparr>sender_dropped := True\<rparr>))"
| event: "neutral e \<Longrightarrow> osstep s (s\<lparr>log := log s @ [e]\<rparr>)"
| user: "osstep s (s\<lparr>o_usr := u\<rparr>)"

inductive orstep :: "('t, 'u) oneshot \<Rightarrow> ('t, 'u) oneshot \<Rightarrow> bool" where
  take: "value_present s \<Longrightarrow> o_value s = Init x \<Longrightarrow>
    orstep s (s\<lparr>value_present := False, o_value := Uninit, log := log s @ [Popped x]\<rparr>)"
| register: "\<not> receiver_dropped s \<Longrightarrow> orstep s (s\<lparr>o_recv_waker := Some w\<rparr>)"
| drop_receiver: "orstep s (s\<lparr>receiver_dropped := True, o_recv_waker := None\<rparr>)"

definition ostep :: "('t, 'u) oneshot \<Rightarrow> ('t, 'u) oneshot \<Rightarrow> bool" where
  "ostep s s' \<longleftrightarrow> osstep s s' \<or> orstep s s'"

section \<open>Invariant\<close>

text \<open>
  The flag says whether the slot is initialised; at most one value is ever sent; what was sent and
  not yet taken is in the slot; a dropped receiver leaves no waker behind.
\<close>

definition oneshot_inv :: "('t, 'u) oneshot \<Rightarrow> bool" where
  "oneshot_inv s \<longleftrightarrow> idle s \<and> length (pushed (log s)) \<le> 1
     \<and> (if value_present s then \<exists>x. o_value s = Init x \<and> pushed (log s) = popped (log s) @ [x]
        else o_value s = Uninit \<and> pushed (log s) = popped (log s))
     \<and> (receiver_dropped s \<longrightarrow> o_recv_waker s = None)"

lemma oneshot_wake_simps [simp]:
  "borrows (oneshot_wake s) = borrows s" "o_value (oneshot_wake s) = o_value s"
  "value_present (oneshot_wake s) = value_present s" "sender_dropped (oneshot_wake s) = sender_dropped s"
  "receiver_dropped (oneshot_wake s) = receiver_dropped s" "o_recv_waker (oneshot_wake s) = None"
  "pushed (log (oneshot_wake s)) = pushed (log s)" "popped (log (oneshot_wake s)) = popped (log s)"
  by (simp_all add: oneshot_wake_def split: option.splits)

lemma oneshot_wake_log: "log (oneshot_wake s) = log s @ (case o_recv_waker s of None \<Rightarrow> [] | Some w \<Rightarrow> [Woke w])"
  by (simp add: oneshot_wake_def split: option.splits)

lemma idle_oneshot_update [simp]:
  "idle (oneshot_wake s) = idle s" "idle (s\<lparr>o_value := v\<rparr>) = idle s" "idle (s\<lparr>value_present := b\<rparr>) = idle s"
  "idle (s\<lparr>sender_dropped := b\<rparr>) = idle s" "idle (s\<lparr>receiver_dropped := b\<rparr>) = idle s"
  "idle (s\<lparr>o_recv_waker := w\<rparr>) = idle s" "idle (s\<lparr>o_usr := u\<rparr>) = idle s"
  by (simp_all add: idle_def)

lemma osstep_inv:
  assumes "osstep s s'" and "oneshot_inv s"
  shows "oneshot_inv s'"
  using assms(1)
proof cases
  case (send x)
  moreover from this assms(2) have "\<not> value_present s" "popped (log s) = []"
    by (auto simp: oneshot_inv_def split: if_splits)
  ultimately show ?thesis using assms(2) by (simp add: oneshot_inv_def)
qed (use assms(2) in \<open>auto simp: oneshot_inv_def\<close>)

lemma orstep_inv: "orstep s s' \<Longrightarrow> oneshot_inv s \<Longrightarrow> oneshot_inv s'"
  by (erule orstep.cases) (auto simp: oneshot_inv_def)

lemma osstep_log: "osstep s s' \<Longrightarrow> \<exists>es. log s' = log s @ es"
  by (erule osstep.cases) (auto simp: oneshot_wake_log split: option.splits)

lemma orstep_log: "orstep s s' \<Longrightarrow> \<exists>es. log s' = log s @ es"
  by (erule orstep.cases) auto

interpretation osender: channel_steps oneshot_inv osstep
  by unfold_locales (auto intro: osstep_inv osstep.event dest: osstep_log)

interpretation oboth: channel_steps oneshot_inv ostep
  by unfold_locales (auto simp: ostep_def intro: osstep_inv orstep_inv osstep.event dest: osstep_log orstep_log)

lemma ostep_of_osstep: "osstep\<^sup>*\<^sup>* s s' \<Longrightarrow> ostep\<^sup>*\<^sup>* s s'"
  by (erule rtranclp_mono [THEN predicate2D, rotated]) (auto simp: ostep_def)

text \<open>What the sender's side cannot change, and what no step undoes.\<close>

definition owaker_kept :: "('t, 'u) oneshot \<Rightarrow> ('t, 'u) oneshot \<Rightarrow> bool" where
  "owaker_kept s s' \<longleftrightarrow> o_recv_waker s' = o_recv_waker s
     \<or> o_recv_waker s' = None \<and> (\<forall>w. o_recv_waker s = Some w \<longrightarrow> Woke w \<in> set (new_log s s'))"

lemma ossteps_keep:
  assumes "osstep\<^sup>*\<^sup>* s s'"
  shows "receiver_dropped s' = receiver_dropped s" and "popped (log s') = popped (log s)"
    and "sender_dropped s \<longrightarrow> sender_dropped s'" and "owaker_kept s s'" 
    and "receiver_dropped s \<longrightarrow> value_present s' = value_present s \<and> o_value s' = o_value s"
  using assms
proof (induction rule: rtranclp_induct)
  case (step t u)
  { case 1 show ?case using step.hyps(2) step.IH(1) by cases simp_all }
  { case 2 show ?case using step.hyps(2) step.IH(2) by cases simp_all }
  { case 3 show ?case using step.hyps(2) step.IH(3) by cases simp_all }
  { case 4
    have m: "set (new_log s t) \<subseteq> set (new_log s u)" "set (new_log t u) \<subseteq> set (new_log s u)"
      using osender.new_log_mono [OF step.hyps(1), of u] step.hyps(2) by blast+
    have "owaker_kept t u"
      using step.hyps(2) by cases (simp_all add: owaker_kept_def new_log_def oneshot_wake_log split: option.splits)
    then show ?case using step.IH(4) m unfolding owaker_kept_def by auto }
  { case 5 show ?case using step.hyps(2) step.IH(1,5) by cases simp_all }
qed (auto simp: owaker_kept_def)

text \<open>A registered receiver with nothing to see is left alone or woken.\<close>

lemma parked_oneshot:
  assumes "osstep\<^sup>*\<^sup>* s s'" and "o_recv_waker s = Some w" and "\<not> value_present s" and "\<not> sender_dropped s"
  shows "o_recv_waker s' = Some w \<and> \<not> value_present s' \<and> \<not> sender_dropped s' \<or> Woke w \<in> set (new_log s s')"
  using assms(1)
proof (induction rule: rtranclp_induct)
  case base
  then show ?case using assms by simp
next
  case (step t u)
  have m: "set (new_log s t) \<subseteq> set (new_log s u)" "set (new_log t u) \<subseteq> set (new_log s u)"
    using osender.new_log_mono [OF step.hyps(1), of u] step.hyps(2) by blast+
  have "o_recv_waker u = Some w \<and> \<not> value_present u \<and> \<not> sender_dropped u \<or> Woke w \<in> set (new_log t u)"
    if "o_recv_waker t = Some w \<and> \<not> value_present t \<and> \<not> sender_dropped t"
    using step.hyps(2) that by cases (auto simp: oneshot_wake_def new_log_def)
  with step.IH m show ?case by blast
qed

section \<open>Computations on an idle channel\<close>

lemma oneshot_idle: "oneshot_inv s \<Longrightarrow> idle s"
  by (simp add: oneshot_inv_def)

lemma wp_oneshot_take_waker:
  assumes "idle s"
  shows "wp A (borrow_mut RecvWakerCell (\<lambda>s. (Ret (o_recv_waker s), s\<lparr>o_recv_waker := v\<rparr>))) Q E s
    = Q (o_recv_waker s) (s\<lparr>o_recv_waker := v\<rparr>)"
  by (subst wp_borrow_mut) (use assms in \<open>auto intro!: flag_freeI simp: wp_def\<close>)

lemma wp_oneshot_slot [wp_simps]:
  "wp A oneshot_replace_present Q E = (\<lambda>s. Q (value_present s) (s\<lparr>value_present := False\<rparr>))"
  "wp A oneshot_assume_init_read Q' E = (\<lambda>s. case o_value s of Uninit \<Rightarrow> False
     | Init x \<Rightarrow> Q' x (s\<lparr>o_value := Uninit, log := log s @ [Popped x]\<rparr>))"
  by (auto simp: wp_def oneshot_replace_present_def oneshot_assume_init_read_def fun_eq_iff split: slot.splits)

text \<open>The slot is read only when the flag says it is initialised, and then it is.\<close>

definition taken :: "('t, 'u) oneshot \<Rightarrow> 't \<Rightarrow> ('t, 'u) oneshot" where
  "taken s x = s\<lparr>value_present := False, o_value := Uninit, log := log s @ [Popped x]\<rparr>"

lemma oneshot_inv_cases:
  assumes "oneshot_inv s"
  obtains (present) x where "value_present s" and "o_value s = Init x" and "pushed (log s) = [x]" and "popped (log s) = []"
      and "ostep s (taken s x)"
  | (absent) "\<not> value_present s" and "o_value s = Uninit" and "pushed (log s) = popped (log s)"
      and "s\<lparr>value_present := False\<rparr> = s"
proof (cases "value_present s")
  case True
  then obtain x where x: "o_value s = Init x" "pushed (log s) = popped (log s) @ [x]" and "length (pushed (log s)) \<le> 1"
    using assms by (auto simp: oneshot_inv_def)
  then have "popped (log s) = []" by simp
  with present [OF True x(1)] x(2) True orstep.take [OF True x(1)] show thesis by (simp add: ostep_def taken_def)
next
  case False
  with absent assms show thesis by (simp add: oneshot_inv_def)
qed

lemma osteps_keep:
  assumes "ostep\<^sup>*\<^sup>* s s'"
  shows "sender_dropped s \<longrightarrow> sender_dropped s'" and "receiver_dropped s \<longrightarrow> receiver_dropped s'"
    and "sender_dropped s \<longrightarrow> pushed (log s') = pushed (log s)"
  using assms
proof (induction rule: rtranclp_induct)
  case (step t u)
  from step.hyps(2) consider "osstep t u" | "orstep t u" by (auto simp: ostep_def)
  then have k: "(sender_dropped t \<longrightarrow> sender_dropped u) \<and> (receiver_dropped t \<longrightarrow> receiver_dropped u)
      \<and> (sender_dropped t \<longrightarrow> pushed (log u) = pushed (log t))"
  proof cases
    case 1 then show ?thesis by cases simp_all
  next
    case 2 then show ?thesis by cases simp_all
  qed
  { case 1 show ?case using k step.IH(1) by simp }
  { case 2 show ?case using k step.IH(2) by simp }
  { case 3 show ?case using k step.IH(1,3) by simp }
qed auto

section \<open>Sender\<close>

text \<open>The state right after the sender was marked as dropped, with the wake that goes with it.\<close>

definition sender_gone :: "('t, 'u) oneshot \<Rightarrow> ('t, 'u) oneshot" where
  "sender_gone s = (if value_present s then s\<lparr>sender_dropped := True\<rparr> else oneshot_wake (s\<lparr>sender_dropped := True\<rparr>))"

lemma sender_gone_step: "osstep s (sender_gone s)"
  by (simp add: sender_gone_def osstep.drop_sent osstep.drop_unsent)

text \<open>The state right after the value was put into the slot, and the receiver's waker taken.\<close>

definition sent :: "('t, 'u) oneshot \<Rightarrow> 't \<Rightarrow> ('t, 'u) oneshot" where
  "sent s x = oneshot_wake (s\<lparr>o_value := Init x, log := log s @ [Pushed x], value_present := True\<rparr>)"

text \<open>
  The sender's operations, for every step relation that contains the sender's steps: its own steps
  alone, inside an operation of the receiver, and those of both sides.
\<close>

locale oneshot_sender = channel_steps oneshot_inv step
  for step :: "('t, 'u) oneshot \<Rightarrow> ('t, 'u) oneshot \<Rightarrow> bool" +
  assumes sender_step: "osstep s s' \<Longrightarrow> step s s'"
    and within: "step s s' \<Longrightarrow> ostep s s'"
begin

lemma steps_within: "step\<^sup>*\<^sup>* s s' \<Longrightarrow> ostep\<^sup>*\<^sup>* s s'"
  by (erule rtranclp_mono [THEN predicate2D, rotated]) (auto intro: within)

lemma oneshot_wake_steps:
  assumes u: "user_code A oneshot_inv step env" and s: "idle s" "oneshot_inv (oneshot_wake s)"
  shows "wp A (oneshot_wake_receiver env) (\<lambda>_. step\<^sup>*\<^sup>* (oneshot_wake s)) (\<lambda>_. step\<^sup>*\<^sup>* (oneshot_wake s)) s"
proof (cases "o_recv_waker s")
  case None
  then have "s\<lparr>o_recv_waker := None\<rparr> = oneshot_wake s" by (simp add: oneshot_wake_def)
  with None s(1) show ?thesis by (simp add: oneshot_wake_receiver_def wp_simps wp_oneshot_take_waker)
next
  case (Some w)
  then have "s\<lparr>o_recv_waker := None, log := log s @ [Woke w]\<rparr> = oneshot_wake s" by (simp add: oneshot_wake_def)
  with Some s guar_from [OF user_codeD(1) [OF u] _ s(2), of "oneshot_wake s" w] show ?thesis
    by (simp add: oneshot_wake_receiver_def wp_simps wp_oneshot_take_waker wake_def)
qed

lemma oneshot_sender_drop_steps:
  assumes u: "user_code A oneshot_inv step env" and s: "oneshot_inv s"
  shows "wp A (oneshot_sender_drop env) (\<lambda>_. step\<^sup>*\<^sup>* (sender_gone s)) (\<lambda>_. step\<^sup>*\<^sup>* (sender_gone s)) s"
proof (cases "value_present s")
  case True
  then show ?thesis by (simp add: oneshot_sender_drop_def wp_simps sender_gone_def)
next
  case False
  then have g: "sender_gone s = oneshot_wake (s\<lparr>sender_dropped := True\<rparr>)" by (simp add: sender_gone_def)
  have "oneshot_inv (sender_gone s)" using osstep_inv [OF sender_gone_step s] .
  with False g oneshot_wake_steps [OF u, of "s\<lparr>sender_dropped := True\<rparr>"] oneshot_idle [OF s] show ?thesis
    by (simp add: oneshot_sender_drop_def wp_simps)
qed

lemma send_steps:
  assumes u: "user_code A oneshot_inv step env" and A: "DoublePanic \<in> A" and s: "oneshot_inv s"
    and own: "\<not> sender_dropped s" "pushed (log s) = []"
  shows "wp A (oneshot_send env x)
    (\<lambda>r s'. if receiver_dropped s then r = Inl x \<and> s' = s\<lparr>sender_dropped := True\<rparr>
       else r = Inr () \<and> step\<^sup>*\<^sup>* (sent s x) s' \<and> sender_dropped s')
    (\<lambda>_ s'. \<not> receiver_dropped s \<and> step\<^sup>*\<^sup>* (sent s x) s' \<and> sender_dropped s') s"
proof (cases "receiver_dropped s")
  case True
  then have "\<not> value_present s" "o_recv_waker s = None"
    using s own(2) by (auto simp: oneshot_inv_def split: if_splits)
  then have "oneshot_wake (s\<lparr>sender_dropped := True\<rparr>) = s\<lparr>sender_dropped := True\<rparr>"
    and n: "s\<lparr>sender_dropped := True, o_recv_waker := None\<rparr> = s\<lparr>sender_dropped := True\<rparr>"
    by (simp_all add: oneshot_wake_def)
  with True \<open>\<not> value_present s\<close> \<open>o_recv_waker s = None\<close> oneshot_idle [OF s] show ?thesis
    by (simp add: oneshot_send_def oneshot_sender_drop_def oneshot_wake_receiver_def wp_simps wp_oneshot_take_waker n)
next
  case False
  let ?t = "s\<lparr>o_value := Init x, log := log s @ [Pushed x], value_present := True\<rparr>"
  have step: "osstep s (sent s x)" unfolding sent_def by (rule osstep.send [OF False own])
  have inv: "oneshot_inv (sent s x)" using osstep_inv [OF step s] .
  have drop: "wp A (oneshot_sender_drop env) (\<lambda>_ s'. step\<^sup>*\<^sup>* (sent s x) s' \<and> sender_dropped s')
      (\<lambda>_ s'. step\<^sup>*\<^sup>* (sent s x) s' \<and> sender_dropped s') t" if t: "step\<^sup>*\<^sup>* (sent s x) t" for t
  proof -
    have it: "oneshot_inv t" using inv_steps [OF t inv] .
    have "step t (sender_gone t)" using sender_gone_step by (rule sender_step)
    with t have g: "step\<^sup>*\<^sup>* (sent s x) (sender_gone t)" by simp
    have d: "sender_dropped (sender_gone t)" by (simp add: sender_gone_def)
    show ?thesis
      by (rule wp_conseq [OF oneshot_sender_drop_steps [OF u it]]) (use g d osteps_keep(1) [OF steps_within] in auto)
  qed
  have "wp A (oneshot_wake_receiver env) (\<lambda>_. step\<^sup>*\<^sup>* (sent s x)) (\<lambda>_. step\<^sup>*\<^sup>* (sent s x)) ?t"
    using oneshot_wake_steps [OF u, of ?t] inv oneshot_idle [OF s] by (simp add: sent_def)
  then show ?thesis
    using False A by (simp add: oneshot_send_def wp_simps) (erule wp_conseq; auto intro!: wp_conseq [OF drop])
qed

end

interpretation osender_ops: oneshot_sender osstep
  by unfold_locales (auto simp: ostep_def)

interpretation oshared_ops: oneshot_sender ostep
  by unfold_locales (auto simp: ostep_def)

section \<open>Receiver\<close>

definition oregistered :: "('t, 'u) oneshot \<Rightarrow> waker \<Rightarrow> ('t, 'u) oneshot \<Rightarrow> bool" where
  "oregistered s w s' \<longleftrightarrow> (\<exists>t. osstep\<^sup>*\<^sup>* s t \<and> osstep\<^sup>*\<^sup>* (t\<lparr>o_recv_waker := Some w\<rparr>) s')"

lemma oregistered_keeps:
  assumes "oregistered s w s'"
  shows "popped (log s') = popped (log s)" and "receiver_dropped s' = receiver_dropped s"
    and "o_recv_waker s' = Some w \<or> Woke w \<in> set (new_log s s')"
proof -
  obtain t where t: "osstep\<^sup>*\<^sup>* s t" and s': "osstep\<^sup>*\<^sup>* (t\<lparr>o_recv_waker := Some w\<rparr>) s'"
    using assms by (auto simp: oregistered_def)
  note k = ossteps_keep [OF t] and k' = ossteps_keep [OF s']
  show "popped (log s') = popped (log s)" and "receiver_dropped s' = receiver_dropped s"
    using k(1,2) k'(1,2) by simp_all
  have "new_log s s' = new_log s t @ new_log (t\<lparr>o_recv_waker := Some w\<rparr>) s'"
    using osender.steps_log [OF t] osender.steps_log [OF s'] by (simp add: new_log_def [of s s'])
  then show "o_recv_waker s' = Some w \<or> Woke w \<in> set (new_log s s')"
    using k'(4) by (auto simp: owaker_kept_def)
qed

lemma oregistered_steps:
  assumes "oregistered s w s'" and "\<not> receiver_dropped s"
  shows "ostep\<^sup>*\<^sup>* s s'"
proof -
  obtain t where t: "osstep\<^sup>*\<^sup>* s t" and s': "osstep\<^sup>*\<^sup>* (t\<lparr>o_recv_waker := Some w\<rparr>) s'"
    using assms by (auto simp: oregistered_def)
  have "\<not> receiver_dropped t" using ossteps_keep(1) [OF t] assms(2) by simp
  then have "ostep t (t\<lparr>o_recv_waker := Some w\<rparr>)" by (simp add: ostep_def orstep.register)
  with ostep_of_osstep [OF t] have "ostep\<^sup>*\<^sup>* s (t\<lparr>o_recv_waker := Some w\<rparr>)" by (rule rtranclp.rtrancl_into_rtrancl)
  with ostep_of_osstep [OF s'] show ?thesis by simp
qed

lemma oregister_steps:
  assumes u: "user_code A oneshot_inv osstep env" and c: "same_clones env" and s: "oneshot_inv s" "\<not> receiver_dropped s"
    and Q: "\<And>s'. oneshot_inv s' \<Longrightarrow> oregistered s w s' \<Longrightarrow> Q () s'"
    and E: "\<And>p s'. oneshot_inv s' \<Longrightarrow> osstep\<^sup>*\<^sup>* s s' \<or> oregistered s w s' \<Longrightarrow> E p s'"
  shows "wp A (oneshot_register_recv_waker env w) Q E s"
proof -
  have "wp A (clone_waker env w) (\<lambda>_. osstep\<^sup>*\<^sup>* s) (\<lambda>_. osstep\<^sup>*\<^sup>* s) s"
    by (rule osender.guar_from [OF osender.guar_user(3) [OF u] _ s(1)]) simp
  then have clone: "wp A (clone_waker env w) (\<lambda>v s'. v = w \<and> osstep\<^sup>*\<^sup>* s s') (\<lambda>_. osstep\<^sup>*\<^sup>* s) s"
    using c by (auto dest!: wp_clone_same)
  have store: "wp A (drop_waker_option env v) Q E (t\<lparr>o_recv_waker := Some w\<rparr>)" if t: "osstep\<^sup>*\<^sup>* s t" for t v
  proof -
    have "\<not> receiver_dropped t" using ossteps_keep(1) [OF t] s(2) by simp
    then have "oneshot_inv (t\<lparr>o_recv_waker := Some w\<rparr>)"
      using orstep_inv [OF orstep.register] osender.inv_steps [OF t s(1)] by blast
    moreover have "oregistered s w s'" if "osstep\<^sup>*\<^sup>* (t\<lparr>o_recv_waker := Some w\<rparr>) s'" for s'
      using t that by (auto simp: oregistered_def)
    ultimately show ?thesis
      by (intro osender.guar_wp [OF osender.guar_user(7) [OF u]]) (simp_all add: Q E)
  qed
  have "idle t" if "osstep\<^sup>*\<^sup>* s t" for t using osender.inv_steps [OF that s(1)] oneshot_idle by blast
  then show ?thesis
    using s(2) by (simp add: oneshot_register_recv_waker_def wp_simps)
      (rule wp_conseq [OF clone], auto simp: wp_oneshot_take_waker store intro: E osender.inv_steps [OF _ s(1)])
qed

text \<open>The outcome of a poll of a receiver that is not done.\<close>

definition oneshot_polled :: "waker \<Rightarrow> ('t, 'u) oneshot \<Rightarrow> (canceled + 't) poll \<Rightarrow> ('t, 'u) recv_state \<Rightarrow> bool" where
  "oneshot_polled w s p = (\<lambda>(s', d). oneshot_inv s' \<and> ostep\<^sup>*\<^sup>* s s' \<and> (case p of
     Ready (Inr x) \<Rightarrow> d \<and> pushed (log s') = [x] \<and> popped (log s') = [x] \<and> popped (log s) = []
   | Ready (Inl _) \<Rightarrow> d \<and> sender_dropped s' \<and> \<not> value_present s' \<and> popped (log s') = popped (log s)
   | Pending \<Rightarrow> \<not> d \<and> \<not> sender_dropped s' \<and> \<not> value_present s' \<and> popped (log s') = popped (log s)
       \<and> oregistered s w s'))"

lemma poll_check_steps:
  assumes t: "oneshot_inv t" and st: "ostep\<^sup>*\<^sup>* s t" and p: "popped (log t) = popped (log s)"
    and other: "\<not> value_present t \<Longrightarrow> \<not> sender_dropped t \<Longrightarrow> wp A k (oneshot_polled w s) E (t, d)"
  shows "wp A (oneshot_poll_check k) (oneshot_polled w s) E (t, d)"
  using t
proof (cases rule: oneshot_inv_cases)
  case (present x)
  have "oneshot_inv (taken t x)" using oboth.inv_step [OF t present(5)] .
  moreover have "ostep\<^sup>*\<^sup>* s (taken t x)" using st present(5) by (rule rtranclp.rtrancl_into_rtrancl)
  ultimately show ?thesis
    using present p by (simp add: oneshot_poll_check_def wp_simps oneshot_polled_def taken_def)
next
  case absent
  have eq: "t\<lparr>value_present := False\<rparr> = t" by (rule absent(4))
  from absent other t st p show ?thesis
    by (auto simp: oneshot_poll_check_def wp_simps oneshot_polled_def eq)
qed

lemma oneshot_poll_steps:
  assumes u: "user_code A oneshot_inv osstep env" and c: "same_clones env" and s: "oneshot_inv s" "\<not> receiver_dropped s"
  shows "wp A (oneshot_poll env w) (oneshot_polled w s)
    (\<lambda>_ (s', d). oneshot_inv s' \<and> ostep\<^sup>*\<^sup>* s s' \<and> \<not> d \<and> popped (log s') = popped (log s)) (s, False)"
proof -
  have again: "wp A (oneshot_poll_check (ret Pending)) (oneshot_polled w s) E (t, False)"
    if "oneshot_inv t" "oregistered s w t" for t and E :: "payload \<Rightarrow> ('a, 'b) recv_state \<Rightarrow> bool"
    using that s(2)
    by (intro poll_check_steps) (auto simp: oregistered_keeps oregistered_steps wp_simps oneshot_polled_def)
  have "wp A (oneshot_register_recv_waker env w) (\<lambda>_ t. wp A (oneshot_poll_check (ret Pending)) (oneshot_polled w s) E (t, False))
      (\<lambda>p t. oneshot_inv t \<and> ostep\<^sup>*\<^sup>* s t \<and> popped (log t) = popped (log s)) s" for E
    by (rule oregister_steps [OF u c s])
      (use s in \<open>auto intro: again oregistered_steps ostep_of_osstep simp: oregistered_keeps ossteps_keep\<close>)
  then show ?thesis
    using s(1) by (simp add: oneshot_poll_def wp_simps) (intro poll_check_steps, auto simp: wp_simps)
qed

text \<open>The value left in the slot is destroyed once the receiver is gone.\<close>

lemma oneshot_drop_value_steps:
  assumes u: "user_code A oneshot_inv osstep env" and t: "oneshot_inv t" "ostep\<^sup>*\<^sup>* s t" "receiver_dropped t"
  shows "wp A (oneshot_drop_value env)
    (\<lambda>_ s'. oneshot_inv s' \<and> ostep\<^sup>*\<^sup>* s s' \<and> receiver_dropped s' \<and> \<not> value_present s'
       \<and> (value_present t \<longrightarrow> (\<exists>x. o_value t = Init x \<and> ItemDropped x \<in> set (log s') \<and> popped (log s') = [x])))
    (\<lambda>_ s'. oneshot_inv s' \<and> ostep\<^sup>*\<^sup>* s s' \<and> receiver_dropped s') t"
  using t(1)
proof (cases rule: oneshot_inv_cases)
  case (present x)
  let ?t = "(taken t x)\<lparr>log := log (taken t x) @ [ItemDropped x]\<rparr>"
  have e: "osstep (taken t x) ?t" by (rule osstep.event) simp
  have it: "oneshot_inv ?t" using osstep_inv [OF e oboth.inv_step [OF t(1) present(5)]] .
  have st: "ostep\<^sup>*\<^sup>* s ?t" using t(2) present(5) ostep_of_osstep [OF r_into_rtranclp [of osstep, OF e]] by (meson rtranclp.rtrancl_into_rtrancl rtranclp_trans)
  have tt: "t\<lparr>value_present := False, o_value := Uninit, log := log t @ [Popped x, ItemDropped x]\<rparr> = ?t"
    by (simp add: taken_def)
  have "oneshot_inv s' \<and> ostep\<^sup>*\<^sup>* s s' \<and> receiver_dropped s' \<and> \<not> value_present s' \<and> ItemDropped x \<in> set (log s') \<and> popped (log s') = [x]"
    if w: "osstep\<^sup>*\<^sup>* ?t s'" for s'
    using ossteps_keep(1,2,5) [OF w] st ostep_of_osstep [OF w] osender.inv_steps [OF w it] t(3) present(4)
      osender.steps_log [OF w] by (simp add: taken_def)
  then show ?thesis
    using present
    by (simp add: oneshot_drop_value_def drop_item_def wp_simps tt)
      (rule osender.guar_wp [OF osender.user_codeD(5) [OF u] it], simp_all)
next
  case absent
  have eq: "t\<lparr>value_present := False\<rparr> = t" by (rule absent(4))
  from absent t show ?thesis by (simp add: oneshot_drop_value_def wp_simps eq)
qed

lemma oneshot_receiver_drop_steps:
  assumes u: "user_code A oneshot_inv osstep env" and s: "oneshot_inv s"
  shows "wp A (oneshot_receiver_drop env)
    (\<lambda>_ s'. oneshot_inv s' \<and> ostep\<^sup>*\<^sup>* s s' \<and> receiver_dropped s' \<and> \<not> value_present s'
       \<and> (value_present s \<longrightarrow> (\<exists>x. o_value s = Init x \<and> ItemDropped x \<in> set (log s') \<and> popped (log s') = [x])))
    (\<lambda>_ s'. oneshot_inv s' \<and> ostep\<^sup>*\<^sup>* s s' \<and> receiver_dropped s') s"
proof -
  let ?s = "s\<lparr>receiver_dropped := True, o_recv_waker := None\<rparr>"
  have s0: "ostep s ?s" "oneshot_inv ?s" using orstep_inv [OF orstep.drop_receiver s] by (auto simp: ostep_def orstep.drop_receiver)
  have drop: "wp A (drop_waker_option env v) (\<lambda>_ t. osstep\<^sup>*\<^sup>* ?s t) (\<lambda>_ t. osstep\<^sup>*\<^sup>* ?s t) ?s" for v
    by (rule osender.guar_from [OF osender.guar_user(7) [OF u] _ s0(2)]) simp
  have mid: "oneshot_inv t \<and> ostep\<^sup>*\<^sup>* s t \<and> receiver_dropped t \<and> value_present t = value_present s \<and> o_value t = o_value s"
    if w: "osstep\<^sup>*\<^sup>* ?s t" for t
    using ossteps_keep(1,5) [OF w] osender.inv_steps [OF w s0(2)]
      converse_rtranclp_into_rtranclp [of ostep, OF s0(1) ostep_of_osstep [OF w]] by simp
  show ?thesis
    using oneshot_idle [OF s]
    by (simp add: oneshot_receiver_drop_def oneshot_clear_recv_waker_def wp_simps wp_oneshot_take_waker)
      (rule wp_conseq [OF drop], auto dest!: mid intro!: wp_conseq [OF oneshot_drop_value_steps [OF u]])
qed

end
