(* ===== verification/Oneshot_Calls.thy ===== *)
theory Oneshot_Calls
  imports Oneshot_Proofs
begin

text \<open>
  What a program can do with the two halves of a one-shot channel: the calls of
  \<open>src/oneshot/mod.rs\<close>, whether a call returns or unwinds, with user code inside that makes such calls in
  turn. Every call is a sequence of channel steps.
\<close>

section \<open>Calls\<close>

text \<open>
  The flag \<open>e\<close> says whether running code can reach the receiver: inside an operation of the receiver,
  which borrows it mutably, it cannot. The sender is there until \<open>send\<close> or its destructor consumes it;
  then a value was written or the sender is marked as dropped before any user code runs. The \<open>done\<close> flag
  of the receiver is arbitrary, so that nothing depends on how the caller threads it. The shared state
  itself is dropped when both halves are gone.
\<close>

inductive oneshot_call :: "bool \<Rightarrow> ('t, 'u) oneshot \<Rightarrow> ('t, 'u) oneshot \<Rightarrow> bool" where
  user: "oneshot_call e s (s\<lparr>o_usr := u\<rparr>)"
| send: "user_code UNIV oneshot_inv (oneshot_call e) env \<Longrightarrow> \<not> sender_dropped s \<Longrightarrow> pushed (log s) = []
    \<Longrightarrow> oneshot_send env x s = (r, s') \<Longrightarrow> finished r \<Longrightarrow> oneshot_call e s s'"
| sender_drop: "user_code UNIV oneshot_inv (oneshot_call e) env \<Longrightarrow> \<not> sender_dropped s \<Longrightarrow> pushed (log s) = []
    \<Longrightarrow> oneshot_sender_drop env s = (r, s') \<Longrightarrow> finished r \<Longrightarrow> oneshot_call e s s'"
| try_recv: "e \<Longrightarrow> \<not> receiver_dropped s \<Longrightarrow> oneshot_try_recv (s, d) = (r, (s', d')) \<Longrightarrow> oneshot_call e s s'"
| try_iter_next: "e \<Longrightarrow> \<not> receiver_dropped s \<Longrightarrow> oneshot_try_iter_next (s, d) = (r, (s', d')) \<Longrightarrow> oneshot_call e s s'"
| poll: "e \<Longrightarrow> user_code UNIV oneshot_inv (oneshot_call False) env \<Longrightarrow> same_clones env \<Longrightarrow> \<not> receiver_dropped s
    \<Longrightarrow> oneshot_poll env w (s, d) = (r, (s', d')) \<Longrightarrow> finished r \<Longrightarrow> oneshot_call e s s'"
| receiver_drop: "e \<Longrightarrow> user_code UNIV oneshot_inv (oneshot_call False) env \<Longrightarrow> \<not> receiver_dropped s
    \<Longrightarrow> oneshot_receiver_drop env s = (r, s') \<Longrightarrow> finished r \<Longrightarrow> oneshot_call e s s'"
| inner_drop: "e \<Longrightarrow> user_code UNIV oneshot_inv (oneshot_call False) env \<Longrightarrow> receiver_dropped s \<Longrightarrow> sender_dropped s
    \<Longrightarrow> oneshot_inner_drop env s = (r, s') \<Longrightarrow> finished r \<Longrightarrow> oneshot_call e s s'"

section \<open>Calls as steps\<close>

fun oreach_step :: "bool \<Rightarrow> ('t, 'u) oneshot \<Rightarrow> ('t, 'u) oneshot \<Rightarrow> bool" where
  "oreach_step True = ostep"
| "oreach_step False = osstep"

interpretation oreached: oneshot_sender "oreach_step e" for e
  by (cases e) (simp_all add: oshared_ops.oneshot_sender_axioms osender_ops.oneshot_sender_axioms)

text \<open>The sender's calls.\<close>

lemma oneshot_sender_calls:
  assumes u: "user_code UNIV oneshot_inv (oreach_step e) env" and s: "oneshot_inv s"
    and own: "\<not> sender_dropped s" "pushed (log s) = []"
  shows "wp UNIV (oneshot_send env x) (\<lambda>_. (oreach_step e)\<^sup>*\<^sup>* s) (\<lambda>_. (oreach_step e)\<^sup>*\<^sup>* s) s"
    and "wp UNIV (oneshot_sender_drop env) (\<lambda>_. (oreach_step e)\<^sup>*\<^sup>* s) (\<lambda>_. (oreach_step e)\<^sup>*\<^sup>* s) s"
proof -
  have sent: "(oreach_step e)\<^sup>*\<^sup>* s s'" if "\<not> receiver_dropped s" "(oreach_step e)\<^sup>*\<^sup>* (sent s x) s'" for s'
    using oreached.sender_step [OF osstep.send [OF that(1) own]] that(2) unfolding sent_def
    by (rule converse_rtranclp_into_rtranclp)
  have gone: "(oreach_step e)\<^sup>*\<^sup>* s s'" if "(oreach_step e)\<^sup>*\<^sup>* (sender_gone s) s'" for s'
    using oreached.sender_step [OF sender_gone_step] that by (rule converse_rtranclp_into_rtranclp)
  have returned: "(oreach_step e)\<^sup>*\<^sup>* s (s\<lparr>sender_dropped := True\<rparr>)" if "receiver_dropped s"
  proof -
    from that s own have "sender_gone s = s\<lparr>sender_dropped := True\<rparr>"
      by (auto simp: sender_gone_def oneshot_wake_def oneshot_inv_def split: if_splits)
    with gone [of "sender_gone s"] show ?thesis by simp
  qed
  show "wp UNIV (oneshot_send env x) (\<lambda>_. (oreach_step e)\<^sup>*\<^sup>* s) (\<lambda>_. (oreach_step e)\<^sup>*\<^sup>* s) s"
    by (rule wp_conseq [OF oreached.send_steps [OF u _ s own]]) (auto intro: sent returned split: if_splits)
  show "wp UNIV (oneshot_sender_drop env) (\<lambda>_. (oreach_step e)\<^sup>*\<^sup>* s) (\<lambda>_. (oreach_step e)\<^sup>*\<^sup>* s) s"
    by (rule wp_conseq [OF oreached.oneshot_sender_drop_steps [OF u s]]) (auto intro: gone)
qed

text \<open>The receiver's calls.\<close>

lemma oneshot_take_calls:
  assumes "oneshot_inv s"
  shows "oneshot_try_recv (s, d) = (r, (s', d')) \<Longrightarrow> ostep\<^sup>*\<^sup>* s s'"
    and "oneshot_try_iter_next (s, d) = (q, (s', d')) \<Longrightarrow> ostep\<^sup>*\<^sup>* s s'"
proof -
  have wp: "wp {} (oneshot_take_value) (\<lambda>_ (s', d'). ostep\<^sup>*\<^sup>* s s') (\<lambda>_ _. False) (s, d)"
    using assms
  proof (cases rule: oneshot_inv_cases)
    case (present x)
    then show ?thesis by (simp add: oneshot_take_value_def wp_simps taken_def r_into_rtranclp)
  next
    case absent
    have eq: "s\<lparr>value_present := False\<rparr> = s" by (rule absent(4))
    from absent show ?thesis by (simp add: oneshot_take_value_def wp_simps eq)
  qed
  then have "wp {} (oneshot_try_recv) (\<lambda>_ (s', d'). ostep\<^sup>*\<^sup>* s s') (\<lambda>_ _. False) (s, d)"
    unfolding oneshot_try_recv_def wp_bindM [of _ oneshot_take_value]
    by (rule wp_conseq) (auto simp: wp_simps split: option.split)
  with wp show "oneshot_try_recv (s, d) = (r, (s', d')) \<Longrightarrow> ostep\<^sup>*\<^sup>* s s'"
    and "oneshot_try_iter_next (s, d) = (q, (s', d')) \<Longrightarrow> ostep\<^sup>*\<^sup>* s s'"
    by (auto simp: oneshot_try_iter_next_def wp_def split: outcome.splits)
qed

lemma oneshot_receiver_calls:
  assumes u: "user_code UNIV oneshot_inv osstep env" and s: "oneshot_inv s"
  shows "same_clones env \<Longrightarrow> \<not> receiver_dropped s \<Longrightarrow>
      wp UNIV (oneshot_poll env w) (\<lambda>_ (s', d'). ostep\<^sup>*\<^sup>* s s') (\<lambda>_ (s', d'). ostep\<^sup>*\<^sup>* s s') (s, d)"
    and "wp UNIV (oneshot_receiver_drop env) (\<lambda>_. ostep\<^sup>*\<^sup>* s) (\<lambda>_. ostep\<^sup>*\<^sup>* s) s"
    and "receiver_dropped s \<Longrightarrow> wp UNIV (oneshot_inner_drop env) (\<lambda>_. ostep\<^sup>*\<^sup>* s) (\<lambda>_. ostep\<^sup>*\<^sup>* s) s"
proof -
  assume c: "same_clones env" and r: "\<not> receiver_dropped s"
  show "wp UNIV (oneshot_poll env w) (\<lambda>_ (s', d'). ostep\<^sup>*\<^sup>* s s') (\<lambda>_ (s', d'). ostep\<^sup>*\<^sup>* s s') (s, d)"
  proof (cases d)
    case True
    then show ?thesis by (simp add: oneshot_poll_def wp_simps)
  next
    case False
    then show ?thesis
      using wp_conseq [OF oneshot_poll_steps [OF u c s r]] by (auto simp: oneshot_polled_def)
  qed
next
  show "wp UNIV (oneshot_receiver_drop env) (\<lambda>_. ostep\<^sup>*\<^sup>* s) (\<lambda>_. ostep\<^sup>*\<^sup>* s) s"
    by (rule wp_conseq [OF oneshot_receiver_drop_steps [OF u s]]) auto
next
  assume "receiver_dropped s"
  then show "wp UNIV (oneshot_inner_drop env) (\<lambda>_. ostep\<^sup>*\<^sup>* s) (\<lambda>_. ostep\<^sup>*\<^sup>* s) s"
    unfolding oneshot_inner_drop_def
    by (intro wp_conseq [OF oneshot_drop_value_steps [OF u s rtranclp.rtrancl_refl]]) auto
qed

text \<open>Every call is a sequence of the steps its reach allows, by induction over the nesting of calls.\<close>

lemma oneshot_inner_calls:
  assumes "user_code UNIV oneshot_inv (\<lambda>s s'. oneshot_call e s s' \<and> (oneshot_inv s \<longrightarrow> (oreach_step e)\<^sup>*\<^sup>* s s')) env"
  shows "user_code UNIV oneshot_inv (oreach_step e) env"
  using assms by (rule user_code_by_steps) (auto intro: oreached.inv_step)

lemma oneshot_inner_borrowed:
  assumes "user_code UNIV oneshot_inv (\<lambda>s s'. oneshot_call False s s' \<and> (oneshot_inv s \<longrightarrow> (oreach_step False)\<^sup>*\<^sup>* s s')) env"
  shows "user_code UNIV oneshot_inv osstep env"
  using oneshot_inner_calls [OF assms] by simp

lemma oneshot_call_steps: "oneshot_call e s s' \<Longrightarrow> oneshot_inv s \<Longrightarrow> (oreach_step e)\<^sup>*\<^sup>* s s'"
proof (induction rule: oneshot_call.induct)
  case (user e s u)
  show ?case using oreached.sender_step [OF osstep.user] by (rule r_into_rtranclp)
next
  case (send e env s x r s')
  from wp_finished [OF oneshot_sender_calls(1) [OF oneshot_inner_calls [OF send.IH] send.prems send.hyps(1,2)] send.hyps(3,4)] show ?case .
next
  case (sender_drop e env s r s')
  from wp_finished [OF oneshot_sender_calls(2) [OF oneshot_inner_calls [OF sender_drop.IH] sender_drop.prems sender_drop.hyps(1,2)] sender_drop.hyps(3,4)]
  show ?case .
next
  case (try_recv e s d r s' d')
  then show ?case using oneshot_take_calls(1) by fastforce
next
  case (try_iter_next e s d r s' d')
  then show ?case using oneshot_take_calls(2) by fastforce
next
  case (poll e env s w d r s' d')
  from wp_finished [OF oneshot_receiver_calls(1) [OF oneshot_inner_borrowed [OF poll.IH] poll.prems poll.hyps(2,3)] poll.hyps(4,5)] poll.hyps(1)
  show ?case by simp
next
  case (receiver_drop e env s r s')
  from wp_finished [OF oneshot_receiver_calls(2) [OF oneshot_inner_borrowed [OF receiver_drop.IH] receiver_drop.prems] receiver_drop.hyps(3,4)] receiver_drop.hyps(1)
  show ?case by simp
next
  case (inner_drop e env s r s')
  from wp_finished [OF oneshot_receiver_calls(3) [OF oneshot_inner_borrowed [OF inner_drop.IH] inner_drop.prems inner_drop.hyps(2)] inner_drop.hyps(4,5)] inner_drop.hyps(1)
  show ?case by simp
qed

lemma oneshot_calls_steps: "(oneshot_call e)\<^sup>*\<^sup>* s s' \<Longrightarrow> oneshot_inv s \<Longrightarrow> (oreach_step e)\<^sup>*\<^sup>* s s'"
proof (induction rule: rtranclp_induct)
  case (step t u)
  then have "(oreach_step e)\<^sup>*\<^sup>* t u" using oneshot_call_steps oreached.inv_steps by blast
  with step show ?case by simp
qed simp

lemma oneshot_calls_user:
  "user_code A oneshot_inv (oneshot_call e) env \<Longrightarrow> user_code A oneshot_inv (oreach_step e) env"
  by (erule user_code_by_steps) (auto intro: oreached.inv_step oneshot_call_steps)

end
