(* ===== verification/Oneshot_Theorems.thy ===== *)
theory Oneshot_Theorems
  imports Oneshot_Calls
begin

text \<open>
  The properties of the one-shot channel. Those about a run speak of the calls of a program, with user
  code nested to any depth; those about one operation assume that the user code inside it acts on the
  channel by its own steps.
\<close>

section \<open>Sample channels\<close>

definition osample :: "(nat, unit) oneshot" where
  "osample = fst (oneshot_channel ())"

lemma oneshot_channel_inv: "oneshot_inv (fst (oneshot_channel u))"
  by (simp add: oneshot_inv_def oneshot_channel_def idle_def)

lemma osample_inv: "oneshot_inv osample"
  by (simp add: osample_def oneshot_channel_inv)

lemma osample_sel [simp]:
  "\<not> receiver_dropped osample" "\<not> sender_dropped osample" "\<not> value_present osample" "log osample = []"
  "o_recv_waker osample = None"
  by (simp_all add: osample_def oneshot_channel_def)

text \<open>A run: the value 3 is sent, and then received.\<close>

definition osent :: "(nat, unit) oneshot" where
  "osent = snd (oneshot_send (quiet_env True) 3 osample)"

lemma osent_call: "oneshot_call e osample osent"
proof -
  have "fst (oneshot_send (quiet_env True) 3 osample) = Ret (Inr ())" by code_simp
  then have "oneshot_send (quiet_env True) 3 osample = (Ret (Inr ()), osent)" by (simp add: osent_def prod_eq_iff)
  then show ?thesis by (rule oneshot_call.send [OF user_code_quiet, rotated 2]) simp_all
qed

lemma osent_inv: "oneshot_inv osent"
  using oreached.inv_steps [OF oneshot_call_steps [OF osent_call [of True] osample_inv] osample_inv] .

section \<open>Properties\<close>

text \<open>
  C19. A one-shot channel delivers at most one value, at most once, and only a value that was sent.
  Whatever calls the two sides make on a new channel, returning or unwinding, with user code inside that
  makes calls of its own, the values taken from it are a prefix of the values put into it, of which there
  is at most one, and what is missing is in the slot. The slot is initialised exactly when the flag says
  so, and no cell is left borrowed.
\<close>

theorem oneshot_at_most_once:
  assumes "(oneshot_call True)\<^sup>*\<^sup>* (fst (oneshot_channel u)) s"
  shows "length (pushed (log s)) \<le> 1 \<and> (value_present s \<longleftrightarrow> o_value s \<noteq> Uninit)
    \<and> pushed (log s) = popped (log s) @ (case o_value s of Uninit \<Rightarrow> [] | Init x \<Rightarrow> [x]) \<and> idle s"
proof -
  have "oneshot_inv s"
    using oreached.inv_steps [OF oneshot_calls_steps [OF assms oneshot_channel_inv] oneshot_channel_inv] .
  then show ?thesis by (auto simp: oneshot_inv_def split: if_splits)
qed

theorem oneshot_at_most_once_witness:
  "pushed (log (fst (snd (oneshot_try_recv (osent, False))))) = [3] \<and> o_value (fst (snd (oneshot_try_recv (osent, False)))) = Uninit"
proof -
  let ?s = "fst (snd (oneshot_try_recv (osent, False)))"
  have "\<not> receiver_dropped osent" by code_simp
  then have "oneshot_call True osent ?s"
    by (rule oneshot_call.try_recv [where r = "fst (oneshot_try_recv (osent, False))" and d = False and d' = "snd (snd (oneshot_try_recv (osent, False)))", rotated]) simp_all
  with osent_call [of True] have "(oneshot_call True)\<^sup>*\<^sup>* (fst (oneshot_channel ())) ?s"
    unfolding osample_def by (meson r_into_rtranclp rtranclp.rtrancl_into_rtrancl)
  from oneshot_at_most_once [OF this]
  have "pushed (log ?s) = popped (log ?s) @ (case o_value ?s of Uninit \<Rightarrow> [] | Init x \<Rightarrow> [x])" by blast
  moreover have "popped (log ?s) = [3]" "o_value ?s = Uninit" by code_simp+
  ultimately show ?thesis by simp
qed

text \<open>
  C33. \<open>Sender::send\<close>, which consumes the sender. If the receiver is gone the value comes back and
  nothing but the sender's own end is recorded. Otherwise the value is in the slot, and the parked
  receiver is woken right after, also when its waker panics; and the sender is gone in the end.
  The write is the only one, so it never overwrites a value.
\<close>

theorem oneshot_send_spec:
  assumes "user_code A oneshot_inv ostep env" and "DoublePanic \<in> A" and "oneshot_inv s"
    and "\<not> sender_dropped s" and "pushed (log s) = []"
  shows "wp A (oneshot_send env x)
    (\<lambda>r s'. if receiver_dropped s then r = Inl x \<and> s' = s\<lparr>sender_dropped := True\<rparr>
       else r = Inr () \<and> sender_dropped s' \<and> pushed (log s') = [x]
         \<and> (\<exists>es. new_log s s' = Pushed x # (case o_recv_waker s of None \<Rightarrow> [] | Some w \<Rightarrow> [Woke w]) @ es))
    (\<lambda>_ s'. \<not> receiver_dropped s \<and> sender_dropped s' \<and> pushed (log s') = [x]
         \<and> (\<exists>es. new_log s s' = Pushed x # (case o_recv_waker s of None \<Rightarrow> [] | Some w \<Rightarrow> [Woke w]) @ es)) s"
proof -
  have post: "pushed (log s') = [x] \<and> (\<exists>es. new_log s s' = Pushed x # (case o_recv_waker s of None \<Rightarrow> [] | Some w \<Rightarrow> [Woke w]) @ es)"
    if r: "\<not> receiver_dropped s" and t: "ostep\<^sup>*\<^sup>* (sent s x) s'" for s'
  proof -
    have "osstep s (sent s x)" unfolding sent_def by (rule osstep.send [OF r assms(4,5)])
    then have "oneshot_inv s'" using osstep_inv assms(3) oboth.inv_steps [OF t] by blast
    moreover have l: "log s' = log s @ Pushed x # (case o_recv_waker s of None \<Rightarrow> [] | Some w \<Rightarrow> [Woke w]) @ new_log (sent s x) s'"
      using oboth.steps_log [OF t] by (simp add: sent_def oneshot_wake_log)
    ultimately have "pushed (log s') = [x]" using assms(5) by (auto simp: oneshot_inv_def split: option.splits)
    with l show ?thesis by (simp add: new_log_def [of s s'])
  qed
  show ?thesis
    by (rule wp_conseq [OF oshared_ops.send_steps [OF assms]]) (auto split: if_splits dest: post)
qed

theorem oneshot_send_spec_witness:
  "wp {DoublePanic} (oneshot_send (quiet_env True) 3) (\<lambda>r s'. r = Inr () \<and> pushed (log s') = [3]) (\<lambda>_ _. True) osample"
  by (rule wp_conseq [OF oneshot_send_spec [OF user_code_quiet _ osample_inv]]) auto

text \<open>
  C32. Polling a receiver that has not finished. \<open>Ready(Ok x)\<close>: \<open>x\<close> is the value that was sent, and it is
  delivered for the first time. \<open>Ready(Err(Canceled))\<close>: the sender is gone and no value was ever sent.
  \<open>Pending\<close>: nothing was sent, the sender is still there, and the task's waker is registered or was
  woken during the poll. If user code unwinds, nothing was taken and the receiver can be polled again.
\<close>

theorem oneshot_poll_spec:
  assumes "user_code A oneshot_inv osstep env" and "same_clones env" and "oneshot_inv s" and "\<not> receiver_dropped s"
    and "popped (log s) = []"
  shows "wp A (oneshot_poll env w)
    (\<lambda>p (s', d). case p of
       Ready (Inr x) \<Rightarrow> d \<and> pushed (log s') = [x] \<and> popped (log s') = [x]
     | Ready (Inl _) \<Rightarrow> d \<and> sender_dropped s' \<and> pushed (log s') = []
     | Pending \<Rightarrow> \<not> d \<and> \<not> sender_dropped s' \<and> pushed (log s') = []
         \<and> (o_recv_waker s' = Some w \<or> Woke w \<in> set (new_log s s')))
    (\<lambda>_ (s', d). \<not> d \<and> oneshot_inv s' \<and> popped (log s') = []) (s, False)"
  by (rule wp_conseq [OF oneshot_poll_steps [OF assms(1-4)]])
    (use assms(5) in \<open>auto simp: oneshot_polled_def oneshot_inv_def dest: oregistered_keeps(3)
      split: poll.splits sum.splits\<close>)

theorem oneshot_poll_spec_witness:
  "wp {} (oneshot_poll (quiet_env True) 5) (\<lambda>p (s', d). p = Pending \<longrightarrow> \<not> d \<and> pushed (log s') = []) (\<lambda>_ _. True) (osample, False)"
  by (rule wp_conseq [OF oneshot_poll_spec [OF user_code_quiet clones_quiet osample_inv]]) auto

text \<open>
  C20. No wakeup is lost: after a poll that returned \<open>Pending\<close>, and whatever the holder of the sender then
  does, returning or unwinding, either the waker is still registered with nothing sent and the sender
  alive, or it was woken. The user code that runs inside the poll may do the same.
\<close>

theorem oneshot_no_lost_wakeup:
  assumes "user_code A oneshot_inv (oneshot_call False) env" and "same_clones env" and "oneshot_inv s"
    and "\<not> receiver_dropped s" and "oneshot_poll env w (s, False) = (Ret Pending, (s', d))"
    and "(oneshot_call False)\<^sup>*\<^sup>* s' s''"
  shows "o_recv_waker s'' = Some w \<and> \<not> value_present s'' \<and> \<not> sender_dropped s'' \<or> Woke w \<in> set (new_log s s'')"
proof -
  have u: "user_code A oneshot_inv osstep env" using oneshot_calls_user [OF assms(1)] by simp
  have p: "oregistered s w s'" "\<not> sender_dropped s'" "\<not> value_present s'" "ostep\<^sup>*\<^sup>* s s'"
    using wp_RetD [OF oneshot_poll_steps [OF u assms(2-4)] assms(5)] by (auto simp: oneshot_polled_def)
  have later: "osstep\<^sup>*\<^sup>* s' s''" using oneshot_calls_steps [OF assms(6) oboth.inv_steps [OF p(4) assms(3)]] by simp
  note mono = oboth.new_log_mono [OF p(4) ostep_of_osstep [OF later]]
  from oregistered_keeps(3) [OF p(1)] parked_oneshot [OF later _ p(3,2)] mono show ?thesis by blast
qed

theorem oneshot_no_lost_wakeup_witness:
  "\<exists>s' d. oneshot_poll (quiet_env True) 5 (osample, False) = (Ret Pending, (s', d))
    \<and> Woke 5 \<in> set (new_log osample (snd (oneshot_sender_drop (quiet_env True) s')))"
proof -
  define s' where "s' = fst (snd (oneshot_poll (quiet_env True) 5 (osample, False)))"
  let ?r = "oneshot_sender_drop (quiet_env True) s'"
  have "fst (oneshot_poll (quiet_env True) 5 (osample, False)) = Ret Pending" by code_simp
  then have run: "oneshot_poll (quiet_env True) 5 (osample, False) = (Ret Pending, (s', snd (snd (oneshot_poll (quiet_env True) 5 (osample, False)))))"
    by (simp add: s'_def prod_eq_iff)
  have s': "\<not> sender_dropped s'" "pushed (log s') = []" "fst ?r = Ret ()" "sender_dropped (snd ?r)"
    unfolding s'_def by code_simp+
  then have "?r = (Ret (), snd ?r)" by (simp add: prod_eq_iff)
  then have "oneshot_call False s' (snd ?r)"
    by (rule oneshot_call.sender_drop [OF user_code_quiet s'(1,2)]) simp
  then have "(oneshot_call False)\<^sup>*\<^sup>* s' (snd ?r)" by (rule r_into_rtranclp)
  from oneshot_no_lost_wakeup [OF user_code_quiet [of UNIV] clones_quiet osample_inv _ run this] s'(4)
  have "Woke 5 \<in> set (new_log osample (snd ?r))" by simp
  with run show ?thesis by blast
qed

text \<open>
  C34. Dropping the receiver: afterwards sends fail and no waker is retained, also when user code
  unwinds; when it returns, a value that was sent and not received has been taken out of the slot
  and destroyed, once.
\<close>

theorem oneshot_receiver_drop_spec:
  assumes "user_code A oneshot_inv osstep env" and "oneshot_inv s"
  shows "wp A (oneshot_receiver_drop env)
    (\<lambda>_ s'. receiver_dropped s' \<and> o_recv_waker s' = None \<and> o_value s' = Uninit
       \<and> (\<forall>x. o_value s = Init x \<longrightarrow> ItemDropped x \<in> set (log s') \<and> popped (log s') = [x]))
    (\<lambda>_ s'. receiver_dropped s' \<and> o_recv_waker s' = None \<and> oneshot_inv s') s"
  by (rule wp_conseq [OF oneshot_receiver_drop_steps [OF assms]])
    (use assms(2) in \<open>auto simp: oneshot_inv_def split: if_splits\<close>)

theorem oneshot_receiver_drop_spec_witness:
  "wp {} (oneshot_receiver_drop (quiet_env True)) (\<lambda>_ s'. ItemDropped 3 \<in> set (log s')) (\<lambda>_ _. True) osent"
proof -
  have "o_value osent = Init 3" by code_simp
  then show ?thesis by (intro wp_conseq [OF oneshot_receiver_drop_spec [OF user_code_quiet osent_inv]]) auto
qed

text \<open>
  The non-blocking receive, and the fused receiver. A receiver that is done answers \<open>Ok(None)\<close> and
  \<open>Pending\<close> for ever and changes nothing. Otherwise \<open>try_recv\<close> takes the value if it is there; answers
  \<open>Canceled\<close>, and is done, if the sender is gone; and else leaves everything as it is. The iterator
  takes the value too, but leaves a cancellation to be observed later.
\<close>

theorem oneshot_try_recv_spec:
  assumes "oneshot_inv s"
  shows "oneshot_try_recv (s, True) = (Ret (Inr None), (s, True)) \<and> oneshot_poll env w (s, True) = (Ret Pending, (s, True))
    \<and> oneshot_try_recv (s, False) = (case o_value s of
         Init x \<Rightarrow> (Ret (Inr (Some x)), (taken s x, True))
       | Uninit \<Rightarrow> if sender_dropped s then (Ret (Inl Canceled), (s, True)) else (Ret (Inr None), (s, False)))
    \<and> oneshot_try_iter_next (s, False) = (case o_value s of
         Init x \<Rightarrow> (Ret (Some x), (taken s x, True))
       | Uninit \<Rightarrow> (Ret None, (s, False)))"
  using assms
proof (cases rule: oneshot_inv_cases)
  case (present x)
  then show ?thesis
    by (simp add: oneshot_try_recv_def oneshot_poll_def oneshot_try_iter_next_def oneshot_take_value_def taken_def
        oneshot_replace_present_def oneshot_assume_init_read_def comp_eval)
next
  case absent
  have eq: "s\<lparr>value_present := False\<rparr> = s" by (rule absent(4))
  from absent show ?thesis
    by (simp add: oneshot_try_recv_def oneshot_poll_def oneshot_try_iter_next_def oneshot_take_value_def
        oneshot_replace_present_def comp_eval eq)
qed

theorem oneshot_try_recv_spec_witness:
  "oneshot_try_recv (osent, False) = (Ret (Inr (Some 3)), (taken osent 3, True))"
proof -
  have "o_value osent = Init 3" by code_simp
  with oneshot_try_recv_spec [OF osent_inv] show ?thesis by simp
qed

end
