(* ===== verification/Traces.thy ===== *)
theory Traces
  imports Send_Future
begin

text \<open>
  What every finished run of a computation does to the state, from any state at all. \<open>traced R m\<close> says
  that a run of \<open>m\<close> that returns or unwinds leads from \<open>s\<close> to \<open>s'\<close> with \<open>R s s'\<close>. Nothing is asked of
  runs that abort or fault, and no invariant is needed, so that the rules follow the syntax of the
  computation. The locales \<open>world_frame\<close> and \<open>core_frame\<close> apply this to relations that do not look at the
  fields which the operations of a channel change.
\<close>

section \<open>Traced computations\<close>

definition traced :: "('s \<Rightarrow> 's \<Rightarrow> bool) \<Rightarrow> ('s, 'a) comp \<Rightarrow> bool" where
  "traced R m \<longleftrightarrow> (\<forall>s r s'. m s = (r, s') \<longrightarrow> finished r \<longrightarrow> R s s')"

definition traced_env :: "('s \<Rightarrow> 's \<Rightarrow> bool) \<Rightarrow> ('s, 't) env \<Rightarrow> bool" where
  "traced_env R env \<longleftrightarrow>
     (\<forall>w. traced R (wake_cb env w)) \<and> (\<forall>w. traced R (wake_ref_cb env w)) \<and> (\<forall>w. traced R (clone_cb env w))
     \<and> (\<forall>w. traced R (drop_cb env w)) \<and> (\<forall>x. traced R (item_drop_cb env x)) \<and> (\<forall>p. traced R (payload_drop_cb env p))"

lemma tracedI: "(\<And>s r s'. m s = (r, s') \<Longrightarrow> finished r \<Longrightarrow> R s s') \<Longrightarrow> traced R m"
  by (simp add: traced_def)

lemma tracedD: "traced R m \<Longrightarrow> m s = (r, s') \<Longrightarrow> finished r \<Longrightarrow> R s s'"
  by (simp add: traced_def)

text \<open>A computation that depends on the state it starts in.\<close>

lemma traced_pointwise: "(\<And>t. traced R (m t)) \<Longrightarrow> traced R (\<lambda>s. m s s)"
  by (auto simp: traced_def)

lemma traced_mono: "traced R m \<Longrightarrow> (\<And>s s'. R s s' \<Longrightarrow> R' s s') \<Longrightarrow> traced R' m"
  by (auto simp: traced_def)

lemma traced_env_mono: "traced_env R env \<Longrightarrow> (\<And>s s'. R s s' \<Longrightarrow> R' s s') \<Longrightarrow> traced_env R' env"
  unfolding traced_env_def by (blast intro: traced_mono)

lemma traced_env_mono_rule [mono]:
  "(\<And>s s'. R s s' \<longrightarrow> R' s s') \<Longrightarrow> traced_env R env \<longrightarrow> traced_env R' env"
  by (blast intro: traced_env_mono)

lemma traced_fst:
  assumes "traced (\<lambda>x y. R (fst x) (fst y)) m" and "m (s, f) = (r, (s', f'))" and "finished r"
  shows "R s s'"
  using tracedD [OF assms] by simp

lemma with_guard_finished:
  assumes "with_guard g m s = (r, s')" and "finished r"
  obtains v t u where "m s = (v, t)" and "finished v" and "g t = (u, s')" and "finished u"
proof -
  obtain v t where v: "m s = (v, t)" by fastforce
  obtain u t' where u: "g t = (u, t')" by fastforce
  show ?thesis
  proof (rule that)
    show "m s = (v, t)" by (rule v)
    show "finished v" using assms v by (cases v) (auto simp: comp_eval)
    show "g t = (u, s')" and "finished u" using assms v u by (cases v; cases u; auto simp: comp_eval)+
  qed
qed

section \<open>Rules\<close>

locale tracing =
  fixes R :: "'s \<Rightarrow> 's \<Rightarrow> bool"
  assumes trace_refl: "R s s"
    and trace_trans: "R s t \<Longrightarrow> R t u \<Longrightarrow> R s u"
begin

lemma traced_basic:
  "traced R (ret x)" "traced R (gets f)" "traced R (panic p)" "traced R (abort a)" "traced R (fault e)"
  by (auto simp: traced_def comp_eval trace_refl)

lemma traced_modify: "(\<And>s. R s (f s)) \<Longrightarrow> traced R (modify f)"
  by (auto simp: traced_def comp_eval)

lemma traced_bindM:
  assumes "traced R m" and "\<And>x. traced R (f x)"
  shows "traced R (bindM m f)"
  using assms unfolding traced_def bindM_def
  by (fastforce split: prod.splits outcome.splits intro: trace_trans)

lemma traced_thenM: "traced R m \<Longrightarrow> traced R k \<Longrightarrow> traced R (thenM m k)"
  unfolding thenM_def by (rule traced_bindM)

lemma traced_catch_unwind: "traced R m \<Longrightarrow> traced R (catch_unwind m)"
  unfolding traced_def catch_unwind_def by (fastforce split: prod.splits outcome.splits)

lemma traced_on_unwind: "traced R m \<Longrightarrow> traced R g \<Longrightarrow> traced R (on_unwind g m)"
  unfolding traced_def on_unwind_def by (fastforce split: prod.splits outcome.splits intro: trace_trans)

lemma traced_with_guard: "traced R m \<Longrightarrow> traced R g \<Longrightarrow> traced R (with_guard g m)"
  unfolding with_guard_def by (intro traced_bindM traced_thenM traced_on_unwind traced_basic)

lemma traced_for_each: "(\<And>x. traced R (f x)) \<Longrightarrow> traced R (for_each f xs)"
  by (induction xs) (auto intro: traced_basic traced_thenM)

lemma traced_expect: "traced R (expect msg x)"
  by (cases x) (auto simp: expect_def traced_basic)

lemma traced_if: "(b \<Longrightarrow> traced R m) \<Longrightarrow> (\<not> b \<Longrightarrow> traced R k) \<Longrightarrow> traced R (if b then m else k)"
  by simp

lemma traced_case_option:
  "(x = None \<Longrightarrow> traced R m) \<Longrightarrow> (\<And>v. traced R (k v)) \<Longrightarrow> traced R (case x of None \<Rightarrow> m | Some v \<Rightarrow> k v)"
  by (cases x) auto

lemma traced_case_sum: "(\<And>v. traced R (m v)) \<Longrightarrow> (\<And>v. traced R (k v)) \<Longrightarrow> traced R (case x of Inl v \<Rightarrow> m v | Inr v \<Rightarrow> k v)"
  by (cases x) auto

lemma traced_case_prod: "(\<And>a b. traced R (m a b)) \<Longrightarrow> traced R (case x of (a, b) \<Rightarrow> m a b)"
  by (cases x) auto

lemmas traced_rules = traced_basic traced_bindM traced_thenM traced_catch_unwind traced_on_unwind traced_with_guard
  traced_for_each traced_expect traced_if traced_case_option traced_case_sum traced_case_prod

text \<open>Beside a local object.\<close>

lemma traced_on_fst: "traced R m \<Longrightarrow> traced (\<lambda>x y. R (fst x) (fst y)) (on_fst m)"
  by (auto simp: traced_def on_fst_def split: prod.splits)

lemma traced_on_snd: "traced (\<lambda>x y. R (fst x) (fst y)) (on_snd m)"
  by (auto simp: traced_def on_snd_def trace_refl split: prod.splits)

lemma tracing_beside: "tracing (\<lambda>x y. R (fst x) (fst y))"
  by unfold_locales (blast intro: trace_refl trace_trans)+

lemmas traced_beside = tracing.traced_rules [OF tracing_beside] traced_on_fst traced_on_snd

end

interpretation star: tracing "R\<^sup>*\<^sup>*" for R :: "'s \<Rightarrow> 's \<Rightarrow> bool"
  by unfold_locales auto

section \<open>Frames\<close>

text \<open>A relation that looks neither at the log nor at the borrow flags.\<close>

locale world_frame = tracing R
  for R :: "('t, 'z) world_scheme \<Rightarrow> ('t, 'z) world_scheme \<Rightarrow> bool" +
  assumes world_same: "world.more s' = world.more s \<Longrightarrow> R s s'"
begin

lemma traced_emit: "traced R (emit e)"
  unfolding emit_def by (intro traced_modify world_same) simp

lemma traced_flags:
  assumes "traced R m" and "m (s\<lparr>borrows := b\<rparr>) = (r, t)" and "finished r"
  shows "R s (t\<lparr>borrows := b'\<rparr>)"
proof -
  have "R s (s\<lparr>borrows := b\<rparr>)" and "R t (t\<lparr>borrows := b'\<rparr>)" by (simp_all add: world_same)
  with tracedD [OF assms] show ?thesis by (blast intro: trace_trans)
qed

lemma traced_borrow:
  assumes "traced R m"
  shows "traced R (borrow c m)" and "traced R (borrow_mut c m)"
  using traced_flags [OF assms] by (auto simp: traced_def borrow_def borrow_mut_def split: prod.splits if_splits)

lemma traced_user:
  assumes "traced_env R env"
  shows "traced R (wake env w)" and "traced R (wake_by_ref env w)" and "traced R (clone_waker env w)"
    and "traced R (drop_waker env w)" and "traced R (drop_waker_option env v)" and "traced R (drop_item env x)"
    and "traced R (payload_drop_cb env p)" and "traced R (drop_panic_payload env p)"
  using assms unfolding traced_env_def wake_def wake_by_ref_def clone_waker_def drop_waker_def drop_waker_option_def
    drop_item_def drop_panic_payload_def
  by (auto intro!: traced_rules traced_emit)

lemma traced_wake_all_std:
  assumes "traced_env R env"
  shows "traced R (wake_all_std env ws p)"
  using assms by (induction env ws p rule: wake_all_std.induct) (auto intro!: traced_rules traced_user)

lemma traced_wake_all_no_std:
  assumes "traced_env R env"
  shows "traced R (wake_all_no_std env ws)"
  using assms by (induction env ws rule: wake_all_no_std.induct) (auto intro!: traced_rules traced_user)

lemma traced_wake_all: "traced_env R env \<Longrightarrow> traced R (wake_all env ws)"
  by (simp add: wake_all_def traced_wake_all_std traced_wake_all_no_std)

end

text \<open>A relation that does not look at the fields of \<open>core\<close>, the sender count and the user's state apart.\<close>

locale core_frame = tracing R
  for R :: "('t, 'u, 'z) core_scheme \<Rightarrow> ('t, 'u, 'z) core_scheme \<Rightarrow> bool" +
  assumes core_same: "senders s' = senders s \<Longrightarrow> usr s' = usr s \<Longrightarrow> core.more s' = core.more s \<Longrightarrow> R s s'"

sublocale core_frame \<subseteq> world_frame R
proof
  fix s s' :: "('t, 'u, 'z) core_scheme"
  assume "world.more s' = world.more s"
  then show "R s s'" by (cases s, cases s') (auto intro: core_same)
qed

context core_frame
begin

lemma traced_update:
  "(\<And>s. senders (f s) = senders s \<and> usr (f s) = usr s \<and> core.more (f s) = core.more s) \<Longrightarrow> traced R (\<lambda>s. (g s, f s))"
  by (auto simp: traced_def intro: core_same)

lemma traced_flavor_mut: "traced R (flavor_mut m)"
  unfolding flavor_mut_def zoom_def
  by (intro traced_borrow tracedI) (auto intro: core_same split: prod.splits)

lemma traced_queue: "traced R (chan_try_push x)" "traced R chan_pop" "traced R has_parked_senders" "traced R take_send_wakers"
  unfolding chan_try_push_def chan_pop_def has_parked_senders_def take_send_wakers_def
  by (auto intro!: traced_rules traced_flavor_mut traced_emit traced_borrow traced_update)

lemma traced_add_send_waker: "traced_env R env \<Longrightarrow> traced R (add_send_waker env w)"
  unfolding add_send_waker_def
  by (auto intro!: traced_rules traced_user traced_borrow traced_modify traced_emit intro: core_same)

lemma traced_remove_send_waker: "traced_env R env \<Longrightarrow> traced R (remove_send_waker env i)"
  unfolding remove_send_waker_def
  by (intro traced_bindM traced_borrow traced_user tracedI) (auto intro: core_same split: prod.splits)

lemma traced_wake_senders: "traced_env R env \<Longrightarrow> traced R (wake_senders env)"
  unfolding wake_senders_def by (auto intro!: traced_rules traced_queue traced_wake_all)

lemma traced_wake_both: "traced_env R env \<Longrightarrow> traced R m \<Longrightarrow> traced R (wake_both env m)"
  unfolding wake_both_def by (auto intro!: traced_rules traced_wake_senders traced_user)

lemmas traced_core = traced_rules traced_emit traced_borrow traced_user traced_wake_all traced_flavor_mut traced_queue
  traced_add_send_waker traced_remove_send_waker traced_wake_senders traced_wake_both

text \<open>The \<open>Send\<close> future.\<close>

lemma traced_fields:
  "traced (\<lambda>x y. R (fst x) (fst y)) take_item" "traced (\<lambda>x y. R (fst x) (fst y)) take_waker_id"
  "traced (\<lambda>x y. R (fst x) (fst y)) take_outcome"
  by (simp_all add: take_item_def take_waker_id_def take_outcome_def traced_on_snd)

lemma traced_send_attempt:
  assumes "\<And>r. traced (\<lambda>x y. R (fst x) (fst y)) (commit r)" and "\<And>x. traced (\<lambda>x y. R (fst x) (fst y)) (on_full x)"
  shows "traced (\<lambda>x y. R (fst x) (fst y)) (send_attempt is_closed commit on_full)"
  unfolding send_attempt_def using assms
  by (auto intro!: traced_beside traced_fields traced_basic traced_queue)

lemma traced_send_poll:
  assumes "traced_env R env" and "\<And>r. traced (\<lambda>x y. R (fst x) (fst y)) (commit r)"
  shows "traced (\<lambda>x y. R (fst x) (fst y)) (send_poll is_closed commit env cx)"
  unfolding send_poll_def using assms
  by (auto intro!: traced_beside traced_send_attempt traced_fields
      traced_remove_send_waker traced_add_send_waker)

lemma traced_send_drop:
  assumes "traced_env R env"
  shows "traced (\<lambda>x y. R (fst x) (fst y)) (send_drop env)"
  unfolding send_drop_def using assms
  by (auto intro!: traced_beside traced_fields traced_remove_send_waker)

end

end
