(* ===== verification/Rc.thy ===== *)
theory Rc
  imports Traces
begin

text \<open>
  The \<open>Rc\<close> through which the handles of a channel share it. Its strong count is kept beside the state of
  the user, in \<open>usr\<close>: the operations of a channel do not touch it, the code that clones and drops
  handles does. The ghost \<open>frees\<close> counts how often the shared state was destroyed. There is no \<open>Weak\<close> in
  the crate.
\<close>

section \<open>The count\<close>

record 'u rc_box =
  strong :: usize
  frees :: nat
  outside :: 'u

definition rc_new :: "'u \<Rightarrow> 'u rc_box" where
  "rc_new u = \<lparr>strong = 1, frees = 0, outside = u\<rparr>"

text \<open>\<open>Rc::clone\<close>: the count is stored, and the process aborts if it wrapped.\<close>

definition rc_clone :: "(('t, 'u rc_box, 'z) core_scheme, unit) comp" where
  "rc_clone = bindM (gets (\<lambda>s. strong (usr s) + 1)) (\<lambda>n.
     thenM (modify (\<lambda>s. s\<lparr>usr := (usr s)\<lparr>strong := n\<rparr>\<rparr>))
           (if n = 0 then abort RcOverflow else ret ()))"

text \<open>\<open>Drop for Rc\<close>: the last reference runs the destructor of the shared state, \<open>glue\<close>.\<close>

definition rc_drop :: "(('t, 'u rc_box, 'z) core_scheme, unit) comp \<Rightarrow> (('t, 'u rc_box, 'z) core_scheme, unit) comp" where
  "rc_drop glue = bindM (gets (\<lambda>s. strong (usr s) - 1)) (\<lambda>n.
     thenM (modify (\<lambda>s. s\<lparr>usr := (usr s)\<lparr>strong := n\<rparr>\<rparr>))
           (if n = 0 then thenM (modify (\<lambda>s. s\<lparr>usr := (usr s)\<lparr>frees := frees (usr s) + 1\<rparr>\<rparr>)) glue else ret ()))"

text \<open>The constructors make one handle from a clone of the new \<open>Rc\<close>, and the other from the \<open>Rc\<close> itself.\<close>

definition rc_share :: "('t, 'u rc_box, 'z) core_scheme outcome \<Rightarrow> ('t, 'u rc_box, 'z) core_scheme outcome" where
  "rc_share r = (case r of
     Ret s \<Rightarrow> (case rc_clone s of
         (Ret _, s') \<Rightarrow> Ret s'
       | (Panic p, s') \<Rightarrow> Panic p
       | (Abort a, s') \<Rightarrow> Abort a
       | (Fault e, s') \<Rightarrow> Fault e)
   | Panic p \<Rightarrow> Panic p
   | Abort a \<Rightarrow> Abort a
   | Fault e \<Rightarrow> Fault e)"

section \<open>Destructors of the fields\<close>

text \<open>
  The destructor of a struct drops its fields in the order of their declaration, and that of a vector its
  elements; when one unwinds, the others are still dropped. What is dropped is read off the state, whose
  memory is released: the state itself is not changed.
\<close>

fun drop_wakers :: "('t, 'z) wenv \<Rightarrow> (u64 \<times> waker) list \<Rightarrow> (('t, 'z) world_scheme, unit) comp" where
  "drop_wakers env [] = ret ()"
| "drop_wakers env ((i, w) # ws) = with_guard (drop_wakers env ws) (drop_waker env w)"

definition drop_item_option :: "('t, 'z) wenv \<Rightarrow> 't option \<Rightarrow> (('t, 'z) world_scheme, unit) comp" where
  "drop_item_option env x = (case x of None \<Rightarrow> ret () | Some y \<Rightarrow> drop_item env y)"

definition flavor_drop :: "('t, 'z) wenv \<Rightarrow> 't flavor \<Rightarrow> (('t, 'z) world_scheme, unit) comp" where
  "flavor_drop env f = (\<lambda>s. case f of
     Bounded r \<Rightarrow> (case ring_clear (drop_item env) (s, r) of (v, (s', r')) \<Rightarrow> (v, s'))
   | Unbounded l \<Rightarrow> (case block_list_drop (drop_item env) l s of (v, (s', h)) \<Rightarrow> (v, s')))"

text \<open>Dropping a well-formed queue drops its items, in order.\<close>

lemma flavor_drop_items:
  assumes "flavor_inv f"
  shows "flavor_drop env f s = for_each (drop_item env) (flavor_list f) s"
proof (cases f)
  case (Bounded r)
  with assms ring_clear_drops [of r "drop_item env" s] show ?thesis by (auto simp: flavor_drop_def split: prod.splits)
next
  case (Unbounded l)
  with assms block_list_drop_all [of block_size l "drop_item env" s] show ?thesis
    by (auto simp: flavor_drop_def split: prod.splits)
qed

section \<open>Programs\<close>

text \<open>
  User code as a program that makes calls \<open>R\<close>: on a channel in good order it does not fault, and from
  any state whatever it does is a sequence of calls.
\<close>

definition program :: "('s \<Rightarrow> bool) \<Rightarrow> ('s \<Rightarrow> 's \<Rightarrow> bool) \<Rightarrow> ('s, 't) env \<Rightarrow> bool" where
  "program I R env \<longleftrightarrow> admissible UNIV I R env \<and> traced_env R\<^sup>*\<^sup>* env"

lemma program_mono [mono]:
  assumes "\<And>s s'. R s s' \<longrightarrow> R' s s'"
  shows "program I R env \<longrightarrow> program I R' env"
proof -
  have "R\<^sup>*\<^sup>* s s' \<Longrightarrow> R'\<^sup>*\<^sup>* s s'" for s s'
    by (erule rtranclp_mono [THEN predicate2D, rotated]) (use assms in blast)
  then show ?thesis
    unfolding program_def by (blast intro: admissible_mono traced_env_mono assms [rule_format])
qed

lemma program_traced:
  assumes "program I R env" and "\<And>s s'. R s s' \<Longrightarrow> R'\<^sup>*\<^sup>* s s'"
  shows "traced_env R'\<^sup>*\<^sup>* env"
proof -
  have "R'\<^sup>*\<^sup>* s s'" if "R\<^sup>*\<^sup>* s s'" for s s'
    using that by (induction rule: rtranclp_induct) (auto dest: assms(2))
  with assms(1) show ?thesis unfolding program_def by (blast intro: traced_env_mono)
qed

section \<open>What destructors do\<close>

text \<open>A relation that allows user code to drop items and wakers.\<close>

locale dropping = tracing R
  for R :: "('t, 'z) world_scheme \<Rightarrow> ('t, 'z) world_scheme \<Rightarrow> bool" +
  assumes drops: "d = ItemDropped x \<or> d = WakerDropped w \<Longrightarrow> R s (s\<lparr>log := log s @ [d]\<rparr>)"
begin

lemma traced_drops:
  assumes "traced_env R env"
  shows "traced R (drop_item env x)" and "traced R (drop_waker env w)" and "traced R (drop_wakers env ws)"
    and "traced R (drop_item_option env v)" and "traced R (drop_waker_option env u)"
proof -
  show item: "traced R (drop_item env x)" for x
    using assms unfolding drop_item_def emit_def traced_env_def by (auto intro!: traced_rules traced_modify drops)
  show waker: "traced R (drop_waker env w)" for w
    using assms unfolding drop_waker_def emit_def traced_env_def by (auto intro!: traced_rules traced_modify drops)
  have "env' = env \<Longrightarrow> traced R (drop_wakers env' ws)" for env'
    by (induction env' ws rule: drop_wakers.induct) (auto intro!: traced_rules waker)
  then show "traced R (drop_wakers env ws)" by simp
  show "traced R (drop_item_option env v)" "traced R (drop_waker_option env u)"
    unfolding drop_item_option_def drop_waker_option_def by (auto intro!: traced_rules item waker)
qed

lemma ring_clear_traced:
  assumes "\<And>x. traced R (d x)"
  shows "ring_clear d (s, r) = (v, (s', r')) \<Longrightarrow> finished v \<Longrightarrow> R s s'"
proof (induction "unat (r_len r)" arbitrary: s r rule: less_induct)
  case less
  obtain p q where p: "ring_pop r = (p, q)" by fastforce
  show ?case
  proof (cases "\<exists>x. p = Ret (Some x)")
    case True
    then obtain x where x: "p = Ret (Some x)" by blast
    obtain u t where u: "d x s = (u, t)" by fastforce
    note first = tracedD [OF assms u]
    show ?thesis
    proof (cases u)
      case (Ret _)
      with less.prems p x u have "ring_clear d (t, q) = (v, (s', r'))" by (simp add: ring_clear.simps [of d s r])
      with less.hyps [OF ring_pop_shrinks] p x less.prems(2) have "R t s'" by simp
      with first Ret show ?thesis by (auto intro: trace_trans)
    qed (use less.prems p x u first in \<open>auto simp: ring_clear.simps [of d s r]\<close>)
  next
    case False
    with less.prems p show ?thesis
      by (auto simp: ring_clear.simps [of d s r] trace_refl split: outcome.splits option.splits)
  qed
qed

lemma block_list_drop_traced:
  assumes "\<And>x. traced R (d x)"
  shows "block_list_drop_from d p (s, h) = (v, (s', h')) \<Longrightarrow> finished v \<Longrightarrow> R s s'"
proof (induction "length (cells h)" arbitrary: p s h rule: less_induct)
  case less
  show ?case
  proof (cases p)
    case None
    with less.prems show ?thesis by (simp add: trace_refl)
  next
    case (Some a)
    with less.prems obtain b where b: "map_of (cells h) a = Some b" by (auto split: option.splits)
    let ?h = "h\<lparr>cells := AList.delete a (cells h)\<rparr>"
    obtain u t where u: "block_drop d b s = (u, t)" by fastforce
    have "traced R (block_drop d b)"
      unfolding block_drop_def using assms by (intro traced_for_each) (auto intro!: traced_rules split: slot.split)
    note first = tracedD [OF this u]
    show ?thesis
    proof (cases u)
      case (Ret _)
      have "length (cells ?h) < length (cells h)" using length_delete_less [OF b] by simp
      moreover have "block_list_drop_from d (bk_next b) (t, ?h) = (v, (s', h'))"
        using less.prems Some b u Ret by (simp add: Let_def)
      ultimately have "R t s'" using less.hyps less.prems(2) by blast
      with first Ret show ?thesis by (auto intro: trace_trans)
    qed (use less.prems Some b u first in \<open>auto simp: Let_def\<close>)
  qed
qed

lemma traced_flavor_drop:
  assumes "traced_env R env"
  shows "traced R (flavor_drop env f)"
proof (rule tracedI)
  have item: "traced R (drop_item env x)" for x using traced_drops(1) [OF assms] .
  fix s v s' assume "flavor_drop env f s = (v, s')" and "finished v"
  then show "R s s'"
    using ring_clear_traced [of "drop_item env" s, OF item]
      block_list_drop_traced [of "drop_item env" "Some a" s for a, OF item]
    by (cases f) (auto simp: flavor_drop_def block_list_drop_def simp del: block_list_drop_from.simps split: prod.splits)
qed

end

sublocale world_frame \<subseteq> dropping R
  by unfold_locales (auto intro: world_same)

end
