(* ===== verification/Mpmc_Rc.thy ===== *)
theory Mpmc_Rc
  imports Mpmc_Calls Rc
begin

text \<open>
  The handles of an \<open>mpmc\<close> channel with the \<open>Rc\<close> they hold. Cloning a handle clones its \<open>Rc\<close>; dropping one
  runs its destructor and then drops its \<open>Rc\<close>, also when the destructor unwinds. The calls of
  \<open>Mpmc_Calls\<close> are repeated here with the count, and with the rules of ownership that a Rust program
  obeys: a call needs a handle, and a handle that is borrowed is not dropped.
\<close>

section \<open>Handles\<close>

text \<open>The destructor of \<open>Chan\<close>: its fields in order.\<close>

definition mpmc_chan_drop :: "('t, 'u) cmenv \<Rightarrow> (('t, 'u) mpmc, unit) comp" where
  "mpmc_chan_drop env = (\<lambda>s.
     with_guard (with_guard (with_guard
         (drop_wakers env (send_wakers s))
         (drop_wakers env (recv_wakers s)))
         (drop_item_option env (redelivery s)))
         (flavor_drop env (flavor s)) s)"

definition mpmc_bounded_handles :: "usize \<Rightarrow> 'u \<Rightarrow> ('t, 'u rc_box) mpmc outcome" where
  "mpmc_bounded_handles cap u = rc_share (mpmc_bounded cap (rc_new u))"

definition mpmc_unbounded_handles :: "allocator \<Rightarrow> 'u \<Rightarrow> ('t, 'u rc_box) mpmc outcome" where
  "mpmc_unbounded_handles f u = rc_share (mpmc_unbounded f (rc_new u))"

definition mpmc_sender_handle_clone :: "(('t, 'u rc_box) mpmc, unit) comp" where
  "mpmc_sender_handle_clone = thenM mpmc_sender_clone rc_clone"

definition mpmc_sender_handle_drop :: "('t, 'u rc_box) cmenv \<Rightarrow> (('t, 'u rc_box) mpmc, unit) comp" where
  "mpmc_sender_handle_drop env = with_guard (rc_drop (mpmc_chan_drop env)) (mpmc_sender_drop env)"

definition mpmc_receiver_handle_clone :: "(('t, 'u rc_box) mpmc, u64 option) comp" where
  "mpmc_receiver_handle_clone = bindM mpmc_receiver_clone (\<lambda>i. thenM rc_clone (ret i))"

definition mpmc_receiver_handle_drop :: "('t, 'u rc_box) cmenv \<Rightarrow> (('t, 'u rc_box) slot_state, unit) comp" where
  "mpmc_receiver_handle_drop env = with_guard (on_fst (rc_drop (mpmc_chan_drop env))) (mpmc_receiver_drop env)"

section \<open>Calls\<close>

text \<open>
  The flag says that a sender is borrowed by an operation that is under way; the reach says the same of
  receivers. The user's own state is \<open>outside\<close>: only clones and drops change the count.
\<close>

inductive mpmc_handle_call :: "bool \<Rightarrow> reach \<Rightarrow> ('t, 'u rc_box) mpmc \<Rightarrow> ('t, 'u rc_box) mpmc \<Rightarrow> bool" where
  user: "mpmc_handle_call b e s (s\<lparr>usr := (usr s)\<lparr>outside := u\<rparr>\<rparr>)"
| dropped: "d = ItemDropped x \<or> d = WakerDropped w \<Longrightarrow> mpmc_handle_call b e s (s\<lparr>log := log s @ [d]\<rparr>)"
| try_send: "program mpmc_inv (mpmc_handle_call True e) env \<Longrightarrow> senders s \<noteq> 0 \<Longrightarrow> mpmc_try_send env x s = (r, s')
    \<Longrightarrow> finished r \<Longrightarrow> mpmc_handle_call b e s s'"
| send_poll: "program mpmc_inv (mpmc_handle_call True e) env \<Longrightarrow> senders s \<noteq> 0 \<Longrightarrow> send_ok f
    \<Longrightarrow> mpmc_send_poll env w (s, f) = (p, (s', f')) \<Longrightarrow> finished p \<Longrightarrow> mpmc_handle_call b e s s'"
| send_drop: "program mpmc_inv (mpmc_handle_call True e) env \<Longrightarrow> senders s \<noteq> 0 \<Longrightarrow> mpmc_send_drop env (s, f) = (u, (s', f'))
    \<Longrightarrow> finished u \<Longrightarrow> mpmc_handle_call b e s s'"
| sender_close: "program mpmc_inv (mpmc_handle_call True e) env \<Longrightarrow> senders s \<noteq> 0 \<Longrightarrow> mpmc_sender_close env s = (c, s')
    \<Longrightarrow> finished c \<Longrightarrow> mpmc_handle_call b e s s'"
| sender_clone: "senders s \<noteq> 0 \<Longrightarrow> senders s + 1 \<noteq> 0 \<Longrightarrow> mpmc_sender_handle_clone s = (u, s') \<Longrightarrow> finished u
    \<Longrightarrow> mpmc_handle_call b e s s'"
| sender_drop: "program mpmc_inv (mpmc_handle_call b e) env \<Longrightarrow> senders s \<noteq> 0 \<Longrightarrow> (b \<Longrightarrow> senders s \<noteq> 1)
    \<Longrightarrow> mpmc_sender_handle_drop env s = (u, s') \<Longrightarrow> finished u \<Longrightarrow> mpmc_handle_call b e s s'"
| try_recv: "e \<noteq> SendersOnly \<Longrightarrow> program mpmc_inv (mpmc_handle_call b Borrowed) env \<Longrightarrow> receivers s \<noteq> 0
    \<Longrightarrow> mpmc_try_recv env s = (v, s') \<Longrightarrow> finished v \<Longrightarrow> mpmc_handle_call b e s s'"
| try_iter_next: "e \<noteq> SendersOnly \<Longrightarrow> program mpmc_inv (mpmc_handle_call b Borrowed) env \<Longrightarrow> receivers s \<noteq> 0
    \<Longrightarrow> mpmc_try_iter_next env s = (q, s') \<Longrightarrow> finished q \<Longrightarrow> mpmc_handle_call b e s s'"
| poll_next: "e \<noteq> SendersOnly \<Longrightarrow> program mpmc_inv (mpmc_handle_call b Borrowed) env \<Longrightarrow> same_clones env
    \<Longrightarrow> receivers s \<noteq> 0 \<Longrightarrow> mpmc_poll_next env w (s, i) = (c, (s', j)) \<Longrightarrow> finished c \<Longrightarrow> mpmc_handle_call b e s s'"
| recv_poll: "e \<noteq> SendersOnly \<Longrightarrow> program mpmc_inv (mpmc_handle_call b Borrowed) env \<Longrightarrow> same_clones env
    \<Longrightarrow> receivers s \<noteq> 0 \<Longrightarrow> mpmc_recv_poll env w (s, g) = (c, (s', g')) \<Longrightarrow> finished c \<Longrightarrow> mpmc_handle_call b e s s'"
| recv_drop: "e \<noteq> SendersOnly \<Longrightarrow> program mpmc_inv (mpmc_handle_call b Borrowed) env \<Longrightarrow> receivers s \<noteq> 0
    \<Longrightarrow> mpmc_recv_drop env (s, g) = (u, (s', g')) \<Longrightarrow> finished u \<Longrightarrow> mpmc_handle_call b e s s'"
| receiver_close: "e \<noteq> SendersOnly \<Longrightarrow> program mpmc_inv (mpmc_handle_call b Borrowed) env \<Longrightarrow> receivers s \<noteq> 0
    \<Longrightarrow> mpmc_receiver_close env s = (c, s') \<Longrightarrow> finished c \<Longrightarrow> mpmc_handle_call b e s s'"
| receiver_clone: "e \<noteq> SendersOnly \<Longrightarrow> receivers s \<noteq> 0 \<Longrightarrow> receivers s + 1 \<noteq> 0 \<Longrightarrow> mpmc_receiver_handle_clone s = (n, s')
    \<Longrightarrow> finished n \<Longrightarrow> mpmc_handle_call b e s s'"
| receiver_drop: "e \<noteq> SendersOnly \<Longrightarrow> program mpmc_inv (mpmc_handle_call b e) env \<Longrightarrow> receivers s \<noteq> 0 \<Longrightarrow> receivers s \<noteq> 1
    \<Longrightarrow> mpmc_receiver_handle_drop env (s, i) = (u, (s', j)) \<Longrightarrow> finished u \<Longrightarrow> mpmc_handle_call b e s s'"
| last_receiver_drop: "program mpmc_inv (mpmc_handle_call b SendersOnly) env \<Longrightarrow> receivers s = 1
    \<Longrightarrow> mpmc_receiver_handle_drop env (s, i) = (u, (s', j)) \<Longrightarrow> finished u \<Longrightarrow> mpmc_handle_call b Whole s s'"

section \<open>These are calls\<close>

text \<open>Without the count, they are calls as before; the destructor of \<open>Chan\<close> runs user code only.\<close>

interpretation drops_calls: dropping "(mpmc_call e)\<^sup>*\<^sup>*" for e
  by unfold_locales (auto intro: mpmc_call.dropped)

lemma mpmc_counts_traced: "traced (mpmc_call e)\<^sup>*\<^sup>* rc_clone"
  unfolding rc_clone_def by (intro star.traced_rules star.traced_modify r_into_rtranclp mpmc_call.user)

lemma mpmc_rc_drop_traced:
  assumes "traced_env (mpmc_call e)\<^sup>*\<^sup>* env"
  shows "traced (mpmc_call e)\<^sup>*\<^sup>* (rc_drop (mpmc_chan_drop env))"
proof -
  have "traced (mpmc_call e)\<^sup>*\<^sup>* (mpmc_chan_drop env)"
    unfolding mpmc_chan_drop_def
    by (rule traced_pointwise) (intro star.traced_with_guard drops_calls.traced_drops drops_calls.traced_flavor_drop assms)
  then show ?thesis
    unfolding rc_drop_def by (intro star.traced_rules star.traced_modify r_into_rtranclp mpmc_call.user)
qed

lemma mpmc_call_inv: "mpmc_inv s \<Longrightarrow> mpmc_call e s s' \<Longrightarrow> mpmc_inv s'"
  using all_calls.call_steps all_calls.reached.inv_steps by blast

lemma program_calls:
  assumes "program mpmc_inv (\<lambda>s s'. mpmc_handle_call b e s s' \<and> (mpmc_call e)\<^sup>*\<^sup>* s s') env"
  shows "admissible UNIV mpmc_inv (mpmc_call e) env" and "traced_env (mpmc_call e)\<^sup>*\<^sup>* env"
proof -
  show "admissible UNIV mpmc_inv (mpmc_call e) env"
    using assms unfolding program_def by (auto intro: admissible_by_steps mpmc_call_inv)
  show "traced_env (mpmc_call e)\<^sup>*\<^sup>* env" using assms by (rule program_traced) auto
qed

lemma senders_only_whole: "mpmc_call e s s' \<Longrightarrow> e = SendersOnly \<Longrightarrow> mpmc_call Whole s s'"
proof (induction rule: mpmc_call.induct)
  case (sender_drop e env s u s')
  then have "admissible UNIV mpmc_inv (mpmc_call Whole) env" by (auto elim: admissible_mono)
  with sender_drop.hyps show ?case by (intro mpmc_call.sender_drop)
next
  case (sender_close e env s b s')
  then have "admissible UNIV mpmc_inv (mpmc_call Whole) env" by (auto elim: admissible_mono)
  with sender_close.hyps show ?case by (intro mpmc_call.sender_close)
qed (auto intro: mpmc_call.intros elim: admissible_mono)

lemma receiver_handle_drop_run:
  assumes "mpmc_receiver_handle_drop env (s, i) = (u, (s', j))" and "finished u"
  obtains v t w where "mpmc_receiver_drop env (s, i) = (v, (t, j))" and "finished v"
    and "rc_drop (mpmc_chan_drop env) t = (w, s')" and "finished w"
proof -
  from assms(1) [unfolded mpmc_receiver_handle_drop_def] assms(2)
  obtain v tj w where run: "mpmc_receiver_drop env (s, i) = (v, tj)" "finished v"
    "on_fst (rc_drop (mpmc_chan_drop env)) tj = (w, (s', j))" "finished w"
    by (rule with_guard_finished)
  then show ?thesis using that by (cases tj) (auto simp: on_fst_def split: prod.splits)
qed

lemma handle_call_calls: "mpmc_handle_call b e s s' \<Longrightarrow> (mpmc_call e)\<^sup>*\<^sup>* s s'"
proof (induction rule: mpmc_handle_call.induct)
  case (sender_clone s u s' b e)
  then have "mpmc_call e s (s\<lparr>senders := senders s + 1\<rparr>)"
    by (intro mpmc_call.sender_clone) (auto simp: mpmc_sender_clone_def incr_senders_def comp_eval)
  moreover have "(mpmc_call e)\<^sup>*\<^sup>* (s\<lparr>senders := senders s + 1\<rparr>) s'"
    using sender_clone tracedD [OF mpmc_counts_traced]
    by (simp add: mpmc_sender_handle_clone_def mpmc_sender_clone_def incr_senders_def thenM_def bindM_def modify_def)
  ultimately show ?case by (rule converse_rtranclp_into_rtranclp)
next
  case (sender_drop b e env s u s')
  from sender_drop.hyps(3) [unfolded mpmc_sender_handle_drop_def] sender_drop.hyps(4)
  obtain v t w where run: "mpmc_sender_drop env s = (v, t)" "finished v" "rc_drop (mpmc_chan_drop env) t = (w, s')" "finished w"
    by (rule with_guard_finished)
  have "mpmc_call e s t" using program_calls(1) [OF sender_drop.IH] sender_drop.hyps(1) run(1,2) by (rule mpmc_call.sender_drop)
  from converse_rtranclp_into_rtranclp [OF this tracedD [OF mpmc_rc_drop_traced [OF program_calls(2) [OF sender_drop.IH]] run(3,4)]]
  show ?case .
next
  case (receiver_clone e s n s' b)
  then have "mpmc_call e s (s\<lparr>receivers := receivers s + 1\<rparr>)"
    by (intro mpmc_call.receiver_clone) (auto simp: mpmc_receiver_clone_def incr_receivers_def comp_eval)
  moreover have "(mpmc_call e)\<^sup>*\<^sup>* (s\<lparr>receivers := receivers s + 1\<rparr>) s'"
  proof (rule tracedD [OF star.traced_thenM [OF mpmc_counts_traced star.traced_basic(1)] _ receiver_clone.hyps(5)])
    show "thenM rc_clone (ret None) (s\<lparr>receivers := receivers s + 1\<rparr>) = (n, s')"
      using receiver_clone.hyps(4) by (simp add: mpmc_receiver_handle_clone_def mpmc_receiver_clone_def incr_receivers_def
        bindM_def thenM_def modify_def ret_def)
  qed
  ultimately show ?case by (rule converse_rtranclp_into_rtranclp)
next
  case (receiver_drop e b env s i u s' j)
  from receiver_drop.hyps(4,5) obtain v t w where run: "mpmc_receiver_drop env (s, i) = (v, (t, j))" "finished v"
    "rc_drop (mpmc_chan_drop env) t = (w, s')" "finished w" by (rule receiver_handle_drop_run)
  have "mpmc_call e s t"
    using receiver_drop.hyps(1) program_calls(1) [OF receiver_drop.IH] receiver_drop.hyps(2,3) run(1,2) by (rule mpmc_call.receiver_drop)
  from converse_rtranclp_into_rtranclp [OF this tracedD [OF mpmc_rc_drop_traced [OF program_calls(2) [OF receiver_drop.IH]] run(3,4)]]
  show ?case .
next
  case (last_receiver_drop b env s i u s' j)
  from last_receiver_drop.hyps(2,3) obtain v t w where run: "mpmc_receiver_drop env (s, i) = (v, (t, j))" "finished v"
    "rc_drop (mpmc_chan_drop env) t = (w, s')" "finished w" by (rule receiver_handle_drop_run)
  have "mpmc_call Whole s t"
    using program_calls(1) [OF last_receiver_drop.IH] last_receiver_drop.hyps(1) run(1,2) by (rule mpmc_call.last_receiver_drop)
  moreover have "(mpmc_call SendersOnly)\<^sup>*\<^sup>* t s'"
    using tracedD [OF mpmc_rc_drop_traced [OF program_calls(2) [OF last_receiver_drop.IH]] run(3,4)] .
  then have "(mpmc_call Whole)\<^sup>*\<^sup>* t s'"
    by (rule rtranclp_mono [THEN predicate2D, rotated]) (auto intro: senders_only_whole)
  ultimately show ?case by (rule converse_rtranclp_into_rtranclp)
qed (auto intro: mpmc_call.intros program_calls(1))

section \<open>Operations and the counts\<close>

text \<open>
  A relation that looks only at the two counts of handles and at the user's state. No operation but
  clones and drops changes these; user code may.
\<close>

locale mpmc_frame = tracing R
  for R :: "('t, 'u) mpmc \<Rightarrow> ('t, 'u) mpmc \<Rightarrow> bool" +
  assumes mpmc_same: "senders s' = senders s \<Longrightarrow> receivers s' = receivers s \<Longrightarrow> usr s' = usr s \<Longrightarrow> R s s'"

sublocale mpmc_frame \<subseteq> core_frame R
proof
  fix s s' :: "('t, 'u) mpmc"
  assume "senders s' = senders s" and "usr s' = usr s" and "core.more s' = core.more s"
  then show "R s s'" by (cases s, cases s') (auto intro: mpmc_same)
qed

context mpmc_frame
begin

lemma traced_set:
  "(\<And>s. senders (f s) = senders s \<and> receivers (f s) = receivers s \<and> usr (f s) = usr s) \<Longrightarrow> traced R (\<lambda>s. (g s, f s))"
  by (auto simp: traced_def intro: mpmc_same)

lemma traced_recv_wakers:
  assumes "traced_env R env"
  shows "traced R (add_recv_waker env w)" and "traced R (remove_recv_waker env i)" and "traced R (remove_stream env j)"
    and "traced R (wake_receivers env)" and "traced R (mpmc_close env)"
proof -
  show "traced R (add_recv_waker env w)"
    unfolding add_recv_waker_def using assms by (auto intro!: traced_core traced_modify intro: mpmc_same)
  show remove: "traced R (remove_recv_waker env i)" for i
    unfolding remove_recv_waker_def using assms
    by (intro traced_bindM traced_borrow traced_user tracedI) (auto intro: mpmc_same split: prod.splits)
  show "traced R (remove_stream env j)"
    unfolding remove_stream_def by (auto intro!: traced_core remove)
  show wake: "traced R (wake_receivers env)"
    unfolding wake_receivers_def using assms by (auto intro!: traced_core traced_set)
  show "traced R (mpmc_close env)"
    unfolding mpmc_close_def using assms by (auto intro!: traced_core traced_modify wake intro: mpmc_same)
qed

lemma traced_redelivery:
  assumes "traced_env R env"
  shows "traced R take_redelivery" and "traced R (set_redelivery env x)" and "traced R (hand_out x)"
  unfolding take_redelivery_def set_redelivery_def hand_out_def using assms
  by (auto intro!: traced_core traced_set traced_modify intro: mpmc_same)

lemma traced_try_take:
  assumes "traced_env R env"
  shows "traced R (try_take env)"
proof -
  have "traced R (try_take_loop env n)" for n
    by (induction n) (use assms in \<open>auto intro!: traced_core traced_redelivery\<close>)
  then show ?thesis by (simp add: try_take_def)
qed

lemma traced_drain:
  assumes "traced_env R env"
  shows "traced R (mpmc_drain env)"
proof -
  have loop: "traced R (mpmc_drain_loop env n)" for n
    by (induction n) (use assms in \<open>auto intro!: traced_core\<close>)
  have "traced R (mpmc_drain_fuel env n)" for n
    by (induction n) (use assms in \<open>auto simp: drop_parked_def simp del: mpmc_drain_loop.simps intro!: traced_core traced_redelivery loop\<close>)
  then show ?thesis by (auto simp: traced_def mpmc_drain_def simp del: mpmc_drain_fuel.simps)
qed

lemmas traced_mpmc = traced_core traced_recv_wakers traced_redelivery traced_try_take traced_drain

lemma traced_sender_ops:
  assumes "traced_env R env"
  shows "traced R (mpmc_try_send env x)" and "traced R (mpmc_sender_close env)" and "traced R (mpmc_receiver_close env)"
    and "traced (\<lambda>x y. R (fst x) (fst y)) (mpmc_send_poll env w)" and "traced (\<lambda>x y. R (fst x) (fst y)) (mpmc_send_drop env)"
proof -
  show "traced R (mpmc_try_send env x)" "traced R (mpmc_sender_close env)" "traced R (mpmc_receiver_close env)"
    unfolding mpmc_try_send_def mpmc_sender_close_def mpmc_receiver_close_def mpmc_sender_is_closed_def mpmc_receiver_is_closed_def
    using assms by (auto intro!: traced_mpmc)
  have "traced (\<lambda>x y. R (fst x) (fst y)) (mpmc_send_commit env r)" for r
    unfolding mpmc_send_commit_def using assms by (auto intro!: traced_beside traced_fields traced_mpmc)
  then show "traced (\<lambda>x y. R (fst x) (fst y)) (mpmc_send_poll env w)"
    unfolding mpmc_send_poll_def by (intro traced_send_poll assms)
  show "traced (\<lambda>x y. R (fst x) (fst y)) (mpmc_send_drop env)"
    unfolding mpmc_send_drop_def by (intro traced_send_drop assms)
qed

lemma traced_poll_recv:
  assumes "traced_env R env"
  shows "traced (\<lambda>x y. R (fst x) (fst y)) (mpmc_poll_recv env w)"
  unfolding mpmc_poll_recv_def poll_attempt_def poll_recheck_def take_slot_def
  using assms by (auto intro!: traced_beside traced_mpmc)

lemma traced_on_slot:
  "traced (\<lambda>x y. R (fst x) (fst y)) m \<Longrightarrow> traced (\<lambda>x y. R (fst x) (fst y)) (on_slot m)"
  by (fastforce simp: traced_def on_slot_def split: prod.splits)

lemma traced_receiver_ops:
  assumes "traced_env R env"
  shows "traced R (mpmc_try_recv env)" and "traced R (mpmc_try_iter_next env)"
    and "traced (\<lambda>x y. R (fst x) (fst y)) (mpmc_poll_next env w)" and "traced (\<lambda>x y. R (fst x) (fst y)) (mpmc_recv_poll env w)"
    and "traced (\<lambda>x y. R (fst x) (fst y)) (mpmc_recv_drop env)"
proof -
  show recv: "traced R (mpmc_try_recv env)" unfolding mpmc_try_recv_def using assms by (auto intro!: traced_mpmc)
  show "traced R (mpmc_try_iter_next env)" unfolding mpmc_try_iter_next_def by (auto intro!: traced_mpmc recv)
  show "traced (\<lambda>x y. R (fst x) (fst y)) (mpmc_poll_next env w)"
    unfolding mpmc_poll_next_def by (rule traced_poll_recv [OF assms])
  show "traced (\<lambda>x y. R (fst x) (fst y)) (mpmc_recv_poll env w)"
    unfolding mpmc_recv_poll_def take_slot_def
    using assms by (auto intro!: traced_beside traced_on_slot traced_mpmc traced_poll_recv)
  show "traced (\<lambda>x y. R (fst x) (fst y)) (mpmc_recv_drop env)"
    unfolding mpmc_recv_drop_def take_slot_def using assms by (auto intro!: traced_beside traced_on_slot traced_mpmc)
qed

text \<open>The destructors, once the handle is off the count.\<close>

lemma traced_drop_tails:
  assumes "traced_env R env"
  shows "traced R (wake_receivers env)"
    and "traced (\<lambda>x y. R (fst x) (fst y)) (if n \<noteq> 1 then bindM take_slot (\<lambda>i. on_fst (remove_stream env i))
      else bindM take_slot (\<lambda>i. on_fst (with_guard (cleanup_drop env i) (wake_senders env))))"
    and "traced R (mpmc_chan_drop env)"
proof -
  show "traced R (wake_receivers env)" using assms by (rule traced_recv_wakers)
  show "traced (\<lambda>x y. R (fst x) (fst y)) (if n \<noteq> 1 then bindM take_slot (\<lambda>i. on_fst (remove_stream env i))
      else bindM take_slot (\<lambda>i. on_fst (with_guard (cleanup_drop env i) (wake_senders env))))"
    unfolding cleanup_drop_def take_slot_def using assms by (auto intro!: traced_beside traced_mpmc)
  show "traced R (mpmc_chan_drop env)"
    unfolding mpmc_chan_drop_def
    by (rule traced_pointwise) (intro traced_with_guard traced_drops traced_flavor_drop assms)
qed

end

section \<open>The count is the number of handles\<close>

text \<open>
  \<open>counted d s\<close>: the strong count is the number of senders and receivers, and of \<open>d\<close> handles whose
  destructors are running; the shared state was destroyed once if the count is zero, and else not at
  all. \<open>held b e s\<close>: there are the handles that \<open>b\<close> and \<open>e\<close> say are borrowed.
\<close>

definition counted :: "nat \<Rightarrow> ('t, 'u rc_box) mpmc \<Rightarrow> bool" where
  "counted d s \<longleftrightarrow> unat (strong (usr s)) = unat (senders s) + unat (receivers s) + d
     \<and> frees (usr s) = (if strong (usr s) = 0 then 1 else 0)"

definition held :: "bool \<Rightarrow> reach \<Rightarrow> ('t, 'u) mpmc \<Rightarrow> bool" where
  "held b e s \<longleftrightarrow> (b \<longrightarrow> senders s \<noteq> 0) \<and> (e = Borrowed \<longrightarrow> receivers s \<noteq> 0)"

definition keeps_count :: "bool \<Rightarrow> reach \<Rightarrow> ('t, 'u rc_box) mpmc \<Rightarrow> ('t, 'u rc_box) mpmc \<Rightarrow> bool" where
  "keeps_count b e s s' \<longleftrightarrow> (\<forall>d. counted d s \<and> held b e s \<longrightarrow> counted d s' \<and> held b e s')"

interpretation counting: mpmc_frame "keeps_count b e" for b e
  by unfold_locales (auto simp: keeps_count_def counted_def held_def)

lemma keeps_count_star: "(keeps_count b e)\<^sup>*\<^sup>* s s' \<Longrightarrow> keeps_count b e s s'"
  by (induction rule: rtranclp_induct) (auto intro: counting.trace_refl counting.trace_trans)

lemma program_counts:
  assumes "program mpmc_inv (\<lambda>s s'. mpmc_handle_call b e s s' \<and> keeps_count b e s s') env"
  shows "traced_env (keeps_count b e) env"
  by (rule traced_env_mono [OF program_traced [OF assms, of "keeps_count b e"]]) (auto intro: keeps_count_star)

lemma counted_clone:
  assumes "counted d s" and "rc_clone t = (u, s')" and "finished u" and "usr t = usr s" and "senders s \<noteq> 0 \<or> receivers s \<noteq> 0"
    and "unat (senders t) + unat (receivers t) = Suc (unat (senders s) + unat (receivers s))"
  shows "counted d s' \<and> senders s' = senders t \<and> receivers s' = receivers t"
proof -
  have s': "s' = t\<lparr>usr := (usr t)\<lparr>strong := strong (usr s) + 1\<rparr>\<rparr>" and n: "strong (usr s) + 1 \<noteq> 0"
    using assms(2-4) by (auto simp: rc_clone_def comp_eval split: if_splits)
  have "unat (strong (usr s) + 1) = Suc (unat (strong (usr s)))"
    using n by (metis add.commute unatSuc)
  with assms(1,4-6) n have "counted d s'" by (auto simp: s' counted_def)
  then show ?thesis by (simp add: s')
qed

lemma counted_drop:
  assumes "counted (Suc d) t" and "held b e t" and "rc_drop (mpmc_chan_drop env) t = (w, s')" and "finished w"
    and "traced_env (keeps_count b e) env"
  shows "counted d s' \<and> held b e s'"
proof -
  let ?n = "strong (usr t) - 1"
  have pos: "strong (usr t) \<noteq> 0" using assms(1) by (auto simp: counted_def)
  then have n: "unat ?n = unat (senders t) + unat (receivers t) + d" using assms(1) by (simp add: counted_def word_nat)
  show ?thesis
  proof (cases "?n = 0")
    case True
    let ?t = "t\<lparr>usr := (usr t)\<lparr>strong := ?n, frees := frees (usr t) + 1\<rparr>\<rparr>"
    have "counted d ?t \<and> held b e ?t" using assms(1,2) n pos True by (auto simp: counted_def held_def)
    moreover have "mpmc_chan_drop env ?t = (w, s')"
      using assms(3) True by (simp add: rc_drop_def comp_eval)
    then have "keeps_count b e ?t s'" using tracedD [OF counting.traced_drop_tails(3) [OF assms(5)]] assms(4) by blast
    ultimately show ?thesis unfolding keeps_count_def by blast
  next
    case False
    then have "s' = t\<lparr>usr := (usr t)\<lparr>strong := ?n\<rparr>\<rparr>" using assms(3) by (simp add: rc_drop_def comp_eval)
    then show ?thesis using assms(1,2) n pos False by (auto simp: counted_def held_def)
  qed
qed

text \<open>An operation of a sender, or of a receiver, runs with that handle borrowed.\<close>

lemma borrowed_count:
  "keeps_count True e s s' \<Longrightarrow> senders s \<noteq> 0 \<Longrightarrow> keeps_count b e s s'"
  "keeps_count b Borrowed s s' \<Longrightarrow> receivers s \<noteq> 0 \<Longrightarrow> keeps_count b e s s'"
  by (auto simp: keeps_count_def held_def)

lemma sender_drop_counts:
  assumes "traced_env (keeps_count b e) env" and n: "senders s \<noteq> 0" "b \<Longrightarrow> senders s \<noteq> 1"
    and "mpmc_sender_handle_drop env s = (u, s')" and "finished u"
  shows "keeps_count b e s s'"
proof -
  let ?s = "s\<lparr>senders := senders s - 1\<rparr>"
  from assms(4) [unfolded mpmc_sender_handle_drop_def] assms(5)
  obtain v t w where run: "mpmc_sender_drop env s = (v, t)" "finished v" "rc_drop (mpmc_chan_drop env) t = (w, s')" "finished w"
    by (rule with_guard_finished)
  have "keeps_count b e ?s t"
    using run(1,2) tracedD [OF counting.traced_drop_tails(1) [OF assms(1)]]
    by (auto simp: mpmc_sender_drop_def decr_senders_def comp_eval counting.trace_refl split: if_splits)
  moreover have "counted (Suc d) ?s \<and> held b e ?s" if "counted d s" "held b e s" for d
    using that n word_gt_one [of "senders s"] unfolding counted_def held_def by (auto simp: word_nat unat_gt_0 word_less_nat_alt)
  ultimately show ?thesis
    using counted_drop [OF _ _ run(3,4) assms(1)] unfolding keeps_count_def by blast
qed

lemma receiver_drop_counts:
  assumes "traced_env (keeps_count b e) env" and n: "receivers s \<noteq> 0" "e = Borrowed \<Longrightarrow> receivers s \<noteq> 1"
    and "mpmc_receiver_handle_drop env (s, i) = (u, (s', j))" and "finished u"
  shows "keeps_count b e s s'"
proof -
  let ?s = "s\<lparr>receivers := receivers s - 1\<rparr>"
  from assms(4,5) obtain v t w where run: "mpmc_receiver_drop env (s, i) = (v, (t, j))" "finished v"
    "rc_drop (mpmc_chan_drop env) t = (w, s')" "finished w" by (rule receiver_handle_drop_run)
  let ?rest = "if receivers s \<noteq> 1 then bindM take_slot (\<lambda>i. on_fst (remove_stream env i))
      else bindM take_slot (\<lambda>i. on_fst (with_guard (cleanup_drop env i) (wake_senders env)))"
  have "?rest (?s, i) = (v, (t, j))"
    using run(1) by (simp add: mpmc_receiver_drop_def decr_receivers_def bindM_def thenM_def gets_def modify_def ret_def on_fst_def)
  from traced_fst [OF counting.traced_drop_tails(2) [OF assms(1)] this run(2)] have "keeps_count b e ?s t" .
  moreover have "counted (Suc d) ?s \<and> held b e ?s" if "counted d s" "held b e s" for d
    using that n word_gt_one [of "receivers s"] unfolding counted_def held_def by (auto simp: word_nat unat_gt_0 word_less_nat_alt)
  ultimately show ?thesis
    using counted_drop [OF _ _ run(3,4) assms(1)] unfolding keeps_count_def by blast
qed

lemma handle_call_counts: "mpmc_handle_call b e s s' \<Longrightarrow> keeps_count b e s s'"
proof (induction rule: mpmc_handle_call.induct)
  case (sender_clone s u s' b e)
  let ?t = "s\<lparr>senders := senders s + 1\<rparr>"
  have "rc_clone ?t = (u, s')"
    using sender_clone.hyps(3) by (simp add: mpmc_sender_handle_clone_def mpmc_sender_clone_def incr_senders_def comp_eval)
  moreover have "unat (senders s + 1) = Suc (unat (senders s))" using sender_clone.hyps(2) by (metis add.commute unatSuc)
  ultimately show ?case
    using counted_clone [of _ s ?t u s'] sender_clone.hyps unfolding keeps_count_def held_def by auto
next
  case (receiver_clone e s n s' b)
  let ?t = "s\<lparr>receivers := receivers s + 1\<rparr>"
  obtain u where "rc_clone ?t = (u, s')" "finished u"
    using receiver_clone.hyps(4,5) by (auto simp: mpmc_receiver_handle_clone_def mpmc_receiver_clone_def incr_receivers_def
      comp_eval split: prod.splits outcome.splits)
  moreover have "unat (receivers s + 1) = Suc (unat (receivers s))" using receiver_clone.hyps(3) by (metis add.commute unatSuc)
  ultimately show ?case
    using counted_clone [of _ s ?t u s'] receiver_clone.hyps unfolding keeps_count_def held_def by auto
next
  case (last_receiver_drop b env s i u s' j)
  have "keeps_count b SendersOnly s s'"
    using receiver_drop_counts [OF program_counts [OF last_receiver_drop.IH] _ _ last_receiver_drop.hyps(2,3)] last_receiver_drop.hyps(1) by simp
  then show ?case unfolding keeps_count_def held_def by auto
next
  case (try_send e env s x r s' b)
  from borrowed_count(1) [OF tracedD [OF counting.traced_sender_ops(1) [OF program_counts [OF try_send.IH]] try_send.hyps(2,3)] try_send.hyps(1)]
  show ?case .
next
  case (send_poll e env s f w p s' f' b)
  from borrowed_count(1) [OF traced_fst [OF counting.traced_sender_ops(4) [OF program_counts [OF send_poll.IH]] send_poll.hyps(3,4)] send_poll.hyps(1)]
  show ?case .
next
  case (send_drop e env s f u s' f' b)
  from borrowed_count(1) [OF traced_fst [OF counting.traced_sender_ops(5) [OF program_counts [OF send_drop.IH]] send_drop.hyps(2,3)] send_drop.hyps(1)]
  show ?case .
next
  case (sender_close e env s c s' b)
  from borrowed_count(1) [OF tracedD [OF counting.traced_sender_ops(2) [OF program_counts [OF sender_close.IH]] sender_close.hyps(2,3)] sender_close.hyps(1)]
  show ?case .
next
  case (try_recv e b env s v s')
  from borrowed_count(2) [OF tracedD [OF counting.traced_receiver_ops(1) [OF program_counts [OF try_recv.IH]] try_recv.hyps(3,4)] try_recv.hyps(2)]
  show ?case .
next
  case (try_iter_next e b env s q s')
  from borrowed_count(2) [OF tracedD [OF counting.traced_receiver_ops(2) [OF program_counts [OF try_iter_next.IH]] try_iter_next.hyps(3,4)] try_iter_next.hyps(2)]
  show ?case .
next
  case (poll_next e b env s w i c s' j)
  from borrowed_count(2) [OF traced_fst [OF counting.traced_receiver_ops(3) [OF program_counts [OF poll_next.IH]] poll_next.hyps(4,5)] poll_next.hyps(3)]
  show ?case .
next
  case (recv_poll e b env s w g c s' g')
  from borrowed_count(2) [OF traced_fst [OF counting.traced_receiver_ops(4) [OF program_counts [OF recv_poll.IH]] recv_poll.hyps(4,5)] recv_poll.hyps(3)]
  show ?case .
next
  case (recv_drop e b env s g u s' g')
  from borrowed_count(2) [OF traced_fst [OF counting.traced_receiver_ops(5) [OF program_counts [OF recv_drop.IH]] recv_drop.hyps(3,4)] recv_drop.hyps(2)]
  show ?case .
next
  case (receiver_close e b env s c s')
  from borrowed_count(2) [OF tracedD [OF counting.traced_sender_ops(3) [OF program_counts [OF receiver_close.IH]] receiver_close.hyps(3,4)] receiver_close.hyps(2)]
  show ?case .
next
  case (sender_drop b e env s u s')
  from sender_drop_counts [OF program_counts [OF sender_drop.IH] sender_drop.hyps(1) _ sender_drop.hyps(3,4)] sender_drop.hyps(2)
  show ?case by blast
next
  case (receiver_drop e b env s i u s' j)
  from receiver_drop_counts [OF program_counts [OF receiver_drop.IH] receiver_drop.hyps(2) _ receiver_drop.hyps(4,5)] receiver_drop.hyps(3)
  show ?case by blast
qed (auto simp: keeps_count_def counted_def held_def)

end
