(* ===== verification/Mpsc_Rc.thy ===== *)
theory Mpsc_Rc
  imports Mpsc_Calls Rc
begin

text \<open>
  The handles of an \<open>mpsc\<close> channel with the \<open>Rc\<close> they hold, as \<open>Mpmc_Rc\<close> does it for \<open>mpmc\<close>. There is one
  receiver, which is not cloned.
\<close>

section \<open>Handles\<close>

text \<open>The destructor of \<open>Chan\<close>: its fields in order.\<close>

definition mpsc_chan_drop :: "('t, 'u) menv \<Rightarrow> (('t, 'u) mpsc, unit) comp" where
  "mpsc_chan_drop env = (\<lambda>s.
     with_guard (with_guard
         (drop_wakers env (send_wakers s))
         (drop_waker_option env (recv_waker s)))
         (flavor_drop env (flavor s)) s)"

definition mpsc_bounded_handles :: "usize \<Rightarrow> 'u \<Rightarrow> ('t, 'u rc_box) mpsc outcome" where
  "mpsc_bounded_handles cap u = rc_share (mpsc_bounded cap (rc_new u))"

definition mpsc_unbounded_handles :: "allocator \<Rightarrow> 'u \<Rightarrow> ('t, 'u rc_box) mpsc outcome" where
  "mpsc_unbounded_handles f u = rc_share (mpsc_unbounded f (rc_new u))"

definition mpsc_sender_handle_clone :: "(('t, 'u rc_box) mpsc, unit) comp" where
  "mpsc_sender_handle_clone = thenM mpsc_sender_clone rc_clone"

definition mpsc_sender_handle_drop :: "('t, 'u rc_box) menv \<Rightarrow> (('t, 'u rc_box) mpsc, unit) comp" where
  "mpsc_sender_handle_drop env = with_guard (rc_drop (mpsc_chan_drop env)) (mpsc_sender_drop env)"

definition mpsc_receiver_handle_drop :: "('t, 'u rc_box) menv \<Rightarrow> (('t, 'u rc_box) mpsc, unit) comp" where
  "mpsc_receiver_handle_drop env = with_guard (rc_drop (mpsc_chan_drop env)) (mpsc_receiver_drop env)"

section \<open>Calls\<close>

text \<open>
  The first flag says that a sender is borrowed by an operation that is under way, the second that the
  receiver can be used as its owner does. Inside its operations it cannot, but \<open>close\<close> takes a shared
  reference.
\<close>

inductive mpsc_handle_call :: "bool \<Rightarrow> bool \<Rightarrow> ('t, 'u rc_box) mpsc \<Rightarrow> ('t, 'u rc_box) mpsc \<Rightarrow> bool" where
  user: "mpsc_handle_call b r s (s\<lparr>usr := (usr s)\<lparr>outside := u\<rparr>\<rparr>)"
| dropped: "d = ItemDropped x \<or> d = WakerDropped w \<Longrightarrow> mpsc_handle_call b r s (s\<lparr>log := log s @ [d]\<rparr>)"
| try_send: "program mpsc_inv (mpsc_handle_call True r) env \<Longrightarrow> senders s \<noteq> 0 \<Longrightarrow> mpsc_try_send env x s = (v, s')
    \<Longrightarrow> finished v \<Longrightarrow> mpsc_handle_call b r s s'"
| send_poll: "program mpsc_inv (mpsc_handle_call True r) env \<Longrightarrow> senders s \<noteq> 0 \<Longrightarrow> send_ok f
    \<Longrightarrow> mpsc_send_poll env w (s, f) = (p, (s', f')) \<Longrightarrow> finished p \<Longrightarrow> mpsc_handle_call b r s s'"
| send_drop: "program mpsc_inv (mpsc_handle_call True r) env \<Longrightarrow> senders s \<noteq> 0 \<Longrightarrow> mpsc_send_drop env (s, f) = (u, (s', f'))
    \<Longrightarrow> finished u \<Longrightarrow> mpsc_handle_call b r s s'"
| sender_close: "program mpsc_inv (mpsc_handle_call True r) env \<Longrightarrow> senders s \<noteq> 0 \<Longrightarrow> mpsc_sender_close env s = (c, s')
    \<Longrightarrow> finished c \<Longrightarrow> mpsc_handle_call b r s s'"
| sender_clone: "senders s \<noteq> 0 \<Longrightarrow> senders s + 1 \<noteq> 0 \<Longrightarrow> mpsc_sender_handle_clone s = (u, s') \<Longrightarrow> finished u
    \<Longrightarrow> mpsc_handle_call b r s s'"
| sender_drop: "program mpsc_inv (mpsc_handle_call b r) env \<Longrightarrow> senders s \<noteq> 0 \<Longrightarrow> (b \<Longrightarrow> senders s \<noteq> 1)
    \<Longrightarrow> mpsc_sender_handle_drop env s = (u, s') \<Longrightarrow> finished u \<Longrightarrow> mpsc_handle_call b r s s'"
| try_recv: "program mpsc_inv (mpsc_handle_call b False) env \<Longrightarrow> receiver_alive s \<Longrightarrow> mpsc_try_recv env s = (v, s')
    \<Longrightarrow> finished v \<Longrightarrow> mpsc_handle_call b True s s'"
| try_iter_next: "program mpsc_inv (mpsc_handle_call b False) env \<Longrightarrow> receiver_alive s \<Longrightarrow> mpsc_try_iter_next env s = (y, s')
    \<Longrightarrow> finished y \<Longrightarrow> mpsc_handle_call b True s s'"
| poll_next: "program mpsc_inv (mpsc_handle_call b False) env \<Longrightarrow> same_clones env \<Longrightarrow> receiver_alive s
    \<Longrightarrow> mpsc_poll_next env w s = (c, s') \<Longrightarrow> finished c \<Longrightarrow> mpsc_handle_call b True s s'"
| recv_poll: "program mpsc_inv (mpsc_handle_call b False) env \<Longrightarrow> same_clones env \<Longrightarrow> receiver_alive s
    \<Longrightarrow> mpsc_recv_poll env w (s, d) = (c, (s', d')) \<Longrightarrow> finished c \<Longrightarrow> mpsc_handle_call b True s s'"
| recv_drop: "program mpsc_inv (mpsc_handle_call b False) env \<Longrightarrow> receiver_alive s \<Longrightarrow> mpsc_recv_drop env (s, d) = (u, (s', d'))
    \<Longrightarrow> finished u \<Longrightarrow> mpsc_handle_call b True s s'"
| receiver_close: "program mpsc_inv (mpsc_handle_call b False) env \<Longrightarrow> receiver_alive s \<Longrightarrow> mpsc_receiver_close env s = (c, s')
    \<Longrightarrow> finished c \<Longrightarrow> mpsc_handle_call b r s s'"
| receiver_drop: "program mpsc_inv (mpsc_handle_call b False) env \<Longrightarrow> receiver_alive s \<Longrightarrow> mpsc_receiver_handle_drop env s = (u, s')
    \<Longrightarrow> finished u \<Longrightarrow> mpsc_handle_call b True s s'"

section \<open>These are calls\<close>

abbreviation mpsc_calls_of :: "bool \<Rightarrow> ('t, 'u) mpsc \<Rightarrow> ('t, 'u) mpsc \<Rightarrow> bool" where
  "mpsc_calls_of r \<equiv> mpsc_call (if r then AllHandles else AllSenders)"

interpretation mpsc_drops: dropping "(mpsc_call e)\<^sup>*\<^sup>*" for e
  by unfold_locales (auto intro: mpsc_call.dropped)

lemma mpsc_clone_traced: "traced (mpsc_call e)\<^sup>*\<^sup>* rc_clone"
  unfolding rc_clone_def by (intro star.traced_rules star.traced_modify r_into_rtranclp mpsc_call.user)

lemma mpsc_rc_drop_traced:
  assumes "traced_env (mpsc_call e)\<^sup>*\<^sup>* env"
  shows "traced (mpsc_call e)\<^sup>*\<^sup>* (rc_drop (mpsc_chan_drop env))"
proof -
  have "traced (mpsc_call e)\<^sup>*\<^sup>* (mpsc_chan_drop env)"
    unfolding mpsc_chan_drop_def
    by (rule traced_pointwise) (intro star.traced_with_guard mpsc_drops.traced_drops mpsc_drops.traced_flavor_drop assms)
  then show ?thesis
    unfolding rc_drop_def by (intro star.traced_rules star.traced_modify r_into_rtranclp mpsc_call.user)
qed

lemma mpsc_call_inv: "mpsc_inv s \<Longrightarrow> mpsc_call e s s' \<Longrightarrow> mpsc_inv s'"
  using mcalls.call_steps mcalls.reached.inv_steps by blast

lemma mpsc_program_calls:
  assumes "program mpsc_inv (\<lambda>s s'. mpsc_handle_call b r s s' \<and> (mpsc_calls_of r)\<^sup>*\<^sup>* s s') env"
  shows "admissible UNIV mpsc_inv (mpsc_calls_of r) env" and "traced_env (mpsc_calls_of r)\<^sup>*\<^sup>* env"
proof -
  show "admissible UNIV mpsc_inv (mpsc_calls_of r) env"
    using assms unfolding program_def by (blast intro: admissible_by_steps mpsc_call_inv)
  show "traced_env (mpsc_calls_of r)\<^sup>*\<^sup>* env" using assms by (rule program_traced) auto
qed

lemma senders_all_handles: "mpsc_call e s s' \<Longrightarrow> e = AllSenders \<Longrightarrow> mpsc_call AllHandles s s'"
proof (induction rule: mpsc_call.induct)
  case (sender_drop e env s u s')
  then have "admissible UNIV mpsc_inv (mpsc_call AllHandles) env" by (auto elim: admissible_mono)
  with sender_drop.hyps show ?case by (intro mpsc_call.sender_drop)
qed (auto intro: mpsc_call.intros elim: admissible_mono)

lemma senders_all: "(mpsc_call AllSenders)\<^sup>*\<^sup>* s s' \<Longrightarrow> (mpsc_call AllHandles)\<^sup>*\<^sup>* s s'"
  by (erule rtranclp_mono [THEN predicate2D, rotated]) (auto intro: senders_all_handles)

lemma mpsc_handle_call_calls: "mpsc_handle_call b r s s' \<Longrightarrow> (mpsc_calls_of r)\<^sup>*\<^sup>* s s'"
proof (induction rule: mpsc_handle_call.induct)
  case (sender_clone s u s' b r)
  then have "mpsc_calls_of r s (s\<lparr>senders := senders s + 1\<rparr>)"
    by (intro mpsc_call.sender_clone) (auto simp: mpsc_sender_clone_def incr_senders_def comp_eval)
  moreover have "rc_clone (s\<lparr>senders := senders s + 1\<rparr>) = (u, s')"
    using sender_clone.hyps(3) by (simp add: mpsc_sender_handle_clone_def mpsc_sender_clone_def incr_senders_def comp_eval)
  then have "(mpsc_calls_of r)\<^sup>*\<^sup>* (s\<lparr>senders := senders s + 1\<rparr>) s'"
    using tracedD [OF mpsc_clone_traced] sender_clone.hyps(4) by blast
  ultimately show ?case by (rule converse_rtranclp_into_rtranclp)
next
  case (sender_drop b r env s u s')
  from sender_drop.hyps(3) [unfolded mpsc_sender_handle_drop_def] sender_drop.hyps(4)
  obtain v t w where run: "mpsc_sender_drop env s = (v, t)" "finished v" "rc_drop (mpsc_chan_drop env) t = (w, s')" "finished w"
    by (rule with_guard_finished)
  have "mpsc_calls_of r s t" using mpsc_program_calls(1) [OF sender_drop.IH] sender_drop.hyps(1) run(1,2) by (rule mpsc_call.sender_drop)
  from converse_rtranclp_into_rtranclp [OF this tracedD [OF mpsc_rc_drop_traced [OF mpsc_program_calls(2) [OF sender_drop.IH]] run(3,4)]]
  show ?case .
next
  case (receiver_drop b env s u s')
  from receiver_drop.hyps(2) [unfolded mpsc_receiver_handle_drop_def] receiver_drop.hyps(3)
  obtain v t w where run: "mpsc_receiver_drop env s = (v, t)" "finished v" "rc_drop (mpsc_chan_drop env) t = (w, s')" "finished w"
    by (rule with_guard_finished)
  have "mpsc_call AllHandles s t"
    using mpsc_program_calls(1) [OF receiver_drop.IH] run(1,2) by (intro mpsc_call.receiver_drop) simp_all
  moreover have "(mpsc_call AllHandles)\<^sup>*\<^sup>* t s'"
    using tracedD [OF mpsc_rc_drop_traced [OF mpsc_program_calls(2) [OF receiver_drop.IH]] run(3,4)] by (simp add: senders_all)
  ultimately show ?case by simp
next
  case (receiver_close b env s c s' r)
  have "mpsc_call AllSenders s s'"
    using mpsc_program_calls(1) [OF receiver_close.IH] receiver_close.hyps(2,3) by (intro mpsc_call.receiver_close) simp_all
  then show ?case by (auto intro: senders_all_handles)
next
  case (send_poll r env s f w p s' f' b)
  then show ?case
    using mpsc_program_calls(1) [OF send_poll.IH] by (intro r_into_rtranclp mpsc_call.send_poll) (auto split: if_splits)
next
  case (try_send r env s x v s' b)
  show ?case by (intro r_into_rtranclp mpsc_call.try_send [OF mpsc_program_calls(1) [OF try_send.IH] try_send.hyps(2,3)])
next
  case (send_drop r env s f u s' f' b)
  show ?case by (intro r_into_rtranclp mpsc_call.send_drop [OF mpsc_program_calls(1) [OF send_drop.IH] send_drop.hyps(2,3)])
next
  case (sender_close r env s c s' b)
  show ?case by (intro r_into_rtranclp mpsc_call.sender_close [OF mpsc_program_calls(1) [OF sender_close.IH] sender_close.hyps(2,3)])
next
  case (try_recv b env s v s')
  show ?case using mpsc_call.try_recv [OF mpsc_program_calls(1) [OF try_recv.IH, simplified if_False] try_recv.hyps(2,3)] by auto
next
  case (try_iter_next b env s y s')
  show ?case using mpsc_call.try_iter_next [OF mpsc_program_calls(1) [OF try_iter_next.IH, simplified if_False] try_iter_next.hyps(2,3)] by auto
next
  case (poll_next b env s w c s')
  show ?case using mpsc_call.poll_next [OF mpsc_program_calls(1) [OF poll_next.IH, simplified if_False] poll_next.hyps(1-4)] by auto
next
  case (recv_poll b env s w d c s' d')
  show ?case using mpsc_call.recv_poll [OF mpsc_program_calls(1) [OF recv_poll.IH, simplified if_False] recv_poll.hyps(1-4)] by auto
next
  case (recv_drop b env s d u s' d')
  show ?case using mpsc_call.recv_drop [OF mpsc_program_calls(1) [OF recv_drop.IH, simplified if_False] recv_drop.hyps(2,3)] by auto
qed (auto intro: mpsc_call.user mpsc_call.dropped)

section \<open>Operations and the counts\<close>

locale mpsc_frame = tracing R
  for R :: "('t, 'u) mpsc \<Rightarrow> ('t, 'u) mpsc \<Rightarrow> bool" +
  assumes mpsc_same: "senders s' = senders s \<Longrightarrow> receiver_alive s' = receiver_alive s \<Longrightarrow> usr s' = usr s \<Longrightarrow> R s s'"

sublocale mpsc_frame \<subseteq> core_frame R
proof
  fix s s' :: "('t, 'u) mpsc"
  assume "senders s' = senders s" and "usr s' = usr s" and "core.more s' = core.more s"
  then show "R s s'" by (cases s, cases s') (auto intro: mpsc_same)
qed

context mpsc_frame
begin

lemma traced_set:
  "(\<And>s. senders (f s) = senders s \<and> receiver_alive (f s) = receiver_alive s \<and> usr (f s) = usr s) \<Longrightarrow> traced R (\<lambda>s. (g s, f s))"
  by (auto simp: traced_def intro: mpsc_same)

lemma traced_recv_waker:
  assumes "traced_env R env"
  shows "traced R (mpsc_register_recv_waker env w)" and "traced R (mpsc_clear_recv_waker env)"
    and "traced R (mpsc_wake_receiver env)" and "traced R (mpsc_close env)"
proof -
  show "traced R (mpsc_register_recv_waker env w)" "traced R (mpsc_clear_recv_waker env)"
    unfolding mpsc_register_recv_waker_def mpsc_clear_recv_waker_def using assms by (auto intro!: traced_core traced_set)
  show wake: "traced R (mpsc_wake_receiver env)"
    unfolding mpsc_wake_receiver_def using assms by (auto intro!: traced_core traced_set)
  show "traced R (mpsc_close env)"
    unfolding mpsc_close_def using assms by (auto intro!: traced_core traced_modify wake intro: mpsc_same)
qed

lemma traced_drain:
  assumes "traced_env R env"
  shows "traced R (mpsc_drain env)"
proof -
  have loop: "traced R (mpsc_drain_loop env n)" for n
    by (induction n) (use assms in \<open>auto intro!: traced_core\<close>)
  have "traced R (mpsc_drain_fuel env n)" for n
    by (induction n) (use assms in \<open>auto simp del: mpsc_drain_loop.simps intro!: traced_core loop\<close>)
  then show ?thesis by (auto simp: traced_def mpsc_drain_def simp del: mpsc_drain_fuel.simps)
qed

lemmas traced_mpsc = traced_core traced_recv_waker traced_drain

lemma traced_sender_ops:
  assumes "traced_env R env"
  shows "traced R (mpsc_try_send env x)" and "traced R (mpsc_sender_close env)" and "traced R (mpsc_receiver_close env)"
    and "traced (\<lambda>x y. R (fst x) (fst y)) (mpsc_send_poll env w)" and "traced (\<lambda>x y. R (fst x) (fst y)) (mpsc_send_drop env)"
proof -
  show "traced R (mpsc_try_send env x)" "traced R (mpsc_sender_close env)" "traced R (mpsc_receiver_close env)"
    unfolding mpsc_try_send_def mpsc_sender_close_def mpsc_receiver_close_def mpsc_sender_is_closed_def mpsc_receiver_is_closed_def
    using assms by (auto intro!: traced_mpsc)
  have "traced (\<lambda>x y. R (fst x) (fst y)) (mpsc_send_commit env r)" for r
    unfolding mpsc_send_commit_def using assms by (auto intro!: traced_beside traced_fields traced_mpsc)
  then show "traced (\<lambda>x y. R (fst x) (fst y)) (mpsc_send_poll env w)"
    unfolding mpsc_send_poll_def by (intro traced_send_poll assms)
  show "traced (\<lambda>x y. R (fst x) (fst y)) (mpsc_send_drop env)"
    unfolding mpsc_send_drop_def by (intro traced_send_drop assms)
qed

lemma traced_receiver_ops:
  assumes "traced_env R env"
  shows "traced R (mpsc_try_recv env)" and "traced R (mpsc_try_iter_next env)" and "traced R (mpsc_poll_next env w)"
    and "traced (\<lambda>x y. R (fst x) (fst y)) (mpsc_recv_poll env w)" and "traced (\<lambda>x y. R (fst x) (fst y)) (mpsc_recv_drop env)"
proof -
  show recv: "traced R (mpsc_try_recv env)" unfolding mpsc_try_recv_def using assms by (auto intro!: traced_mpsc)
  show "traced R (mpsc_try_iter_next env)" unfolding mpsc_try_iter_next_def by (auto intro!: traced_mpsc recv)
  have poll: "traced R (mpsc_poll_recv env w)" unfolding mpsc_poll_recv_def using assms by (auto intro!: traced_mpsc)
  then show "traced R (mpsc_poll_next env w)" by (simp add: mpsc_poll_next_def)
  show "traced (\<lambda>x y. R (fst x) (fst y)) (mpsc_recv_poll env w)"
    unfolding mpsc_recv_poll_def by (auto intro!: traced_beside poll)
  show "traced (\<lambda>x y. R (fst x) (fst y)) (mpsc_recv_drop env)"
    unfolding mpsc_recv_drop_def using assms by (auto intro!: traced_beside traced_mpsc)
qed

text \<open>The destructors, once the handle is off the count.\<close>

lemma traced_drop_tails:
  assumes "traced_env R env"
  shows "traced R (mpsc_wake_receiver env)"
    and "traced R (with_guard (mpsc_drain env) (thenM (wake_senders env) (mpsc_clear_recv_waker env)))"
    and "traced R (mpsc_chan_drop env)"
proof -
  show "traced R (mpsc_wake_receiver env)" using assms by (rule traced_recv_waker)
  show "traced R (with_guard (mpsc_drain env) (thenM (wake_senders env) (mpsc_clear_recv_waker env)))"
    using assms by (auto intro!: traced_mpsc)
  show "traced R (mpsc_chan_drop env)"
    unfolding mpsc_chan_drop_def
    by (rule traced_pointwise) (intro traced_with_guard traced_drops traced_flavor_drop assms)
qed

end

section \<open>The count is the number of handles\<close>

text \<open>As for \<open>mpmc\<close>. Code that cannot use the receiver as its owner does leaves it alive, or gone.\<close>

definition mpsc_counted :: "nat \<Rightarrow> ('t, 'u rc_box) mpsc \<Rightarrow> bool" where
  "mpsc_counted d s \<longleftrightarrow> unat (strong (usr s)) = unat (senders s) + (if receiver_alive s then 1 else 0) + d
     \<and> frees (usr s) = (if strong (usr s) = 0 then 1 else 0)"

definition mpsc_keeps_count :: "bool \<Rightarrow> bool \<Rightarrow> ('t, 'u rc_box) mpsc \<Rightarrow> ('t, 'u rc_box) mpsc \<Rightarrow> bool" where
  "mpsc_keeps_count b r s s' \<longleftrightarrow> (\<forall>d. mpsc_counted d s \<and> (b \<longrightarrow> senders s \<noteq> 0)
     \<longrightarrow> mpsc_counted d s' \<and> (b \<longrightarrow> senders s' \<noteq> 0) \<and> (\<not> r \<longrightarrow> receiver_alive s' = receiver_alive s))"

interpretation mpsc_counting: mpsc_frame "mpsc_keeps_count b r" for b r
  by unfold_locales (auto simp: mpsc_keeps_count_def mpsc_counted_def)

lemma mpsc_keeps_count_star: "(mpsc_keeps_count b r)\<^sup>*\<^sup>* s s' \<Longrightarrow> mpsc_keeps_count b r s s'"
  by (induction rule: rtranclp_induct) (auto intro: mpsc_counting.trace_refl mpsc_counting.trace_trans)

lemma mpsc_program_counts:
  assumes "program mpsc_inv (\<lambda>s s'. mpsc_handle_call b r s s' \<and> mpsc_keeps_count b r s s') env"
  shows "traced_env (mpsc_keeps_count b r) env"
  by (rule traced_env_mono [OF program_traced [OF assms, of "mpsc_keeps_count b r"]]) (auto intro: mpsc_keeps_count_star)

lemma mpsc_counted_drop:
  assumes "mpsc_counted (Suc d) t" and "b \<longrightarrow> senders t \<noteq> 0" and "rc_drop (mpsc_chan_drop env) t = (w, s')" and "finished w"
    and "traced_env (mpsc_keeps_count b r) env"
  shows "mpsc_counted d s' \<and> (b \<longrightarrow> senders s' \<noteq> 0) \<and> (\<not> r \<longrightarrow> receiver_alive s' = receiver_alive t)"
proof -
  let ?n = "strong (usr t) - 1"
  have pos: "strong (usr t) \<noteq> 0" using assms(1) by (auto simp: mpsc_counted_def)
  then have n: "unat ?n = unat (senders t) + (if receiver_alive t then 1 else 0) + d"
    using assms(1) by (simp add: mpsc_counted_def word_nat)
  show ?thesis
  proof (cases "?n = 0")
    case True
    let ?t = "t\<lparr>usr := (usr t)\<lparr>strong := ?n, frees := frees (usr t) + 1\<rparr>\<rparr>"
    have "mpsc_counted d ?t \<and> (b \<longrightarrow> senders ?t \<noteq> 0) \<and> receiver_alive ?t = receiver_alive t"
      using assms(1,2) n pos True by (auto simp: mpsc_counted_def)
    moreover have "mpsc_chan_drop env ?t = (w, s')"
      using assms(3) True by (simp add: rc_drop_def comp_eval)
    then have "mpsc_keeps_count b r ?t s'"
      using tracedD [OF mpsc_counting.traced_drop_tails(3) [OF assms(5)]] assms(4) by blast
    ultimately show ?thesis unfolding mpsc_keeps_count_def by metis
  next
    case False
    then have "s' = t\<lparr>usr := (usr t)\<lparr>strong := ?n\<rparr>\<rparr>" using assms(3) by (simp add: rc_drop_def comp_eval)
    then show ?thesis using assms(1,2) n pos False by (auto simp: mpsc_counted_def)
  qed
qed

lemma mpsc_borrowed_count:
  "mpsc_keeps_count True r s s' \<Longrightarrow> senders s \<noteq> 0 \<Longrightarrow> mpsc_keeps_count b r s s'"
  "mpsc_keeps_count b False s s' \<Longrightarrow> receiver_alive s \<Longrightarrow> mpsc_keeps_count b r s s'"
  by (auto simp: mpsc_keeps_count_def)

lemma mpsc_sender_drop_counts:
  assumes "traced_env (mpsc_keeps_count b r) env" and n: "senders s \<noteq> 0" "b \<Longrightarrow> senders s \<noteq> 1"
    and "mpsc_sender_handle_drop env s = (u, s')" and "finished u"
  shows "mpsc_keeps_count b r s s'"
proof -
  let ?s = "s\<lparr>senders := senders s - 1\<rparr>"
  from assms(4) [unfolded mpsc_sender_handle_drop_def] assms(5)
  obtain v t w where run: "mpsc_sender_drop env s = (v, t)" "finished v" "rc_drop (mpsc_chan_drop env) t = (w, s')" "finished w"
    by (rule with_guard_finished)
  have t: "mpsc_keeps_count b r ?s t"
    using run(1,2) tracedD [OF mpsc_counting.traced_drop_tails(1) [OF assms(1)]]
    by (auto simp: mpsc_sender_drop_def decr_senders_def comp_eval mpsc_counting.trace_refl split: if_splits)
  show ?thesis
    unfolding mpsc_keeps_count_def
  proof (intro allI impI)
    fix d assume "mpsc_counted d s \<and> (b \<longrightarrow> senders s \<noteq> 0)"
    then have "mpsc_counted (Suc d) ?s \<and> (b \<longrightarrow> senders ?s \<noteq> 0)"
      using n word_gt_one [of "senders s"] unfolding mpsc_counted_def by (auto simp: word_nat unat_gt_0 word_less_nat_alt)
    with t have "mpsc_counted (Suc d) t" "b \<longrightarrow> senders t \<noteq> 0" "\<not> r \<longrightarrow> receiver_alive t = receiver_alive ?s"
      unfolding mpsc_keeps_count_def by blast+
    with mpsc_counted_drop [OF this(1,2) run(3,4) assms(1)]
    show "mpsc_counted d s' \<and> (b \<longrightarrow> senders s' \<noteq> 0) \<and> (\<not> r \<longrightarrow> receiver_alive s' = receiver_alive s)" by auto
  qed
qed

lemma mpsc_receiver_drop_counts:
  assumes "traced_env (mpsc_keeps_count b False) env" and n: "receiver_alive s"
    and "mpsc_receiver_handle_drop env s = (u, s')" and "finished u"
  shows "mpsc_keeps_count b True s s'"
proof -
  let ?s = "s\<lparr>receiver_alive := False\<rparr>"
  from assms(3) [unfolded mpsc_receiver_handle_drop_def] assms(4)
  obtain v t w where run: "mpsc_receiver_drop env s = (v, t)" "finished v" "rc_drop (mpsc_chan_drop env) t = (w, s')" "finished w"
    by (rule with_guard_finished)
  have "with_guard (mpsc_drain env) (thenM (wake_senders env) (mpsc_clear_recv_waker env)) ?s = (v, t)"
    using run(1) by (simp add: mpsc_receiver_drop_def thenM_def bindM_def modify_def)
  then have t: "mpsc_keeps_count b False ?s t"
    using run(2) tracedD [OF mpsc_counting.traced_drop_tails(2) [OF assms(1)]] by blast
  show ?thesis
    unfolding mpsc_keeps_count_def
  proof (intro allI impI)
    fix d assume "mpsc_counted d s \<and> (b \<longrightarrow> senders s \<noteq> 0)"
    then have "mpsc_counted (Suc d) ?s \<and> (b \<longrightarrow> senders ?s \<noteq> 0)" using n unfolding mpsc_counted_def by auto
    with t have "mpsc_counted (Suc d) t" "b \<longrightarrow> senders t \<noteq> 0" unfolding mpsc_keeps_count_def by blast+
    with mpsc_counted_drop [OF this run(3,4) assms(1)]
    show "mpsc_counted d s' \<and> (b \<longrightarrow> senders s' \<noteq> 0) \<and> (\<not> True \<longrightarrow> receiver_alive s' = receiver_alive s)" by auto
  qed
qed

lemma mpsc_handle_call_counts: "mpsc_handle_call b r s s' \<Longrightarrow> mpsc_keeps_count b r s s'"
proof (induction rule: mpsc_handle_call.induct)
  case (sender_clone s u s' b r)
  have s': "s' = s\<lparr>senders := senders s + 1, usr := (usr s)\<lparr>strong := strong (usr s) + 1\<rparr>\<rparr>" and n: "strong (usr s) + 1 \<noteq> 0"
    using sender_clone.hyps(3,4)
    by (auto simp: mpsc_sender_handle_clone_def mpsc_sender_clone_def incr_senders_def rc_clone_def comp_eval split: if_splits)
  have "unat (strong (usr s) + 1) = Suc (unat (strong (usr s)))" "unat (senders s + 1) = Suc (unat (senders s))"
    using n sender_clone.hyps(2) by (metis add.commute unatSuc)+
  with sender_clone.hyps n show ?case unfolding mpsc_keeps_count_def mpsc_counted_def by (auto simp: s')
next
  case (try_send r env s x v s' b)
  from mpsc_borrowed_count(1) [OF tracedD [OF mpsc_counting.traced_sender_ops(1) [OF mpsc_program_counts [OF try_send.IH]] try_send.hyps(2,3)] try_send.hyps(1)]
  show ?case .
next
  case (send_poll r env s f w p s' f' b)
  from mpsc_borrowed_count(1) [OF traced_fst [OF mpsc_counting.traced_sender_ops(4) [OF mpsc_program_counts [OF send_poll.IH]] send_poll.hyps(3,4)] send_poll.hyps(1)]
  show ?case .
next
  case (send_drop r env s f u s' f' b)
  from mpsc_borrowed_count(1) [OF traced_fst [OF mpsc_counting.traced_sender_ops(5) [OF mpsc_program_counts [OF send_drop.IH]] send_drop.hyps(2,3)] send_drop.hyps(1)]
  show ?case .
next
  case (sender_close r env s c s' b)
  from mpsc_borrowed_count(1) [OF tracedD [OF mpsc_counting.traced_sender_ops(2) [OF mpsc_program_counts [OF sender_close.IH]] sender_close.hyps(2,3)] sender_close.hyps(1)]
  show ?case .
next
  case (try_recv b env s v s')
  from mpsc_borrowed_count(2) [OF tracedD [OF mpsc_counting.traced_receiver_ops(1) [OF mpsc_program_counts [OF try_recv.IH]] try_recv.hyps(2,3)] try_recv.hyps(1)]
  show ?case .
next
  case (try_iter_next b env s y s')
  from mpsc_borrowed_count(2) [OF tracedD [OF mpsc_counting.traced_receiver_ops(2) [OF mpsc_program_counts [OF try_iter_next.IH]] try_iter_next.hyps(2,3)] try_iter_next.hyps(1)]
  show ?case .
next
  case (poll_next b env s w c s')
  from mpsc_borrowed_count(2) [OF tracedD [OF mpsc_counting.traced_receiver_ops(3) [OF mpsc_program_counts [OF poll_next.IH]] poll_next.hyps(3,4)] poll_next.hyps(2)]
  show ?case .
next
  case (recv_poll b env s w d c s' d')
  from mpsc_borrowed_count(2) [OF traced_fst [OF mpsc_counting.traced_receiver_ops(4) [OF mpsc_program_counts [OF recv_poll.IH]] recv_poll.hyps(3,4)] recv_poll.hyps(2)]
  show ?case .
next
  case (recv_drop b env s d u s' d')
  from mpsc_borrowed_count(2) [OF traced_fst [OF mpsc_counting.traced_receiver_ops(5) [OF mpsc_program_counts [OF recv_drop.IH]] recv_drop.hyps(2,3)] recv_drop.hyps(1)]
  show ?case .
next
  case (receiver_close b env s c s' r)
  from mpsc_borrowed_count(2) [OF tracedD [OF mpsc_counting.traced_sender_ops(3) [OF mpsc_program_counts [OF receiver_close.IH]] receiver_close.hyps(2,3)] receiver_close.hyps(1)]
  show ?case .
next
  case (sender_drop b r env s u s')
  from mpsc_sender_drop_counts [OF mpsc_program_counts [OF sender_drop.IH] sender_drop.hyps(1) _ sender_drop.hyps(3,4)] sender_drop.hyps(2)
  show ?case by blast
next
  case (receiver_drop b env s u s')
  from mpsc_receiver_drop_counts [OF mpsc_program_counts [OF receiver_drop.IH] receiver_drop.hyps] show ?case .
qed (auto simp: mpsc_keeps_count_def mpsc_counted_def)

end
