(* ===== verification/Rc_Theorems.thy ===== *)
theory Rc_Theorems
  imports Mpmc_Theorems Mpsc_Theorems Mpmc_Rc Mpsc_Rc
begin

text \<open>
  The properties of the reference counts: the shared state of a channel is destroyed once, with its last
  handle, and never while an operation is using it.
\<close>

section \<open>New channels\<close>

lemma rc_share_new:
  assumes "rc_share r = Ret s0" and "\<And>s. r = Ret s \<Longrightarrow> usr s = rc_new u"
  obtains s where "r = Ret s" and "s0 = s\<lparr>usr := (usr s)\<lparr>strong := 2\<rparr>\<rparr>"
proof -
  obtain s where s: "r = Ret s" using assms(1) by (cases r) (auto simp: rc_share_def)
  with assms(2) have "usr s = rc_new u" by blast
  with s assms(1) have "s0 = s\<lparr>usr := (usr s)\<lparr>strong := 2\<rparr>\<rparr>"
    by (simp add: rc_share_def rc_clone_def rc_new_def comp_eval)
  with s show ?thesis by (rule that)
qed

lemma mpmc_handles_new:
  assumes "mpmc_bounded_handles cap u = Ret s0 \<and> unat cap \<le> 2 ^ 63 \<or> mpmc_unbounded_handles al u = Ret s0 \<and> allocator_ok al"
  shows "mpmc_inv s0" and "nothing_stranded s0" and "counted 0 s0"
proof -
  have new: "usr s = rc_new u \<and> senders s = 1 \<and> receivers s = 1 \<and> redelivery s = None"
    if "mpmc_bounded cap (rc_new u) = Ret s \<or> mpmc_unbounded al (rc_new u) = Ret s" for s :: "('a, 'b rc_box) mpmc"
    using that by (auto simp: mpmc_bounded_def mpmc_unbounded_def mpmc_new_def split: if_splits outcome.splits)
  obtain s where s: "mpmc_bounded cap (rc_new u) = Ret s \<and> unat cap \<le> 2 ^ 63
      \<or> mpmc_unbounded al (rc_new u) = Ret s \<and> allocator_ok al" and s0: "s0 = s\<lparr>usr := (usr s)\<lparr>strong := 2\<rparr>\<rparr>"
    using assms rc_share_new [of _ s0 u] new unfolding mpmc_bounded_handles_def mpmc_unbounded_handles_def by metis
  have "mpmc_call Whole s s0" unfolding s0 by (rule mpmc_call.user)
  with mpmc_constructors(1) [OF s] show "mpmc_inv s0" by (rule mpmc_call_inv)
  have n: "usr s = rc_new u" "senders s = 1" "receivers s = 1" using new [of s] s by auto
  then show "nothing_stranded s0" by (simp add: s0 nothing_stranded_def)
  from n show "counted 0 s0" by (simp add: s0 counted_def rc_new_def)
qed

lemma mpsc_handles_new:
  assumes "mpsc_bounded_handles cap u = Ret s0 \<and> unat cap \<le> 2 ^ 63 \<or> mpsc_unbounded_handles al u = Ret s0 \<and> allocator_ok al"
  shows "mpsc_inv s0" and "mpsc_nothing_left s0" and "mpsc_counted 0 s0"
proof -
  have new: "usr s = rc_new u \<and> senders s = 1 \<and> receiver_alive s"
    if "mpsc_bounded cap (rc_new u) = Ret s \<or> mpsc_unbounded al (rc_new u) = Ret s" for s :: "('a, 'b rc_box) mpsc"
    using that by (auto simp: mpsc_bounded_def mpsc_unbounded_def mpsc_new_def split: if_splits outcome.splits)
  obtain s where s: "mpsc_bounded cap (rc_new u) = Ret s \<and> unat cap \<le> 2 ^ 63
      \<or> mpsc_unbounded al (rc_new u) = Ret s \<and> allocator_ok al" and s0: "s0 = s\<lparr>usr := (usr s)\<lparr>strong := 2\<rparr>\<rparr>"
    using assms rc_share_new [of _ s0 u] new unfolding mpsc_bounded_handles_def mpsc_unbounded_handles_def by metis
  have "mpsc_call AllHandles s s0" unfolding s0 by (rule mpsc_call.user)
  with mpsc_constructors(1) [OF s] show "mpsc_inv s0" by (rule mpsc_call_inv)
  have n: "usr s = rc_new u" "senders s = 1" "receiver_alive s" using new [of s] s by auto
  then show "mpsc_nothing_left s0" by (simp add: s0 mpsc_nothing_left_def)
  from n show "mpsc_counted 0 s0" by (simp add: s0 mpsc_counted_def rc_new_def)
qed

section \<open>Sequences of calls\<close>

lemma handle_calls:
  assumes "(mpmc_handle_call b e)\<^sup>*\<^sup>* s s'"
  shows "(mpmc_call e)\<^sup>*\<^sup>* s s'" and "keeps_count b e s s'"
  using assms
proof (induction rule: rtranclp_induct)
  case (step t u)
  { case 1 show ?case using step.IH(1) handle_call_calls [OF step.hyps(2)] by simp }
  { case 2 show ?case using step.IH(2) handle_call_counts [OF step.hyps(2)] by (rule counting.trace_trans) }
qed (auto intro: counting.trace_refl)

lemma mpsc_handle_calls:
  assumes "(mpsc_handle_call b r)\<^sup>*\<^sup>* s s'"
  shows "(mpsc_calls_of r)\<^sup>*\<^sup>* s s'" and "mpsc_keeps_count b r s s'"
  using assms
proof (induction rule: rtranclp_induct)
  case (step t u)
  { case 1 show ?case by (rule rtranclp_trans [OF step.IH(1) mpsc_handle_call_calls [OF step.hyps(2)]]) }
  { case 2 show ?case using step.IH(2) mpsc_handle_call_counts [OF step.hyps(2)] by (rule mpsc_counting.trace_trans) }
qed (auto intro: mpsc_counting.trace_refl)

lemma with_guard_ret: "with_guard g (ret ()) = g"
  by (auto simp: comp_eval fun_eq_iff split: prod.split outcome.split)

lemma chan_drop_empty:
  assumes "flavor_inv (flavor s)" and "queue s = []" and "redelivery s = None" and "recv_wakers s = []"
  shows "mpmc_chan_drop env s = drop_wakers env (send_wakers s) s"
proof -
  have "flavor_drop env (flavor s) = ret ()" using flavor_drop_items [OF assms(1)] assms(2) by (auto simp: fun_eq_iff)
  with assms(3,4) show ?thesis by (simp add: mpmc_chan_drop_def drop_item_option_def with_guard_ret)
qed

lemma mpsc_chan_drop_empty:
  assumes "flavor_inv (flavor s)" and "queue s = []" and "recv_waker s = None"
  shows "mpsc_chan_drop env s = drop_wakers env (send_wakers s) s"
proof -
  have "flavor_drop env (flavor s) = ret ()" using flavor_drop_items [OF assms(1)] assms(2) by (auto simp: fun_eq_iff)
  with assms(3) show ?thesis by (simp add: mpsc_chan_drop_def drop_waker_option_def with_guard_ret)
qed

section \<open>The shared state is freed once\<close>

text \<open>
  C11. The strong count of the \<open>Rc\<close> of an \<open>mpmc\<close> channel is, between calls, the number of its senders and
  receivers, whatever handles are cloned, used and dropped, returning or unwinding, also by user code
  that runs inside an operation, such as the destructor of an item that owns a handle. The shared state
  is destroyed exactly once, when the last handle is gone, and not before. It is empty then: the
  destructor finds no item and no receiver's waker, and drops only the wakers that leaked \<open>Send\<close> futures
  left behind.
\<close>

theorem mpmc_freed_once:
  assumes "mpmc_bounded_handles cap u = Ret s0 \<and> unat cap \<le> 2 ^ 63 \<or> mpmc_unbounded_handles al u = Ret s0 \<and> allocator_ok al"
    and "(mpmc_handle_call False Whole)\<^sup>*\<^sup>* s0 s"
  shows "unat (strong (usr s)) = unat (senders s) + unat (receivers s)
    \<and> frees (usr s) = (if senders s = 0 \<and> receivers s = 0 then 1 else 0)
    \<and> (frees (usr s) = 1 \<longrightarrow> contents s = [] \<and> recv_wakers s = [] \<and> mpmc_chan_drop env s = drop_wakers env (send_wakers s) s)"
proof -
  note s0 = mpmc_handles_new [OF assms(1)] and run = handle_calls [OF assms(2)]
  have c: "counted 0 s" using run(2) s0(3) by (auto simp: keeps_count_def held_def)
  have i: "mpmc_inv s" using all_calls.calls_steps [OF run(1) s0(1)] all_calls.reached.inv_steps s0(1) by blast
  have e: "nothing_stranded s" by (rule calls_stranded [OF run(1) s0(1,2)])
  have zero: "strong (usr s) = 0 \<longleftrightarrow> senders s = 0 \<and> receivers s = 0"
    using c unat_zero_iff [of "strong (usr s)"] unfolding counted_def by simp
  have "contents s = [] \<and> recv_wakers s = []" if "senders s = 0 \<and> receivers s = 0"
    using that i e by (simp add: nothing_stranded_def mpmc_inv_def mpmc_disconnected_def)
  then show ?thesis
    using c zero i chan_drop_empty [of s env] by (auto simp: counted_def mpmc_inv_def split: option.splits if_splits)
qed

text \<open>A channel that is made, sent on, and whose two handles are dropped.\<close>

lemma program_quiet: "program I R (quiet_env True)"
proof -
  have "traced_env R\<^sup>*\<^sup>* (quiet_env True)"
    by (simp add: traced_env_def quiet_env_def star.traced_basic)
  then show ?thesis by (simp add: program_def admissible_quiet)
qed

definition pair_new :: "(nat, unit rc_box) mpmc" where
  "pair_new = (case mpmc_bounded_handles 2 () of Ret s \<Rightarrow> s | _ \<Rightarrow> mpmc_new (flavor_bounded 2) (rc_new ()))"

definition pair_sent :: "(nat, unit rc_box) mpmc" where
  "pair_sent = snd (mpmc_try_send (quiet_env True) 7 pair_new)"

definition pair_receiver :: "(nat, unit rc_box) mpmc" where
  "pair_receiver = snd (mpmc_sender_handle_drop (quiet_env True) pair_sent)"

definition pair_gone :: "(nat, unit rc_box) mpmc" where
  "pair_gone = fst (snd (mpmc_receiver_handle_drop (quiet_env True) (pair_receiver, None)))"

lemma pair_runs:
  "mpmc_bounded_handles 2 () = Ret pair_new"
  "mpmc_try_send (quiet_env True) 7 pair_new = (Ret (Inr ()), pair_sent)"
  "mpmc_sender_handle_drop (quiet_env True) pair_sent = (Ret (), pair_receiver)"
  "mpmc_receiver_handle_drop (quiet_env True) (pair_receiver, None) = (Ret (), (pair_gone, None))"
proof -
  have "case mpmc_bounded_handles 2 () of Ret (s :: (nat, unit rc_box) mpmc) \<Rightarrow> True | _ \<Rightarrow> False"
    "fst (mpmc_try_send (quiet_env True) 7 pair_new) = Ret (Inr ())"
    "fst (mpmc_sender_handle_drop (quiet_env True) pair_sent) = Ret ()"
    "fst (mpmc_receiver_handle_drop (quiet_env True) (pair_receiver, None)) = Ret ()"
    "snd (snd (mpmc_receiver_handle_drop (quiet_env True) (pair_receiver, None))) = None" by code_simp+
  then show "mpmc_bounded_handles 2 () = Ret pair_new"
    "mpmc_try_send (quiet_env True) 7 pair_new = (Ret (Inr ()), pair_sent)"
    "mpmc_sender_handle_drop (quiet_env True) pair_sent = (Ret (), pair_receiver)"
    "mpmc_receiver_handle_drop (quiet_env True) (pair_receiver, None) = (Ret (), (pair_gone, None))"
    by (simp_all add: pair_new_def pair_sent_def pair_receiver_def pair_gone_def prod_eq_iff split: outcome.splits)
qed

lemma pair_counts:
  "senders pair_new = 1" "receivers pair_new = 1" "senders pair_sent = 1" "receivers pair_receiver = 1"
  "senders pair_gone = 0" "receivers pair_gone = 0" "counted 0 pair_sent"
proof -
  show "senders pair_new = 1" "receivers pair_new = 1" "senders pair_sent = 1" "receivers pair_receiver = 1"
    "senders pair_gone = 0" "receivers pair_gone = 0" by code_simp+
  have "strong (usr pair_sent) = 2" "frees (usr pair_sent) = 0" "senders pair_sent = 1" "receivers pair_sent = 1" by code_simp+
  then show "counted 0 pair_sent" by (simp add: counted_def)
qed

lemma pair_calls: "(mpmc_handle_call False Whole)\<^sup>*\<^sup>* pair_new pair_gone"
proof -
  have "mpmc_handle_call False Whole pair_new pair_sent"
    by (rule mpmc_handle_call.try_send [OF program_quiet _ pair_runs(2)]) (simp_all add: pair_counts)
  moreover have "mpmc_handle_call False Whole pair_sent pair_receiver"
    by (rule mpmc_handle_call.sender_drop [OF program_quiet _ _ pair_runs(3)]) (simp_all add: pair_counts)
  moreover have "mpmc_handle_call False Whole pair_receiver pair_gone"
    by (rule mpmc_handle_call.last_receiver_drop [OF program_quiet _ pair_runs(4)]) (simp_all add: pair_counts)
  ultimately show ?thesis by (meson converse_rtranclp_into_rtranclp rtranclp.rtrancl_refl)
qed

theorem mpmc_freed_once_witness:
  "frees (usr pair_gone) = 1 \<and> contents pair_gone = [] \<and> strong (usr pair_gone) = 0"
proof -
  from mpmc_freed_once [OF _ pair_calls, of 2 "()"] pair_runs(1) show ?thesis by (simp add: pair_counts)
qed

text \<open>
  C13. The same for \<open>mpsc\<close>: between calls the strong count is the number of senders, and one for the
  receiver while it is there; the shared state is destroyed exactly once, when all handles are gone, and
  is empty then.
\<close>

theorem mpsc_freed_once:
  assumes "mpsc_bounded_handles cap u = Ret s0 \<and> unat cap \<le> 2 ^ 63 \<or> mpsc_unbounded_handles al u = Ret s0 \<and> allocator_ok al"
    and "(mpsc_handle_call False True)\<^sup>*\<^sup>* s0 s"
  shows "unat (strong (usr s)) = unat (senders s) + (if receiver_alive s then 1 else 0)
    \<and> frees (usr s) = (if senders s = 0 \<and> \<not> receiver_alive s then 1 else 0)
    \<and> (frees (usr s) = 1 \<longrightarrow> queue s = [] \<and> recv_waker s = None \<and> mpsc_chan_drop env s = drop_wakers env (send_wakers s) s)"
proof -
  note s0 = mpsc_handles_new [OF assms(1)]
  have run: "(mpsc_call AllHandles)\<^sup>*\<^sup>* s0 s" "mpsc_keeps_count False True s0 s" using mpsc_handle_calls [OF assms(2)] by simp_all
  have c: "mpsc_counted 0 s" using run(2) s0(3) by (auto simp: mpsc_keeps_count_def)
  have i: "mpsc_inv s" using mcalls.calls_steps [OF run(1) s0(1)] mcalls.reached.inv_steps s0(1) by blast
  have e: "mpsc_nothing_left s" by (rule mpsc_calls_empty [OF run(1) s0(1,2)])
  have zero: "strong (usr s) = 0 \<longleftrightarrow> senders s = 0 \<and> \<not> receiver_alive s"
    using c unat_zero_iff [of "strong (usr s)"] unfolding mpsc_counted_def by (auto split: if_splits)
  have "queue s = [] \<and> recv_waker s = None" if "senders s = 0 \<and> \<not> receiver_alive s"
    using that i e by (simp add: mpsc_nothing_left_def mpsc_inv_def mpsc_disconnected_def)
  then show ?thesis
    using c zero i mpsc_chan_drop_empty [of s env] by (auto simp: mpsc_counted_def mpsc_inv_def split: if_splits)
qed

definition solo_new :: "(nat, unit rc_box) mpsc" where
  "solo_new = (case mpsc_bounded_handles 2 () of Ret s \<Rightarrow> s | _ \<Rightarrow> mpsc_new (flavor_bounded 2) (rc_new ()))"

definition solo_sender :: "(nat, unit rc_box) mpsc" where
  "solo_sender = snd (mpsc_receiver_handle_drop (quiet_env True) solo_new)"

definition solo_gone :: "(nat, unit rc_box) mpsc" where
  "solo_gone = snd (mpsc_sender_handle_drop (quiet_env True) solo_sender)"

lemma solo_runs:
  "mpsc_bounded_handles 2 () = Ret solo_new"
  "mpsc_receiver_handle_drop (quiet_env True) solo_new = (Ret (), solo_sender)"
  "mpsc_sender_handle_drop (quiet_env True) solo_sender = (Ret (), solo_gone)"
proof -
  have "case mpsc_bounded_handles 2 () of Ret (s :: (nat, unit rc_box) mpsc) \<Rightarrow> True | _ \<Rightarrow> False"
    "fst (mpsc_receiver_handle_drop (quiet_env True) solo_new) = Ret ()"
    "fst (mpsc_sender_handle_drop (quiet_env True) solo_sender) = Ret ()" by code_simp+
  then show "mpsc_bounded_handles 2 () = Ret solo_new"
    "mpsc_receiver_handle_drop (quiet_env True) solo_new = (Ret (), solo_sender)"
    "mpsc_sender_handle_drop (quiet_env True) solo_sender = (Ret (), solo_gone)"
    by (simp_all add: solo_new_def solo_sender_def solo_gone_def prod_eq_iff split: outcome.splits)
qed

lemma solo_calls: "(mpsc_handle_call False True)\<^sup>*\<^sup>* solo_new solo_gone"
proof -
  have "receiver_alive solo_new" "senders solo_sender = 1" by code_simp+
  then have "mpsc_handle_call False True solo_new solo_sender" "mpsc_handle_call False True solo_sender solo_gone"
    using mpsc_handle_call.receiver_drop [OF program_quiet _ solo_runs(2)] mpsc_handle_call.sender_drop [OF program_quiet _ _ solo_runs(3)]
    by simp_all
  then show ?thesis by (meson converse_rtranclp_into_rtranclp rtranclp.rtrancl_refl)
qed

theorem mpsc_freed_once_witness: "frees (usr solo_gone) = 1 \<and> queue solo_gone = [] \<and> strong (usr solo_gone) = 0"
proof -
  have "senders solo_gone = 0" "\<not> receiver_alive solo_gone" by code_simp+
  with mpsc_freed_once [OF _ solo_calls, of 2 "()"] solo_runs(1) show ?thesis by simp
qed

section \<open>No use after free\<close>

text \<open>
  C12. The shared state of an \<open>mpmc\<close> channel is not freed under an operation that is using it. Code that runs
  while a sender or a receiver is borrowed, or while the destructor of a handle is under way (\<open>d\<close> counts
  these), may clone, use and drop the other handles as it likes: the state is still there afterwards,
  and so is the borrowed handle.
\<close>

theorem mpmc_not_freed_in_use:
  assumes "counted d s" and "held b e s" and "d \<noteq> 0 \<or> b \<or> e = Borrowed" and "(mpmc_handle_call b e)\<^sup>*\<^sup>* s s'"
  shows "frees (usr s') = 0 \<and> counted d s' \<and> held b e s'"
proof -
  have "counted d s'" "held b e s'" using handle_calls(2) [OF assms(4)] assms(1,2) by (auto simp: keeps_count_def)
  with assms(3) show ?thesis by (auto simp: counted_def held_def)
qed

definition pair_cloned :: "(nat, unit rc_box) mpmc" where
  "pair_cloned = snd (mpmc_sender_handle_clone pair_sent)"

theorem mpmc_not_freed_in_use_witness: "counted 0 pair_cloned \<and> frees (usr pair_cloned) = 0"
proof -
  have "fst (mpmc_sender_handle_clone pair_sent) = Ret ()" by code_simp
  then have run: "mpmc_sender_handle_clone pair_sent = (Ret (), pair_cloned)" by (simp add: pair_cloned_def prod_eq_iff)
  have "mpmc_handle_call True Whole pair_sent pair_cloned"
    by (rule mpmc_handle_call.sender_clone [OF _ _ run]) (simp_all add: pair_counts)
  then have "(mpmc_handle_call True Whole)\<^sup>*\<^sup>* pair_sent pair_cloned" by (rule r_into_rtranclp)
  from mpmc_not_freed_in_use [OF pair_counts(7) _ _ this] show ?thesis by (simp add: held_def pair_counts)
qed

text \<open>
  C36. The shared state of an \<open>mpsc\<close> channel is not freed under an operation that is using it. Code that runs
  while a sender or the receiver is borrowed, or while the destructor of a handle is under way
  (\<open>d\<close> counts these), may clone, use and drop the other handles as it likes: the state is still there
  afterwards, with the right strong count, and so is the borrowed handle. Inside an operation of the
  receiver (\<open>r\<close> is false) that code can neither drop it nor use it mutably.
\<close>

theorem mpsc_not_freed_in_use:
  assumes "mpsc_counted d s" and "b \<longrightarrow> senders s \<noteq> 0" and "d \<noteq> 0 \<or> b \<or> \<not> r \<and> receiver_alive s"
    and "(mpsc_handle_call b r)\<^sup>*\<^sup>* s s'"
  shows "frees (usr s') = 0 \<and> mpsc_counted d s' \<and> (b \<longrightarrow> senders s' \<noteq> 0) \<and> (\<not> r \<longrightarrow> receiver_alive s' = receiver_alive s)"
proof -
  have "mpsc_counted d s'" "b \<longrightarrow> senders s' \<noteq> 0" "\<not> r \<longrightarrow> receiver_alive s' = receiver_alive s"
    using mpsc_handle_calls(2) [OF assms(4)] assms(1,2) by (auto simp: mpsc_keeps_count_def)
  with assms(3) show ?thesis by (auto simp: mpsc_counted_def)
qed

definition solo_receiver :: "(nat, unit rc_box) mpsc" where
  "solo_receiver = snd (mpsc_sender_handle_drop (quiet_env True) solo_new)"

theorem mpsc_not_freed_in_use_witness: "frees (usr solo_receiver) = 0 \<and> receiver_alive solo_receiver"
proof -
  have "fst (mpsc_sender_handle_drop (quiet_env True) solo_new) = Ret ()" by code_simp
  then have run: "mpsc_sender_handle_drop (quiet_env True) solo_new = (Ret (), solo_receiver)"
    by (simp add: solo_receiver_def prod_eq_iff)
  have new: "senders solo_new = 1" "receiver_alive solo_new" "strong (usr solo_new) = 2" "frees (usr solo_new) = 0" by code_simp+
  then have "mpsc_counted 0 solo_new" by (simp add: mpsc_counted_def)
  moreover have "mpsc_handle_call False False solo_new solo_receiver"
    by (rule mpsc_handle_call.sender_drop [OF program_quiet _ _ run]) (simp_all add: new)
  then have "(mpsc_handle_call False False)\<^sup>*\<^sup>* solo_new solo_receiver" by (rule r_into_rtranclp)
  ultimately show ?thesis using mpsc_not_freed_in_use [of 0 solo_new False False solo_receiver] new by simp
qed

section \<open>Cloning\<close>

lemma two_64: "(2 :: nat) ^ 64 = 18446744073709551616"
  by simp

lemma usize_wraps: "unat (n :: usize) = 2 ^ 64 - 1 \<longleftrightarrow> n + 1 = 0"
proof (cases "Suc (unat n) < 2 ^ 64")
  case True
  then have "n + 1 \<noteq> 0" using unat_suc_nowrap [of n] unat_zero_iff [of "n + 1"] by simp
  with True show ?thesis by simp
next
  case False
  then have n: "Suc (unat n) = 2 ^ 64" unfolding two_64 using unat_lt64 [of n] by linarith
  then have "unat (n + 1) = 0" by (simp add: unat_word_ariths)
  with n show ?thesis by simp
qed

text \<open>
  C38. Cloning a handle adds one to its count and to the strong count, and neither wraps. The code checks
  only the latter, in \<open>Rc::clone\<close>, after the former was stored; the process aborts there before the
  number of handles of a kind could reach \<open>2 ^ 64\<close>.
\<close>

theorem mpmc_handle_clone_spec:
  assumes "counted d s"
  shows "(senders s \<noteq> 0 \<longrightarrow> (if unat (strong (usr s)) = 2 ^ 64 - 1 then fst (mpmc_sender_handle_clone s) = Abort RcOverflow
      else \<exists>s'. mpmc_sender_handle_clone s = (Ret (), s') \<and> unat (senders s') = Suc (unat (senders s))
        \<and> receivers s' = receivers s \<and> counted d s'))
    \<and> (receivers s \<noteq> 0 \<longrightarrow> (if unat (strong (usr s)) = 2 ^ 64 - 1 then fst (mpmc_receiver_handle_clone s) = Abort RcOverflow
      else \<exists>s'. mpmc_receiver_handle_clone s = (Ret None, s') \<and> unat (receivers s') = Suc (unat (receivers s))
        \<and> senders s' = senders s \<and> counted d s'))"
proof -
  have suc: "unat (m + 1) = Suc (unat m)" if "unat m \<le> unat (strong (usr s))" "strong (usr s) + 1 \<noteq> 0" for m :: usize
  proof (rule unat_suc_nowrap)
    have "unat (strong (usr s)) \<noteq> 2 ^ 64 - 1" using that(2) by (simp only: usize_wraps not_False_eq_True)
    with that(1) unat_lt64 [of "strong (usr s)"] show "Suc (unat m) < 2 ^ 64" unfolding two_64 by linarith
  qed
  have le: "unat (senders s) \<le> unat (strong (usr s))" "unat (receivers s) \<le> unat (strong (usr s))"
    using assms by (simp_all add: counted_def)
  let ?n = "strong (usr s) + 1"
  let ?s = "s\<lparr>senders := senders s + 1, usr := (usr s)\<lparr>strong := ?n\<rparr>\<rparr>"
  let ?r = "s\<lparr>receivers := receivers s + 1, usr := (usr s)\<lparr>strong := ?n\<rparr>\<rparr>"
  have "mpmc_sender_handle_clone s = (if ?n = 0 then Abort RcOverflow else Ret (), ?s)"
    and "mpmc_receiver_handle_clone s = (if ?n = 0 then Abort RcOverflow else Ret None, ?r)"
    by (simp_all add: mpmc_sender_handle_clone_def mpmc_sender_clone_def incr_senders_def mpmc_receiver_handle_clone_def
        mpmc_receiver_clone_def incr_receivers_def rc_clone_def comp_eval)
  moreover have "counted d ?s" if "senders s \<noteq> 0" "?n \<noteq> 0"
    using assms that suc le unfolding counted_def by (auto simp: suc)
  moreover have "counted d ?r" if "receivers s \<noteq> 0" "?n \<noteq> 0"
    using assms that suc le unfolding counted_def by (auto simp: suc)
  ultimately show ?thesis unfolding usize_wraps using suc [OF le(1)] suc [OF le(2)] by auto
qed

theorem mpmc_handle_clone_spec_witness:
  "\<exists>s'. mpmc_sender_handle_clone pair_sent = (Ret (), s') \<and> unat (senders s') = 2 \<and> counted 0 s'"
proof -
  have "strong (usr pair_sent) = 2" by code_simp
  with mpmc_handle_clone_spec [OF pair_counts(7)] show ?thesis by (auto simp: pair_counts)
qed

end
