(* ===== verification/Chan_Spec.thy ===== *)
theory Chan_Spec
  imports Wakers Errors
begin

text \<open>
  What both channels promise a program that does not wait: a reference channel, which is a list, a bound,
  a flag and a number of senders, and its answer to every call that returns at once. A locale states
  that an implementation refines it, and carries the refinement over to whole programs.
\<close>

section \<open>The reference channel\<close>

record 't chan_spec =
  items :: "'t list"
  bound :: "nat option"
  shut :: bool
  handles :: nat

definition spec_new :: "nat option \<Rightarrow> 't chan_spec" where
  "spec_new b = \<lparr>items = [], bound = b, shut = False, handles = 1\<rparr>"

text \<open>The calls of a sender and of the one receiver that return at once, and their answers.\<close>

datatype 't call =
    TrySend 't | CloseSender | CloneSender | DropSender | SenderClosed | IsFull | Capacity
  | TryRecv | CloseReceiver | ReceiverClosed | Len | IsEmpty

datatype 't answer =
    Sent "'t try_send_error + unit" | Got "try_recv_error + 't" | Flag bool | Count nat | Bound "nat option" | Done

fun of_sender :: "'t call \<Rightarrow> bool" where
  "of_sender (TrySend x) = True"
| "of_sender CloseSender = True"
| "of_sender CloneSender = True"
| "of_sender DropSender = True"
| "of_sender SenderClosed = True"
| "of_sender IsFull = True"
| "of_sender Capacity = True"
| "of_sender _ = False"

text \<open>
  A call is possible if its handle exists and, for a clone, if the count of handles does not overflow.
\<close>

definition possible :: "'t call \<Rightarrow> 't chan_spec \<Rightarrow> bool" where
  "possible a c \<longleftrightarrow> (of_sender a \<longrightarrow> handles c \<noteq> 0) \<and> (a = CloneSender \<longrightarrow> handles c + 1 < 2 ^ 64)"

abbreviation ended :: "'t chan_spec \<Rightarrow> bool" where
  "ended c \<equiv> handles c = 0 \<or> shut c"

fun spec_call :: "'t call \<Rightarrow> 't chan_spec \<Rightarrow> 't answer \<times> 't chan_spec" where
  "spec_call (TrySend x) c = (if shut c then (Sent (Inl (Closed x)), c)
     else if bound c = Some (length (items c)) then (Sent (Inl (Full x)), c)
     else (Sent (Inr ()), c\<lparr>items := items c @ [x]\<rparr>))"
| "spec_call CloseSender c = (Flag (\<not> shut c), c\<lparr>shut := True\<rparr>)"
| "spec_call CloneSender c = (Done, c\<lparr>handles := handles c + 1\<rparr>)"
| "spec_call DropSender c = (Done, c\<lparr>handles := handles c - 1\<rparr>)"
| "spec_call SenderClosed c = (Flag (shut c), c)"
| "spec_call IsFull c = (Flag (bound c = Some (length (items c))), c)"
| "spec_call Capacity c = (Bound (bound c), c)"
| "spec_call TryRecv c = (case items c of
     x # xs \<Rightarrow> (Got (Inr x), c\<lparr>items := xs\<rparr>)
   | [] \<Rightarrow> (Got (Inl (if ended c then Disconnected else Empty)), c))"
| "spec_call CloseReceiver c = (Flag (\<not> ended c), if ended c then c else c\<lparr>shut := True\<rparr>)"
| "spec_call ReceiverClosed c = (Flag (ended c), c)"
| "spec_call Len c = (Count (length (items c)), c)"
| "spec_call IsEmpty c = (Flag (items c = []), c)"

text \<open>A program is a list of calls. It gives no answers if one of them is not possible.\<close>

fun spec_run :: "'t call list \<Rightarrow> 't chan_spec \<Rightarrow> ('t answer list \<times> 't chan_spec) option" where
  "spec_run [] c = Some ([], c)"
| "spec_run (a # as) c = (if \<not> possible a c then None
     else case spec_call a c of (r, c') \<Rightarrow> map_option (\<lambda>(rs, c''). (r # rs, c'')) (spec_run as c'))"

fun run_calls :: "('t call \<Rightarrow> ('s, 't answer) comp) \<Rightarrow> 't call list \<Rightarrow> ('s, 't answer list) comp" where
  "run_calls perform [] = ret []"
| "run_calls perform (a # as) = bindM (perform a) (\<lambda>r. bindM (run_calls perform as) (\<lambda>rs. ret (r # rs)))"

section \<open>Facts about the reference channel\<close>

lemma spec_run_append:
  "spec_run (as @ bs) c = (case spec_run as c of
     None \<Rightarrow> None | Some (rs, c') \<Rightarrow> map_option (\<lambda>(rs', c''). (rs @ rs', c'')) (spec_run bs c'))"
  by (induction as arbitrary: c) (auto split: option.splits prod.splits simp: option.map_comp comp_def map_option_case)

lemma spec_sends:
  assumes "handles c \<noteq> 0" and "\<not> shut c" and "\<And>b. bound c = Some b \<Longrightarrow> length (items c) + length xs \<le> b"
  shows "spec_run (map TrySend xs) c = Some (replicate (length xs) (Sent (Inr ())), c\<lparr>items := items c @ xs\<rparr>)"
  using assms
proof (induction xs arbitrary: c)
  case (Cons x xs)
  have "bound c \<noteq> Some (length (items c))" using Cons.prems(3) by fastforce
  with Cons.prems Cons.IH [of "c\<lparr>items := items c @ [x]\<rparr>"] show ?case
    by (simp add: possible_def split: option.splits)
qed simp

lemma spec_recvs: "spec_run (replicate (length xs) TryRecv) (c\<lparr>items := xs @ ys\<rparr>) = Some (map (\<lambda>x. Got (Inr x)) xs, c\<lparr>items := ys\<rparr>)"
  by (induction xs) (simp_all add: possible_def)

text \<open>What is sent is received, in order; the channel is as it was.\<close>

lemma spec_round_trip:
  assumes "handles c \<noteq> 0" and "\<not> shut c" and "items c = []" and "\<And>b. bound c = Some b \<Longrightarrow> length xs \<le> b"
  shows "spec_run (map TrySend xs @ replicate (length xs) TryRecv) c
    = Some (replicate (length xs) (Sent (Inr ())) @ map (\<lambda>x. Got (Inr x)) xs, c)"
proof -
  have "c\<lparr>items := []\<rparr> = c" using assms(3) by simp
  with spec_sends [OF assms(1,2), of xs] spec_recvs [of xs "[]" c] assms(3,4) show ?thesis
    by (simp add: spec_run_append)
qed

section \<open>Refinement\<close>

locale refines_spec =
  fixes abs :: "'s \<Rightarrow> 't chan_spec"
    and ok :: "'s \<Rightarrow> bool"
    and perform :: "'t call \<Rightarrow> ('s, 't answer) comp"
  assumes call_refines: "ok s \<Longrightarrow> possible a (abs s)
    \<Longrightarrow> wp {OutOfMemory} (perform a) (\<lambda>r s'. ok s' \<and> (r, abs s') = spec_call a (abs s)) (\<lambda>_ _. False) s"
begin

lemma run_refines:
  "ok s \<Longrightarrow> spec_run as (abs s) = Some (rs, c)
    \<Longrightarrow> wp {OutOfMemory} (run_calls perform as) (\<lambda>rs' s'. ok s' \<and> rs' = rs \<and> abs s' = c) (\<lambda>_ _. False) s"
proof (induction as arbitrary: s rs)
  case Nil
  then show ?case by (simp add: wp_simps)
next
  case (Cons a as)
  obtain r c' rs' where r: "possible a (abs s)" "spec_call a (abs s) = (r, c')" "spec_run as c' = Some (rs', c)" "rs = r # rs'"
    using Cons.prems(2) by (auto split: if_splits prod.splits)
  have rest: "wp {OutOfMemory} (bindM (run_calls perform as) (\<lambda>rs. ret (r # rs)))
      (\<lambda>rs' s'. ok s' \<and> rs' = rs \<and> abs s' = c) (\<lambda>_ _. False) t" if "ok t" "abs t = c'" for t
    unfolding wp_bindM by (rule wp_conseq [OF Cons.IH [of t rs']]) (use that r in \<open>auto simp: wp_simps\<close>)
  show ?case
    unfolding run_calls.simps wp_bindM [of _ "perform a"]
    by (rule wp_conseq [OF call_refines [OF Cons.prems(1) r(1)]]) (use rest r(2) in auto)
qed

end

end
