(* ===== verification/Sync_Runs.thy ===== *)
theory Sync_Runs
  imports Chan_Spec Mpsc_Promises Mpmc_Promises
begin

text \<open>
  Programs that never wait. Both channels refine the reference channel for the calls that return at
  once, from a state in which no task is parked: then no user code runs, and nothing parks a task.
\<close>

section \<open>The calls\<close>

fun mpsc_perform :: "('t, 'u) menv \<Rightarrow> 't call \<Rightarrow> (('t, 'u) mpsc, 't answer) comp" where
  "mpsc_perform env (TrySend x) = bindM (mpsc_try_send env x) (\<lambda>r. ret (Sent r))"
| "mpsc_perform env CloseSender = bindM (mpsc_sender_close env) (\<lambda>b. ret (Flag b))"
| "mpsc_perform env CloneSender = thenM mpsc_sender_clone (ret Done)"
| "mpsc_perform env DropSender = thenM (mpsc_sender_drop env) (ret Done)"
| "mpsc_perform env SenderClosed = bindM mpsc_sender_is_closed (\<lambda>b. ret (Flag b))"
| "mpsc_perform env IsFull = bindM mpsc_sender_is_full (\<lambda>b. ret (Flag b))"
| "mpsc_perform env Capacity = bindM mpsc_sender_capacity (\<lambda>c. ret (Bound (map_option unat c)))"
| "mpsc_perform env TryRecv = bindM (mpsc_try_recv env) (\<lambda>r. ret (Got r))"
| "mpsc_perform env CloseReceiver = bindM (mpsc_receiver_close env) (\<lambda>b. ret (Flag b))"
| "mpsc_perform env ReceiverClosed = bindM mpsc_receiver_is_closed (\<lambda>b. ret (Flag b))"
| "mpsc_perform env Len = bindM mpsc_receiver_len (\<lambda>n. ret (Count (unat n)))"
| "mpsc_perform env IsEmpty = bindM mpsc_receiver_is_empty (\<lambda>b. ret (Flag b))"

fun mpmc_perform :: "('t, 'u) cmenv \<Rightarrow> 't call \<Rightarrow> (('t, 'u) mpmc, 't answer) comp" where
  "mpmc_perform env (TrySend x) = bindM (mpmc_try_send env x) (\<lambda>r. ret (Sent r))"
| "mpmc_perform env CloseSender = bindM (mpmc_sender_close env) (\<lambda>b. ret (Flag b))"
| "mpmc_perform env CloneSender = thenM mpmc_sender_clone (ret Done)"
| "mpmc_perform env DropSender = thenM (mpmc_sender_drop env) (ret Done)"
| "mpmc_perform env SenderClosed = bindM mpmc_sender_is_closed (\<lambda>b. ret (Flag b))"
| "mpmc_perform env IsFull = bindM mpmc_sender_is_full (\<lambda>b. ret (Flag b))"
| "mpmc_perform env Capacity = bindM mpmc_sender_capacity (\<lambda>c. ret (Bound (map_option unat c)))"
| "mpmc_perform env TryRecv = bindM (mpmc_try_recv env) (\<lambda>r. ret (Got r))"
| "mpmc_perform env CloseReceiver = bindM (mpmc_receiver_close env) (\<lambda>b. ret (Flag b))"
| "mpmc_perform env ReceiverClosed = bindM mpmc_receiver_is_closed (\<lambda>b. ret (Flag b))"
| "mpmc_perform env Len = bindM mpmc_receiver_len (\<lambda>n. ret (Count (unat n)))"
| "mpmc_perform env IsEmpty = bindM mpmc_receiver_is_empty (\<lambda>b. ret (Flag b))"

section \<open>The abstraction\<close>

definition core_abs :: "'t list \<Rightarrow> ('t, 'u, 'z) core_scheme \<Rightarrow> 't chan_spec" where
  "core_abs xs s = \<lparr>items = xs, bound = capacity s, shut = closed s, handles = unat (senders s)\<rparr>"

lemma core_abs_sel [simp]:
  "items (core_abs xs s) = xs" "bound (core_abs xs s) = capacity s" "shut (core_abs xs s) = closed s"
  "handles (core_abs xs s) = unat (senders s)"
  by (simp_all add: core_abs_def)

definition mpsc_abs :: "('t, 'u) mpsc \<Rightarrow> 't chan_spec" where
  [simp]: "mpsc_abs s = core_abs (queue s) s"

definition mpmc_abs :: "('t, 'u) mpmc \<Rightarrow> 't chan_spec" where
  [simp]: "mpmc_abs s = core_abs (contents s) s"

text \<open>No task is parked, and the receiver is there.\<close>

definition mpsc_calm :: "('t, 'u) mpsc \<Rightarrow> bool" where
  "mpsc_calm s \<longleftrightarrow> idle s \<and> flavor_inv (flavor s) \<and> receiver_alive s \<and> recv_waker s = None \<and> send_wakers s = []"

definition mpmc_calm :: "('t, 'u) cmenv \<Rightarrow> ('t, 'u) mpmc \<Rightarrow> bool" where
  "mpmc_calm env s \<longleftrightarrow> idle s \<and> flavor_inv (flavor s) \<and> receivers s \<noteq> 0 \<and> recv_wakers s = [] \<and> send_wakers s = []
     \<and> redelivery s = None \<and> fuel env \<noteq> 0"

lemma core_abs_handles:
  assumes "senders s \<noteq> 0"
  shows "core_abs xs (s\<lparr>senders := senders s - 1\<rparr>) = (core_abs xs s)\<lparr>handles := unat (senders s) - 1\<rparr>"
    and "unat (senders s) + 1 < 2 ^ 64 \<Longrightarrow>
      core_abs xs (s\<lparr>senders := senders s + 1\<rparr>) = (core_abs xs s)\<lparr>handles := unat (senders s) + 1\<rparr>"
proof -
  have "1 \<le> senders s" using assms by (simp add: word_le_nat_alt Suc_leI unat_gt_0)
  from unat_sub [OF this] show "core_abs xs (s\<lparr>senders := senders s - 1\<rparr>) = (core_abs xs s)\<lparr>handles := unat (senders s) - 1\<rparr>"
    by (simp add: core_abs_def)
  show "unat (senders s) + 1 < 2 ^ 64 \<Longrightarrow>
      core_abs xs (s\<lparr>senders := senders s + 1\<rparr>) = (core_abs xs s)\<lparr>handles := unat (senders s) + 1\<rparr>"
    using unat_suc_nowrap [of "senders s"] by (simp add: core_abs_def)
qed

lemma core_abs_last: "core_abs xs (s\<lparr>senders := 0\<rparr>) = (core_abs xs s)\<lparr>handles := 0\<rparr>"
  and core_abs_shut: "core_abs xs (s\<lparr>closed := True\<rparr>) = (core_abs xs s)\<lparr>shut := True\<rparr>"
  and core_abs_items: "flavor_capacity f = capacity s \<Longrightarrow>
    core_abs ys (s\<lparr>flavor := f, log := l\<rparr>) = (core_abs xs s)\<lparr>items := ys\<rparr>"
  by (simp_all add: core_abs_def)

lemmas core_abs_updates = core_abs_handles [simplified] core_abs_last core_abs_shut core_abs_items

text \<open>The calls that only look at the channel or at one of its flags.\<close>

lemmas calm_wp = wp_simps possible_def wake_both_def wp_wake_senders incr_senders_def decr_senders_def
  wp_chan_cap wp_chan_len wp_chan_is_empty wp_chan_is_full flavor_cap_eq flavor_is_full_iff flavor_is_empty_iff flavor.len
  core_abs_updates

lemmas mpsc_calm_wp = calm_wp mpsc_calm_def mpsc_disconnected_def mpsc_close_def wp_mpsc_wake_receiver
  mpsc_sender_close_def mpsc_sender_clone_def mpsc_sender_drop_def mpsc_sender_is_closed_def mpsc_sender_is_full_def
  mpsc_sender_capacity_def mpsc_receiver_close_def mpsc_receiver_is_closed_def mpsc_receiver_len_def mpsc_receiver_is_empty_def

lemmas mpmc_calm_wp = calm_wp mpmc_calm_def mpmc_disconnected_def mpmc_close_def wp_wake_receivers mpmc_send_closed_iff
  mpmc_sender_close_def mpmc_sender_clone_def mpmc_sender_drop_def mpmc_sender_is_closed_def mpmc_sender_is_full_def
  mpmc_sender_capacity_def mpmc_receiver_close_def mpmc_receiver_is_closed_def mpmc_receiver_len_def mpmc_receiver_is_empty_def
  mpmc_len_def mpmc_is_empty_def wp_borrow_gets

section \<open>The mpsc channel\<close>

lemma mpsc_send_refines:
  assumes "mpsc_calm s"
  shows "wp {OutOfMemory} (mpsc_try_send env x)
    (\<lambda>r s'. mpsc_calm s' \<and> (Sent r, mpsc_abs s') = spec_call (TrySend x) (mpsc_abs s)) (\<lambda>_ _. False) s"
proof (cases "closed s")
  case True
  with assms show ?thesis by (simp add: mpsc_try_send_def mpsc_calm_wp)
next
  case False
  with assms show ?thesis
    unfolding mpsc_try_send_def
    by (simp only: mpsc_calm_def wp_bindM wp_gets simp_thms if_False, intro wp_chan_try_push) (auto simp: mpsc_calm_wp)
qed

lemma mpsc_recv_refines:
  assumes "mpsc_calm s"
  shows "wp {OutOfMemory} (mpsc_try_recv env)
    (\<lambda>r s'. mpsc_calm s' \<and> (Got r, mpsc_abs s') = spec_call TryRecv (mpsc_abs s)) (\<lambda>_ _. False) s"
  unfolding mpsc_try_recv_def wp_bindM [of _ chan_pop]
  by (rule wp_chan_pop) (use assms in \<open>auto simp: mpsc_calm_wp\<close>)

lemma mpsc_call_refines:
  assumes "mpsc_calm s" and "possible a (mpsc_abs s)"
  shows "wp {OutOfMemory} (mpsc_perform env a) (\<lambda>r s'. mpsc_calm s' \<and> (r, mpsc_abs s') = spec_call a (mpsc_abs s)) (\<lambda>_ _. False) s"
proof (cases a)
  case (TrySend x)
  then show ?thesis using mpsc_send_refines [OF assms(1), of env x] by (simp only: mpsc_perform.simps wp_bindM wp_ret)
next
  case TryRecv
  then show ?thesis using mpsc_recv_refines [OF assms(1), of env] by (simp only: mpsc_perform.simps wp_bindM wp_ret)
qed (use assms in \<open>simp_all add: mpsc_calm_wp\<close>)

interpretation mpsc_sync: refines_spec mpsc_abs mpsc_calm "mpsc_perform env" for env
  by unfold_locales (rule mpsc_call_refines)

section \<open>The mpmc channel\<close>

lemma mpmc_send_refines:
  assumes "mpmc_calm env s"
  shows "wp {OutOfMemory} (mpmc_try_send env x)
    (\<lambda>r s'. mpmc_calm env s' \<and> (Sent r, mpmc_abs s') = spec_call (TrySend x) (mpmc_abs s)) (\<lambda>_ _. False) s"
proof (cases "closed s")
  case True
  with assms show ?thesis by (simp add: mpmc_try_send_def mpmc_calm_wp)
next
  case False
  with assms show ?thesis
    unfolding mpmc_try_send_def
    by (simp only: mpmc_calm_def mpmc_send_closed_iff wp_bindM wp_gets simp_thms if_False, intro wp_chan_try_push)
      (auto simp: mpmc_calm_wp)
qed

lemma mpmc_recv_refines:
  assumes s: "mpmc_calm env s"
  shows "wp {OutOfMemory} (mpmc_try_recv env)
    (\<lambda>r s'. mpmc_calm env s' \<and> (Got r, mpmc_abs s') = spec_call TryRecv (mpmc_abs s)) (\<lambda>_ _. False) s"
proof -
  obtain n where n: "fuel env = Suc n" using s by (cases "fuel env") (auto simp: mpmc_calm_def)
  have i: "idle s" and r: "redelivery s = None" using s by (auto simp: mpmc_calm_def)
  show ?thesis
    unfolding mpmc_try_recv_def try_take_def n try_take_loop.simps
    unfolding wp_bindM wp_take_redelivery [OF i] r option.case no_redelivery [OF r]
    by (rule wp_flavor_pop) (use s in \<open>auto simp: mpmc_calm_wp wp_has_parked_senders hand_out_def\<close>)
qed

lemma mpmc_call_refines:
  assumes "mpmc_calm env s" and "possible a (mpmc_abs s)"
  shows "wp {OutOfMemory} (mpmc_perform env a) (\<lambda>r s'. mpmc_calm env s' \<and> (r, mpmc_abs s') = spec_call a (mpmc_abs s)) (\<lambda>_ _. False) s"
proof (cases a)
  case (TrySend x)
  then show ?thesis using mpmc_send_refines [OF assms(1), of x] by (simp only: mpmc_perform.simps wp_bindM wp_ret)
next
  case TryRecv
  then show ?thesis using mpmc_recv_refines [OF assms(1)] by (simp only: mpmc_perform.simps wp_bindM wp_ret)
qed (use assms in \<open>simp_all add: mpmc_calm_wp\<close>)

interpretation mpmc_sync: refines_spec mpmc_abs "mpmc_calm env" "mpmc_perform env" for env
  by unfold_locales (rule mpmc_call_refines)

end
