(* ===== verification/Spec2Isabelle.thy ===== *)
theory Spec2Isabelle
  imports Storage_Theorems Mpsc_Theorems Mpmc_Theorems Oneshot_Theorems Rc_Theorems Sync_Runs
begin

text \<open>
  A verification development for \<open>lochan\<close>, a Rust library of single-threaded asynchronous channels.

  \<^bold>\<open>The program.\<close> Three channels, \<open>mpsc\<close>, \<open>mpmc\<close> and \<open>oneshot\<close>, whose handles share one state behind
  an \<open>Rc\<close>. A channel keeps its items in a queue (\<open>src/queue\<close>: a ring buffer for a bounded channel, a
  linked list of blocks for an unbounded one) and the wakers of parked tasks in lists or slots, each
  behind a \<open>LocalCell\<close> (\<open>src/cell.rs\<close>). There are no threads. What makes the code hard is re-entrancy
  and unwinding: cloning, waking and dropping a waker, and dropping an item or a panic payload, run
  code of the user, which may use the same channel, drop its handles, or panic. The operations are
  written so that no cell is borrowed while such code runs, and so that guards finish the work when it
  unwinds.

  \<^bold>\<open>The model.\<close> An operation is a computation \<open>'s \<Rightarrow> 'a outcome \<times> 's\<close> (\<open>Prelude\<close>): it returns, panics,
  aborts the process, or faults. A fault is what must never happen: undefined behaviour (an
  uninitialised read, a dangling pointer, an index out of bounds) or a conflicting borrow. A panic
  leaves the state it unwound from, so guards and \<open>catch_unwind\<close> are combinators (\<open>on_unwind\<close>,
  \<open>with_guard\<close>, \<open>catch_unwind\<close>), and a panic inside an unwinding guard aborts, as in Rust. Counters,
  indices and ids are 64-bit words. User code is the record \<open>env\<close> (\<open>Wakers\<close>): arbitrary computations on
  the state of the channel and of the program around it (\<open>usr\<close>). What a theorem assumes of it is
  \<open>admissible A inv step env\<close>: from a state that satisfies the invariant it acts on the channel by
  \<open>step\<close> only, returning or panicking, it aborts at most for a reason in \<open>A\<close>, and, with \<open>std\<close>, the
  destructors of panic payloads do not panic in turn. The state carries a ghost log of the items pushed
  and popped, the wakers cloned, woken and dropped, the registrations of parked tasks made and withdrawn,
  and the items dropped. No operation reads it; the theorems speak of it.

  \<^bold>\<open>Theories, in the order of the code.\<close>
  \<^item> \<open>Prelude\<close>: words, outcomes, computations, weakest preconditions (\<open>wp\<close>), and the locale
    \<open>step_system\<close> with \<open>guar\<close>: a computation is a sequence of steps, whether it returns or unwinds.
  \<^item> \<open>Cell\<close>: \<open>LocalCell\<close> in its checked and its unchecked build (\<open>src/cell.rs\<close>).
  \<^item> \<open>Fifo\<close>: the interface of a queue, locale \<open>fifo\<close>, and the abstract queue \<open>spec_queue\<close> that every
    instance refines. \<open>Ring\<close> (\<open>src/queue/ring\<close>), \<open>Block_List\<close> (\<open>src/queue/list\<close>, over a heap with an
    arbitrary allocator) and \<open>Flavor\<close> (\<open>src/queue/mod.rs\<close>) interpret it.
  \<^item> \<open>Wakers\<close>: user code, \<open>drop_panic_payload\<close> (\<open>src/lib.rs\<close>), \<open>wake_all\<close> with and without \<open>std\<close>, the lists
    of parked tasks, and the locale \<open>channel_steps\<close>: what user code can do to a channel.
  \<^item> \<open>Errors\<close>: \<open>src/mpsc/error.rs\<close>, and \<open>src/mpmc/error.rs\<close>, which has the same text.
  \<^item> \<open>Chan_Core\<close>, \<open>Parking\<close>: the fields and functions that the two \<open>Chan\<close> types share (\<open>src/mpsc/chan.rs\<close>,
    \<open>src/mpmc/chan.rs\<close>), and the interface of parked senders, locales \<open>unparking\<close> and \<open>parking\<close>.
  \<^item> \<open>Promises\<close>: what is promised from one call to the next although single steps inside a call break it;
    locale \<open>keeping\<close>, and the promise \<open>heeds\<close> to a parked sender.
  \<^item> \<open>Send_Future\<close>: the \<open>Send\<close> future of both channels (\<open>send.rs\<close>) and its locale \<open>send_future\<close>, with
    \<open>commit\<close>, where the two differ, as a parameter.
  \<^item> \<open>Mpsc\<close>: the operations of \<open>src/mpsc\<close>. \<open>Mpsc_Steps\<close>: its atomic steps, those of a sender (\<open>sstep\<close>) and
    those of the receiver (\<open>rstep\<close>), and its invariant. \<open>Mpsc_Sender\<close>, \<open>Mpsc_Receiver\<close>: every operation
    against the steps, in locales whose parameter is the step relation. \<open>Mpsc_Calls\<close>: the calls of a
    program, \<open>mpsc_call\<close>, and the locale \<open>mpsc_calls\<close> of the step families along which calls can be
    followed. \<open>Mpsc_Promises\<close>: the promises as such families. \<open>Mpsc_Theorems\<close>: the properties.
  \<^item> \<open>Mpmc\<close>, \<open>Mpmc_Steps\<close>, \<open>Mpmc_Sender\<close>, \<open>Mpmc_Receiver\<close>, \<open>Mpmc_Calls\<close>, \<open>Mpmc_Promises\<close>,
    \<open>Mpmc_Theorems\<close>: the same for \<open>src/mpmc\<close>.
  \<^item> \<open>Chan_Spec\<close>: a reference channel, which is a list with a bound, a flag and a count, and the locale
    \<open>refines_spec\<close>. \<open>Sync_Runs\<close>: both channels refine it for the calls that return at once.
  \<^item> \<open>Traces\<close>: what every finished run does to the parts of the state that an operation does not touch
    (\<open>traced\<close>, locales \<open>world_frame\<close> and \<open>core_frame\<close>). \<open>Rc\<close>: the count of the \<open>Rc\<close> and the destructors of the
    fields of a channel. \<open>Mpmc_Rc\<close>, \<open>Mpsc_Rc\<close>: handles that hold an \<open>Rc\<close>, and the calls of a program that
    owns them (\<open>mpmc_handle_call\<close>, \<open>mpsc_handle_call\<close>). \<open>Rc_Theorems\<close>: the properties of the counts.
  \<^item> \<open>Oneshot\<close>, \<open>Oneshot_Proofs\<close>, \<open>Oneshot_Calls\<close>, \<open>Oneshot_Theorems\<close>: \<open>src/oneshot\<close>, in the same order.
  \<^item> \<open>Storage_Theorems\<close>: the properties of the queues, cells and wakers.

  \<^bold>\<open>Steps and calls.\<close> An atomic step is what an operation does between two calls of user code. Every
  operation is shown to be a sequence of steps, given that the user code it runs is one; the invariant
  holds along steps. The relations \<open>mpsc_call\<close>, \<open>mpmc_call\<close> and \<open>oneshot_call\<close> are inductive and closed under nesting: a
  call is an operation of a handle or of a future, returned or unwound, whose user code makes calls.
  Their first argument says which handles the running code can reach, for instance no \<open>Receiver\<close> inside
  an operation that borrows it mutably. So a statement about sequences of calls covers every program
  that uses the library, at any depth of re-entrancy.

  \<^bold>\<open>What is shown.\<close>
  \<^item> Order and loss: what was received, followed by what is queued, is what was sent, along any calls on
    bounded and unbounded channels, and the capacity is respected; a channel whose receivers are gone is empty (\<open>mpmc_fifo\<close>, \<open>mpsc_fifo\<close>,
    \<open>mpmc_accessors\<close>; \<open>oneshot_at_most_once\<close>). What is sent within the capacity comes back
    (\<open>channel_round_trip\<close>).
  \<^item> Memory and borrow safety: no operation faults, whatever its user code does
    (\<open>mpmc_receiver_ops_safe\<close>, \<open>mpmc_sender_ops_safe\<close>, \<open>mpsc_sender_ops_safe\<close>, \<open>mpsc_receiver_ops_safe\<close>), and
    the checked cell fails exactly where the borrow rules forbid the access (\<open>cell_borrow_rules\<close>).
  \<^item> Ownership: the count of the \<open>Rc\<close> is the number of handles, so that the shared state is freed once, with
    the last of them and empty, and not under an operation that uses it; the counts do not wrap
    (\<open>mpmc_freed_once\<close>, \<open>mpsc_freed_once\<close>, \<open>mpmc_not_freed_in_use\<close>, \<open>mpsc_not_freed_in_use\<close>,
    \<open>mpmc_handle_clone_spec\<close>).
  \<^item> Wakeups: a parked receiver is not forgotten (\<open>mpmc_no_lost_wakeup\<close>, \<open>mpsc_no_lost_wakeup\<close>,
    \<open>oneshot_no_lost_wakeup\<close>), nor is a parked sender (\<open>mpmc_sender_not_forgotten\<close>,
    \<open>mpsc_sender_not_forgotten\<close>), whatever calls follow; \<open>wake_all\<close> reaches everyone although wakers panic.
  \<^item> Each operation on every branch: the \<open>_spec\<close> theorems, with what holds when it unwinds. Where they say
    that a parked task was woken, they say it of the log (\<open>Woke\<close>), not only that steps led to the final
    state, since a step may also clear a registration.
  \<^item> Refinement and termination: the queues refine a list, both channels refine the reference channel
    (\<open>channels_refine_spec\<close>), the list frees its blocks, \<open>try_take\<close> and the drains end.
  \<^item> Where the code falls short: \<open>mpsc_send_lost_wakeup\<close>, \<open>mpsc_recv_item_lost\<close>,
    \<open>mpsc_receiver_drop_retains_waker\<close>, \<open>mpsc_send_terminated_with_outcome\<close>, \<open>drop_panic_payload_escapes\<close> are
    runs from new channels on which \<open>mpsc\<close>, or \<open>drop_panic_payload\<close>, does not keep a promise that \<open>mpmc\<close>
    does keep or a comment makes.

  \<^bold>\<open>Bounds and fuel.\<close> A ring has at most \<open>2 ^ 63\<close> slots (a Rust allocation has at most \<open>2 ^ 63 - 1\<close> bytes,
  items of size zero excepted), a list block at most 64 slots,
  and fewer than \<open>2 ^ 57\<close> blocks are live at a time (each has three header words). There are fewer than \<open>2 ^ 64\<close> handles of a kind,
  because \<open>Rc::clone\<close> aborts before there are more (\<open>mpmc_handle_clone_spec\<close>);
  registration ids may wrap, and what needs them distinct says so. The drains run on fuel one (\<open>mpsc\<close>) or
  two (\<open>mpmc\<close>) above the length of the queue, which is enough because nothing is pushed once the receivers
  are gone; running out would be a fault, which the safety theorems exclude. The loop of \<open>try_take\<close> has
  its fuel in \<open>env\<close>, since wakers can prolong it; running out is the abort \<open>Diverges\<close>, so that theorems
  whose \<open>A\<close> lacks it show that the loop ends, and \<open>mpmc_try_take_returns\<close> shows that fuel 2 is enough when
  senders do not park again meanwhile. The two \<open>poll\<close> theorems about registration assume that a cloned waker
  is the waker it was cloned from (\<open>same_clones\<close>), which is how the log identifies wakers.

  \<^bold>\<open>Not modelled.\<close> The count of the \<open>Rc\<close> of a \<open>oneshot\<close> channel: neither half can be cloned, so its state is
  dropped (\<open>oneshot_inner_drop\<close>) when both are gone, and that is how its calls have it; accessors that only
  return a reference to the channel, and constructors of futures and iterators that only wrap one;
  \<open>core::error::Error\<close> impls, which are empty; \<open>PhantomData\<close> markers; the overflow panics of
  debug builds (the arithmetic is that of a release build, and the refinement theorems show where it does
  not wrap); tests, benchmarks, the build script and CI scripts.
\<close>

section \<open>Programs that never wait\<close>

lemma new_calm:
  assumes "flavor_inv f" and "flavor_list f = []"
  shows "mpsc_calm (mpsc_new f u)" and "mpsc_abs (mpsc_new f u) = spec_new (flavor_capacity f)"
    and "fuel env \<noteq> 0 \<Longrightarrow> mpmc_calm env (mpmc_new f v)" and "mpmc_abs (mpmc_new f v) = spec_new (flavor_capacity f)"
  using assms by (simp_all add: mpsc_calm_def mpmc_calm_def mpsc_new_def mpmc_new_def idle_def core_abs_def spec_new_def)

lemma new_refines:
  assumes "flavor_inv f" and "flavor_list f = []" and "spec_run as (spec_new (flavor_capacity f)) = Some (rs, c)"
  shows "wp {OutOfMemory} (run_calls (mpsc_perform env) as) (\<lambda>rs' s'. rs' = rs \<and> mpsc_abs s' = c) (\<lambda>_ _. False) (mpsc_new f u)"
    and "fuel env' \<noteq> 0 \<Longrightarrow>
      wp {OutOfMemory} (run_calls (mpmc_perform env') as) (\<lambda>rs' s'. rs' = rs \<and> mpmc_abs s' = c) (\<lambda>_ _. False) (mpmc_new f v)"
proof -
  note new = new_calm [OF assms(1,2)]
  have "spec_run as (mpsc_abs (mpsc_new f u)) = Some (rs, c)" using assms(3) by (simp only: new(2))
  from mpsc_sync.run_refines [OF new(1) this]
  show "wp {OutOfMemory} (run_calls (mpsc_perform env) as) (\<lambda>rs' s'. rs' = rs \<and> mpsc_abs s' = c) (\<lambda>_ _. False) (mpsc_new f u)"
    by (rule wp_conseq) auto
  assume fuel: "fuel env' \<noteq> 0"
  have "spec_run as (mpmc_abs (mpmc_new f v)) = Some (rs, c)" using assms(3) by (simp only: new(4))
  from mpmc_sync.run_refines [OF new(3) [OF fuel] this]
  show "wp {OutOfMemory} (run_calls (mpmc_perform env') as) (\<lambda>rs' s'. rs' = rs \<and> mpmc_abs s' = c) (\<lambda>_ _. False) (mpmc_new f v)"
    by (rule wp_conseq) auto
qed

text \<open>
  C14. Both channels implement the reference channel. Take any program of calls that return at once
  (\<open>try_send\<close>, \<open>try_recv\<close>, \<open>close\<close> from either side, cloning and dropping senders, and the accessors) on a
  new channel over an empty queue, bounded or not. If the reference channel answers it with \<open>rs\<close>, then
  so do \<open>mpsc\<close> and \<open>mpmc\<close>, whatever the user code is, since none of it runs; nothing panics, and only
  the allocator can end the run early. The channels agree with the reference on what is left in the
  queue, on the capacity, on whether they are closed and on the number of senders.
\<close>

theorem channels_refine_spec:
  assumes "flavor_inv f" and "flavor_list f = []" and "fuel env' \<noteq> 0"
    and "spec_run as (spec_new (flavor_capacity f)) = Some (rs, c)"
  shows "wp {OutOfMemory} (run_calls (mpsc_perform env) as) (\<lambda>rs' s'. rs' = rs \<and> mpsc_abs s' = c) (\<lambda>_ _. False) (mpsc_new f u)
    \<and> wp {OutOfMemory} (run_calls (mpmc_perform env') as) (\<lambda>rs' s'. rs' = rs \<and> mpmc_abs s' = c) (\<lambda>_ _. False) (mpmc_new f v)"
  by (rule conjI [OF new_refines(1) [OF assms(1,2,4)] new_refines(2) [OF assms(1,2,4,3)]])

text \<open>A program that fills a channel for two, closes it and empties it.\<close>

definition fill_and_close :: "nat call list" where
  "fill_and_close = [TrySend 7, TrySend 8, TrySend 9, IsFull, TryRecv, CloseSender, TrySend 10, TryRecv, TryRecv]"

definition fill_and_close_answers :: "nat answer list" where
  "fill_and_close_answers = [Sent (Inr ()), Sent (Inr ()), Sent (Inl (Full 9)), Flag True, Got (Inr 7), Flag True,
     Sent (Inl (Closed 10)), Got (Inr 8), Got (Inl Disconnected)]"

theorem channels_refine_spec_witness:
  "wp {OutOfMemory} (run_calls (mpsc_perform (quiet_env True)) fill_and_close) (\<lambda>rs s'. rs = fill_and_close_answers)
      (\<lambda>_ _. False) (mpsc_new (flavor_bounded 2) ())
    \<and> wp {OutOfMemory} (run_calls (mpmc_perform (quiet_env True)) fill_and_close) (\<lambda>rs s'. rs = fill_and_close_answers)
      (\<lambda>_ _. False) (mpmc_new (flavor_bounded 2) ())"
proof -
  have f: "flavor_inv (flavor_bounded 2 :: nat flavor)" "flavor_list (flavor_bounded 2 :: nat flavor) = []"
    "flavor_capacity (flavor_bounded 2 :: nat flavor) = Some 2"
    using flavor_bounded_spec [of 2] by simp_all
  have "map_option fst (spec_run fill_and_close (spec_new (Some 2))) = Some fill_and_close_answers"
    by (simp add: fill_and_close_def fill_and_close_answers_def spec_new_def possible_def)
  then obtain c where c: "spec_run fill_and_close (spec_new (flavor_capacity (flavor_bounded 2 :: nat flavor))) = Some (fill_and_close_answers, c)"
    using f(3) by auto
  have fuel: "fuel (quiet_env True :: ((nat, unit) mpmc, nat) env) \<noteq> 0" by (simp add: quiet_env_def)
  note both = channels_refine_spec [OF f(1,2) fuel c, where u = "()" and v = "()" and env = "quiet_env True"]
  show ?thesis
    using wp_conseq [OF conjunct1 [OF both]] wp_conseq [OF conjunct2 [OF both]] by auto
qed

text \<open>
  C30. Send and receive are inverse. Sending a list of messages by \<open>try_send\<close> on a new channel with room
  for them, and then calling \<open>try_recv\<close> as often, returns exactly these messages in this order, and
  leaves the channel as it was: empty, open, with the same capacity and senders. This holds for
  \<open>mpsc\<close> and \<open>mpmc\<close>, bounded or not.
\<close>

theorem channel_round_trip:
  assumes "flavor_inv f" and "flavor_list f = []" and "fuel env' \<noteq> 0"
    and "\<And>b. flavor_capacity f = Some b \<Longrightarrow> length xs \<le> b"
  shows "wp {OutOfMemory} (run_calls (mpsc_perform env) (map TrySend xs @ replicate (length xs) TryRecv))
      (\<lambda>rs s'. drop (length xs) rs = map (\<lambda>x. Got (Inr x)) xs \<and> mpsc_abs s' = mpsc_abs (mpsc_new f u)) (\<lambda>_ _. False) (mpsc_new f u)
    \<and> wp {OutOfMemory} (run_calls (mpmc_perform env') (map TrySend xs @ replicate (length xs) TryRecv))
      (\<lambda>rs s'. drop (length xs) rs = map (\<lambda>x. Got (Inr x)) xs \<and> mpmc_abs s' = mpmc_abs (mpmc_new f v)) (\<lambda>_ _. False) (mpmc_new f v)"
proof
  note new = new_calm [OF assms(1,2)]
  have run: "spec_run (map TrySend xs @ replicate (length xs) TryRecv) (spec_new (flavor_capacity f))
      = Some (replicate (length xs) (Sent (Inr ())) @ map (\<lambda>x. Got (Inr x)) xs, spec_new (flavor_capacity f))"
    by (rule spec_round_trip) (use assms(4) in \<open>auto simp: spec_new_def\<close>)
  note both = new_refines [OF assms(1,2) run]
  show "wp {OutOfMemory} (run_calls (mpsc_perform env) (map TrySend xs @ replicate (length xs) TryRecv))
      (\<lambda>rs s'. drop (length xs) rs = map (\<lambda>x. Got (Inr x)) xs \<and> mpsc_abs s' = mpsc_abs (mpsc_new f u)) (\<lambda>_ _. False) (mpsc_new f u)"
    unfolding new(2) by (rule wp_conseq [OF both(1)]) auto
  show "wp {OutOfMemory} (run_calls (mpmc_perform env') (map TrySend xs @ replicate (length xs) TryRecv))
      (\<lambda>rs s'. drop (length xs) rs = map (\<lambda>x. Got (Inr x)) xs \<and> mpmc_abs s' = mpmc_abs (mpmc_new f v)) (\<lambda>_ _. False) (mpmc_new f v)"
    unfolding new(4) by (rule wp_conseq [OF both(2) [OF assms(3)]]) auto
qed

theorem channel_round_trip_witness:
  "wp {OutOfMemory} (run_calls (mpsc_perform (quiet_env True)) [TrySend 7, TrySend (8 :: nat), TryRecv, TryRecv])
    (\<lambda>rs s'. drop 2 rs = [Got (Inr 7), Got (Inr 8)]) (\<lambda>_ _. False) (mpsc_new (flavor_bounded 2) ())"
proof -
  have "flavor_inv (flavor_bounded 2 :: nat flavor)" "flavor_list (flavor_bounded 2 :: nat flavor) = []"
    and c: "flavor_capacity (flavor_bounded 2 :: nat flavor) = Some 2"
    using flavor_bounded_spec [of 2] by simp_all
  from channel_round_trip [OF this(1,2), of "quiet_env True :: ((nat, unit) mpmc, nat) env" "[7, 8]" "quiet_env True" "()" "()"] c
  show ?thesis by (auto simp: numeral_2_eq_2 quiet_env_def elim!: wp_conseq)
qed

end
